(* ===== verification/Prelude.thy ===== *)
theory Prelude
  imports Main "HOL-Library.Word" "HOL-Library.Signed_Division"
begin

unbundle bit_operations_syntax

text \<open>
  Shared vocabulary of the development: the C integer types as words, the result type of
  code that may stop the process, checked memory reads, little-endian decoding, and the
  generic lemmas on lists, results and words that the component theories use.
\<close>

section \<open>C integer types and memory\<close>

type_synonym u8 = "8 word"
type_synonym u16 = "16 word"
type_synonym u32 = "32 word"
type_synonym u64 = "64 word"
type_synonym bytes = "u8 list"

text \<open>
  Ways in which a call does not return a value: a failed \<^verbatim>\<open>ASSERT\<close>/\<^verbatim>\<open>assert\<close> aborts the
  process, an access outside an object is undefined behaviour, an integer division by zero
  is a trap, and a loop may never end.
\<close>

datatype fault = AssertFail | OutOfBounds | DivByZero | NoReturn

type_synonym 'a res = "fault + 'a"

named_theorems res_simps \<open>rewrite rules for results of C calls\<close>
named_theorems c_defs \<open>definitions of small C expressions and macros\<close>
named_theorems word_nat \<open>reading word arithmetic on natural numbers\<close>

section \<open>Sequencing of calls that may fault\<close>

definition rbind :: "'a res \<Rightarrow> ('a \<Rightarrow> 'b res) \<Rightarrow> 'b res" where
  "rbind m f = (case m of Inl e \<Rightarrow> Inl e | Inr x \<Rightarrow> f x)"

text \<open>The \<^verbatim>\<open>ASSERT\<close> macro of \<^verbatim>\<open>fuse/logging.h\<close> (built without \<^verbatim>\<open>NDEBUG\<close>).\<close>

definition ASSERT :: "bool \<Rightarrow> 'a res \<Rightarrow> 'a res" where
  "ASSERT c k = (if c then k else Inl AssertFail)"

lemma rbind_Inr [simp, res_simps]: "rbind (Inr x) f = f x"
  by (simp add: rbind_def)

lemma rbind_Inl [simp, res_simps]: "rbind (Inl e) f = Inl e"
  by (simp add: rbind_def)

lemma rbind_eq_Inr: "rbind m f = Inr y \<longleftrightarrow> (\<exists>x. m = Inr x \<and> f x = Inr y)"
  by (simp add: rbind_def split: sum.splits)

lemma rbind_eq_Inl: "rbind m f = Inl e \<longleftrightarrow> m = Inl e \<or> (\<exists>x. m = Inr x \<and> f x = Inl e)"
  by (auto simp: rbind_def split: sum.splits)

lemma rbind_cong [fundef_cong]:
  "m = m' \<Longrightarrow> (\<And>x. m' = Inr x \<Longrightarrow> f x = f' x) \<Longrightarrow> rbind m f = rbind m' f'"
  by (simp add: rbind_def split: sum.splits)

lemma rbind_assoc: "rbind (rbind m f) g = rbind m (\<lambda>x. rbind (f x) g)"
  by (simp add: rbind_def split: sum.splits)

lemma ASSERT_cong [fundef_cong]:
  "c = c' \<Longrightarrow> (c' \<Longrightarrow> k = k') \<Longrightarrow> ASSERT c k = ASSERT c' k'"
  by (simp add: ASSERT_def)

lemma ASSERT_True [simp, res_simps]: "ASSERT True k = k"
  by (simp add: ASSERT_def)

lemma ASSERT_False [simp, res_simps]: "ASSERT False k = Inl AssertFail"
  by (simp add: ASSERT_def)

lemma ASSERT_eq_Inr: "ASSERT c k = Inr y \<longleftrightarrow> c \<and> k = Inr y"
  by (simp add: ASSERT_def)

lemmas res_eq_Inr = rbind_eq_Inr ASSERT_eq_Inr

text \<open>Integer division and remainder of C on unsigned operands: a zero divisor traps.\<close>

definition udiv :: "'a::len word \<Rightarrow> 'a word \<Rightarrow> 'a word res" where
  "udiv a b = (if b = 0 then Inl DivByZero else Inr (a div b))"

definition umod :: "'a::len word \<Rightarrow> 'a word \<Rightarrow> 'a word res" where
  "umod a b = (if b = 0 then Inl DivByZero else Inr (a mod b))"

lemma udiv_nonzero [res_simps]: "b \<noteq> 0 \<Longrightarrow> udiv a b = Inr (a div b)"
  by (simp add: udiv_def)

lemma umod_nonzero [res_simps]: "b \<noteq> 0 \<Longrightarrow> umod a b = Inr (a mod b)"
  by (simp add: umod_def)

section \<open>Little-endian decoding and encoding\<close>

fun le_nat :: "bytes \<Rightarrow> nat" where
  "le_nat [] = 0"
| "le_nat (b # bs) = unat b + 256 * le_nat bs"

fun to_le :: "nat \<Rightarrow> nat \<Rightarrow> bytes" where
  "to_le 0 v = []"
| "to_le (Suc n) v = of_nat v # to_le n (v div 256)"

text \<open>The object of an integer type at byte offset \<open>i\<close> of a buffer.\<close>

definition le8 :: "bytes \<Rightarrow> nat \<Rightarrow> u8" where
  "le8 bs i = of_nat (le_nat (take 1 (drop i bs)))"

definition le16 :: "bytes \<Rightarrow> nat \<Rightarrow> u16" where
  "le16 bs i = of_nat (le_nat (take 2 (drop i bs)))"

definition le32 :: "bytes \<Rightarrow> nat \<Rightarrow> u32" where
  "le32 bs i = of_nat (le_nat (take 4 (drop i bs)))"

definition le64 :: "bytes \<Rightarrow> nat \<Rightarrow> u64" where
  "le64 bs i = of_nat (le_nat (take 8 (drop i bs)))"

text \<open>Checked variants: the object must lie inside the buffer.\<close>

definition rd :: "nat \<Rightarrow> (bytes \<Rightarrow> nat \<Rightarrow> 'a) \<Rightarrow> bytes \<Rightarrow> nat \<Rightarrow> 'a res" where
  "rd w dec bs i = (if i + w \<le> length bs then Inr (dec bs i) else Inl OutOfBounds)"

lemma rd_in [res_simps]: "i + w \<le> length bs \<Longrightarrow> rd w dec bs i = Inr (dec bs i)"
  by (simp add: rd_def)

lemma unat_u8: "unat (b :: u8) < 256"
  using unsigned_less [of b, where 'a = nat] by simp

lemma le_nat_bound: "le_nat bs < 256 ^ length bs"
proof (induction bs)
  case Nil
  then show ?case by simp
next
  case (Cons b bs)
  with unat_u8 [of b] show ?case by simp
qed

lemma le_nat_append: "le_nat (xs @ ys) = le_nat xs + 256 ^ length xs * le_nat ys"
  by (induction xs) (simp_all add: algebra_simps)

lemma length_to_le [simp]: "length (to_le n v) = n"
  by (induction n arbitrary: v) simp_all

lemma le_nat_to_le: "le_nat (to_le n v) = v mod 256 ^ n"
proof (induction n arbitrary: v)
  case 0
  then show ?case by simp
next
  case (Suc n)
  have "unat (of_nat v :: u8) = v mod 256"
    by (simp add: unat_of_nat)
  then show ?case
    using Suc.IH by (simp add: mod_mult2_eq)
qed

lemma of_nat_low_byte: "of_nat (unat b + 256 * n) = (b :: u8)"
  by (rule word_unat_eq_iff [THEN iffD2])
    (simp add: unat_of_nat unat_u8 del: of_nat_add of_nat_mult)

lemma to_le_le_nat: "to_le (length bs) (le_nat bs) = bs"
proof (induction bs)
  case Nil
  then show ?case by simp
next
  case (Cons b bs)
  have "(unat b + 256 * le_nat bs) div 256 = le_nat bs"
    using unat_u8 [of b] by simp
  with Cons.IH show ?case by (simp add: of_nat_low_byte del: of_nat_add of_nat_mult)
qed

section \<open>Words read as natural numbers\<close>

lemma unat_add_nowrap [word_nat]:
  "unat a + unat b < 2 ^ LENGTH('a) \<Longrightarrow> unat (a + b) = unat a + unat b" for a b :: "'a::len word"
  using unat_add_lem [of a b] by simp

lemma unat_mult_nowrap [word_nat]:
  "unat a * unat b < 2 ^ LENGTH('a) \<Longrightarrow> unat (a * b) = unat a * unat b" for a b :: "'a::len word"
  using unat_mult_lem [of a b] by simp

lemma unat_sub_nowrap [word_nat]:
  "b \<le> a \<Longrightarrow> unat (a - b) = unat a - unat b" for a b :: "'a::len word"
  by (rule unat_sub)

lemma unat_ucast_up:
  "LENGTH('a) \<le> LENGTH('b) \<Longrightarrow> unat (ucast (x :: 'a::len word) :: 'b::len word) = unat x"
  by (simp add: unsigned_ucast_eq take_bit_nat_eq_self_iff order_less_le_trans [OF unsigned_less])

lemma unat_ucast_down:
  "unat x < 2 ^ LENGTH('b) \<Longrightarrow> unat (ucast (x :: 'a::len word) :: 'b::len word) = unat x"
  by (simp add: unsigned_ucast_eq take_bit_nat_eq_self_iff)

lemma unat_ucast_widths [simp]:
  "unat (ucast (a :: u8) :: u16) = unat a" "unat (ucast (a :: u8) :: u32) = unat a"
  "unat (ucast (a :: u8) :: u64) = unat a" "unat (ucast (b :: u16) :: u32) = unat b"
  "unat (ucast (b :: u16) :: u64) = unat b" "unat (ucast (c :: u32) :: u64) = unat c"
  by (simp_all add: unat_ucast_up)

lemma unat_2p: "n < LENGTH('a) \<Longrightarrow> unat (2 ^ n :: 'a::len word) = 2 ^ n"
proof -
  assume "n < LENGTH('a)"
  then have "(2 :: nat) ^ n < 2 ^ LENGTH('a)" by (intro power_strict_increasing) simp_all
  moreover have "(2 ^ n :: 'a word) = of_nat (2 ^ n)" by simp
  ultimately show ?thesis by (simp only: unat_of_nat mod_less)
qed

lemma unat_u16: "unat (x :: u16) < 65536"
  using unsigned_less [of x, where 'a = nat] by simp

lemma unat_u32: "unat (x :: u32) < 4294967296"
  using unsigned_less [of x, where 'a = nat] by simp

lemma unat_u64: "unat (x :: u64) < 18446744073709551616"
  using unsigned_less [of x, where 'a = nat] by simp

lemma ucast_0_iff [simp]: "(ucast (c :: u32) :: u64) = 0 \<longleftrightarrow> c = 0"
  by (metis unat_eq_zero unat_ucast_widths(6))

lemma eq_of_nat: "unat w = n \<Longrightarrow> w = of_nat n" for w :: "'a::len word"
  by auto

lemma unat_le_word:
  "length (take n (drop i bs)) \<le> k \<Longrightarrow> 256 ^ k \<le> (2 :: nat) ^ LENGTH('a) \<Longrightarrow>
   unat (of_nat (le_nat (take n (drop i bs))) :: 'a::len word) = le_nat (take n (drop i bs))"
proof -
  assume len: "length (take n (drop i bs)) \<le> k" and w: "256 ^ k \<le> (2 :: nat) ^ LENGTH('a)"
  have "le_nat (take n (drop i bs)) < 256 ^ length (take n (drop i bs))"
    by (rule le_nat_bound)
  also have "\<dots> \<le> 256 ^ k" using len by (intro power_increasing) simp_all
  also note w
  finally show ?thesis by (simp add: unat_of_nat)
qed

lemma unat_le16: "unat (le16 bs i) = le_nat (take 2 (drop i bs))"
  unfolding le16_def by (rule unat_le_word [of _ _ _ 2]) simp_all

lemma unat_le32: "unat (le32 bs i) = le_nat (take 4 (drop i bs))"
  unfolding le32_def by (rule unat_le_word [of _ _ _ 4]) simp_all

lemma ucast_down_mod:
  "LENGTH('b) \<le> LENGTH('a::len) \<Longrightarrow> word_of_int (k mod 2 ^ LENGTH('a)) = (word_of_int k :: 'b::len word)"
  for k :: int
  by (simp add: word_of_int_eq_iff min_def flip: take_bit_eq_mod)

lemma ucast_down_plus:
  "LENGTH('b) \<le> LENGTH('a) \<Longrightarrow> ucast (a + b) = (ucast a + ucast b :: 'b::len word)" for a b :: "'a::len word"
  by (simp only: ucast_eq uint_word_ariths(1) ucast_down_mod wi_hom_add)

lemma ucast_down_times:
  "LENGTH('b) \<le> LENGTH('a) \<Longrightarrow> ucast (a * b) = (ucast a * ucast b :: 'b::len word)" for a b :: "'a::len word"
  by (simp only: ucast_eq uint_word_ariths(3) ucast_down_mod wi_hom_mult)

text \<open>Signed readings: \<^verbatim>\<open>off_t\<close>, \<^verbatim>\<open>ssize_t\<close> and \<^verbatim>\<open>int\<close> values are words read by \<^const>\<open>sint\<close>.\<close>

lemma sint_nonneg_unat:
  "unat w < 2 ^ (LENGTH('a) - 1) \<Longrightarrow> sint w = int (unat w)" for w :: "'a::len word"
proof -
  assume "unat w < 2 ^ (LENGTH('a) - 1)"
  then have "uint w < 2 ^ (LENGTH('a) - 1)"
    by (metis of_nat_less_iff of_nat_numeral of_nat_power uint_nat)
  moreover have "- (2 ^ (LENGTH('a) - 1)) \<le> uint w"
    by (rule order_trans [of _ 0]) simp_all
  ultimately show ?thesis by (simp add: sint_uint signed_take_bit_int_eq_self)
qed

lemma sint_ge_0_u64: "0 \<le> sint (w :: u64) \<longleftrightarrow> unat w < 9223372036854775808"
proof -
  have "bit w 63 \<longleftrightarrow> odd (unat w div 9223372036854775808)"
    using bit_unsigned_iff [of w 63, where 'a = nat] by (simp add: bit_iff_odd)
  also have "\<dots> \<longleftrightarrow> 9223372036854775808 \<le> unat w"
  proof (cases "9223372036854775808 \<le> unat w")
    case True
    with unat_u64 [of w] have "unat w div 9223372036854775808 = 1"
      by (intro div_nat_eqI) simp_all
    with True show ?thesis by simp
  qed simp
  finally show ?thesis
    by (simp add: sint_uint bit_unsigned_iff not_le)
qed

lemma sint_ge_0_u32: "0 \<le> sint (w :: u32) \<longleftrightarrow> unat w < 2147483648"
proof -
  have "bit w 31 \<longleftrightarrow> odd (unat w div 2147483648)"
    using bit_unsigned_iff [of w 31, where 'a = nat] by (simp add: bit_iff_odd)
  also have "\<dots> \<longleftrightarrow> 2147483648 \<le> unat w"
  proof (cases "2147483648 \<le> unat w")
    case True
    with unat_u32 [of w] have "unat w div 2147483648 = 1"
      by (intro div_nat_eqI) simp_all
    with True show ?thesis by simp
  qed simp
  finally show ?thesis
    by (simp add: sint_uint bit_unsigned_iff not_le)
qed

lemma sint_u64_unat: "unat (w :: u64) < 9223372036854775808 \<Longrightarrow> sint w = int (unat w)"
  by (rule sint_nonneg_unat) simp

text \<open>An \<^verbatim>\<open>int\<close> return value that is not negative survives its conversions.\<close>

lemma int_return_value:
  "n < 2147483648 \<Longrightarrow> scast (ucast (of_nat n :: u64) :: u32) = (of_nat n :: u64)"
proof -
  assume n: "n < 2147483648"
  then have "ucast (of_nat n :: u64) = (of_nat n :: u32)"
    by (simp add: word_unat_eq_iff unat_of_nat unsigned_ucast_eq take_bit_nat_eq_self)
  moreover have "sint (of_nat n :: u32) = int n"
    using n sint_nonneg_unat [of "of_nat n :: u32"] by (simp add: unat_of_nat)
  ultimately show ?thesis by (simp add: scast_eq)
qed

text \<open>A little-endian object written at an offset of a buffer is read back.\<close>

lemma le_nat_take_to_le:
  "i = length pre \<Longrightarrow> n = m \<Longrightarrow> le_nat (take n (drop i (pre @ to_le m v @ post))) = v mod 256 ^ n"
  by (simp add: le_nat_to_le)

lemma le16_written: "le16 (pre @ to_le 2 (unat (v :: u16)) @ post) (length pre) = v"
  using unat_u16 [of v] by (simp add: le16_def le_nat_to_le)

lemma le32_written: "le32 (pre @ to_le 4 (unat (v :: u32)) @ post) (length pre) = v"
  using unat_u32 [of v] by (simp add: le32_def le_nat_to_le)

lemma le32_append: "i + 4 \<le> length xs \<Longrightarrow> le32 (xs @ ys) i = le32 xs i"
  by (simp add: le32_def)

section \<open>Lists\<close>

text \<open>Zero-terminated strings in an array.\<close>

lemma takeWhile_stops:
  "x \<in> set xs \<Longrightarrow> \<not> P x \<Longrightarrow> length (takeWhile P xs) < length xs"
  by (induction xs) auto

lemma terminator:
  assumes "0 \<in> set (a :: bytes)"
  shows "length (takeWhile (\<lambda>b. b \<noteq> 0) a) < length a" "a ! length (takeWhile (\<lambda>b. b \<noteq> 0) a) = 0"
proof -
  show "length (takeWhile (\<lambda>b. b \<noteq> 0) a) < length a"
    using assms takeWhile_stops [of 0 a "\<lambda>b. b \<noteq> 0"] by simp
  then show "a ! length (takeWhile (\<lambda>b. b \<noteq> 0) a) = 0"
    using nth_length_takeWhile by blast
qed

section \<open>C strings\<close>

text \<open>C strings: the bytes before the terminator; reading at the end gives the terminator.\<close>

definition cstr_at :: "bytes \<Rightarrow> nat \<Rightarrow> u8" where
  "cstr_at s i = (if i < length s then s ! i else 0)"

text \<open>\<^verbatim>\<open>strncpy(dst, s, n)\<close> on the first \<open>n\<close> bytes of \<open>dst\<close>: the string, padded with zeros.\<close>

definition strncpy :: "bytes \<Rightarrow> bytes \<Rightarrow> nat \<Rightarrow> bytes" where
  "strncpy dst s n =
     (let c = take n (takeWhile (\<lambda>b. b \<noteq> 0) s)
      in c @ replicate (n - length c) 0 @ drop n dst)"

text \<open>\<^verbatim>\<open>strncmp(a, s, n) == 0\<close> for an array \<open>a\<close> and a C string \<open>s\<close>, from position \<open>i\<close>.\<close>

fun strncmp_eq :: "bytes \<Rightarrow> bytes \<Rightarrow> nat \<Rightarrow> nat \<Rightarrow> bool res" where
  "strncmp_eq a s 0 i = Inr True"
| "strncmp_eq a s (Suc n) i =
     rbind (rd 1 (!) a i) (\<lambda>x.
     if x \<noteq> cstr_at s i then Inr False
     else if x = 0 then Inr True
     else strncmp_eq a s n (Suc i))"

text \<open>
  A token without terminator compares equal to a stored name exactly when it is that name,
  and the comparison never reads past the array.
\<close>

lemma strncmp_eq_prefix:
  assumes a: "0 \<in> set a" and s: "i + n \<le> length s" "0 \<notin> set (take (i + n) s)"
    and pre: "i \<le> length (takeWhile (\<lambda>b. b \<noteq> 0) a)"
  shows "strncmp_eq a s n i =
    Inr (take n (drop i s) = take n (drop i (takeWhile (\<lambda>b. b \<noteq> 0) a)))"
  using s pre
proof (induction n arbitrary: i)
  case 0
  then show ?case by simp
next
  case (Suc n)
  let ?w = "takeWhile (\<lambda>b. b \<noteq> 0) a"
  have wl: "length ?w < length a" and w0: "a ! length ?w = 0"
    using terminator [OF a] by simp_all
  have "i < length s" "i < length a" using Suc.prems wl by simp_all
  then have s: "cstr_at s i = s ! i" "take (Suc n) (drop i s) = s ! i # take n (drop (Suc i) s)"
    by (simp_all add: cstr_at_def Cons_nth_drop_Suc [symmetric])
  have nz: "s ! i \<noteq> 0"
  proof
    assume "s ! i = 0"
    moreover have "s ! i \<in> set (take (i + Suc n) s)"
      using \<open>i < length s\<close> by (auto simp: in_set_conv_nth intro!: exI [of _ i])
    ultimately show False using Suc.prems(2) by simp
  qed
  show ?case
  proof (cases "i = length ?w")
    case True
    then show ?thesis using \<open>i < length a\<close> w0 nz s by (simp add: rd_in)
  next
    case False
    then have i: "i < length ?w" using Suc.prems(3) by simp
    then have x: "a ! i = ?w ! i" by (simp add: takeWhile_nth)
    moreover have "?w ! i \<noteq> 0" using i nth_mem set_takeWhileD by fastforce
    moreover have "take (Suc n) (drop i ?w) = ?w ! i # take n (drop (Suc i) ?w)"
      using i by (simp add: Cons_nth_drop_Suc [symmetric])
    moreover have "strncmp_eq a s n (Suc i) = Inr (take n (drop (Suc i) s) = take n (drop (Suc i) ?w))"
      using Suc.prems i by (intro Suc.IH) simp_all
    ultimately show ?thesis using \<open>i < length a\<close> s by (simp add: rd_in)
  qed
qed

section \<open>Decimal numbers\<close>

text \<open>The digits that \<^verbatim>\<open>%d\<close> prints for a number that is not negative.\<close>

fun dec :: "nat \<Rightarrow> bytes" where
  "dec n = (if n < 10 then [of_nat (48 + n)] else dec (n div 10) @ [of_nat (48 + n mod 10)])"

declare dec.simps [simp del]

text \<open>The number that the digits stand for.\<close>

lemma dec_value: "foldl (\<lambda>n c. 10 * n + (unat c - 48)) 0 (dec n) = n"
proof (induction n rule: dec.induct)
  case (1 n)
  have d: "unat (of_nat (48 + k) :: u8) = 48 + k" if "k < 10" for k
    using that by (simp only: unat_of_nat) simp
  show ?case using 1 d [of n] d [of "n mod 10"] by (subst dec.simps) auto
qed

lemma length_dec: "n < 10 ^ k \<Longrightarrow> 0 < k \<Longrightarrow> length (dec n) \<le> k"
proof (induction k arbitrary: n)
  case (Suc k)
  show ?case
  proof (cases "n < 10")
    case False
    then have "n div 10 < 10 ^ k" "k \<noteq> 0" using Suc.prems by (auto intro!: gr0I)
    then show ?thesis using Suc.IH [of "n div 10"] False by (subst dec.simps) simp
  qed (simp add: dec.simps)
qed simp

definition dec_int :: "int \<Rightarrow> bytes" where
  "dec_int i = (if i < 0 then 45 # dec (nat (- i)) else dec (nat i))"

text \<open>\<^verbatim>\<open>snprintf\<close> into a buffer of \<open>n\<close> bytes: the string that is left in it.\<close>

definition snprintf :: "nat \<Rightarrow> bytes \<Rightarrow> bytes" where
  "snprintf n s = take (n - 1) s"

text \<open>A string literal of the source as bytes.\<close>

definition lit :: "string \<Rightarrow> bytes" where
  "lit s = map (\<lambda>c. of_nat (of_char c)) s"

end
