(* ===== verification/Disk.thy ===== *)
theory Disk
  imports Prelude
begin

text \<open>
  Model of \<^verbatim>\<open>fuse/disk.c\<close> and \<^verbatim>\<open>fuse/disk.h\<close>: the block device behind \<^verbatim>\<open>disk_fd\<close>, the two
  builds of \<^verbatim>\<open>pread_wrapper\<close>, the checked read \<^verbatim>\<open>__disk_read\<close> and the read contexts of
  \<^verbatim>\<open>disk_ctx_create\<close> and \<^verbatim>\<open>__disk_ctx_read\<close>.
\<close>

section \<open>The device and pread(2)\<close>

text \<open>The bytes of the opened device. The static \<^verbatim>\<open>disk_fd\<close> is \<open>None\<close> while it is \<open>-1\<close>.\<close>

record device =
  dev_size :: nat
  dev_byte :: "nat \<Rightarrow> u8"

type_synonym disk = "device option"

definition dev_bytes :: "device \<Rightarrow> nat \<Rightarrow> nat \<Rightarrow> bytes" where
  "dev_bytes d off n = map (dev_byte d) [off ..< off + n]"

text \<open>
  \<^verbatim>\<open>pread(2)\<close> on a device without I/O errors: a negative offset is \<^verbatim>\<open>EINVAL\<close>, a read stops at the
  end of the device, and one call transfers at most \<^verbatim>\<open>0x7ffff000\<close> bytes.
\<close>

definition MAX_RW_COUNT :: nat where
  "MAX_RW_COUNT = 2147479552"

definition pread :: "device \<Rightarrow> u64 \<Rightarrow> u64 \<Rightarrow> u64 \<times> bytes" where
  "pread d sz whr =
     (if sint whr < 0 then (- 1, [])
      else let n = min (min (unat sz) MAX_RW_COUNT) (dev_size d - unat whr)
           in (of_nat n, dev_bytes d (unat whr) n))"

section \<open>disk.c\<close>

text \<open>\<^verbatim>\<open>pread_wrapper\<close>, all systems but FreeBSD: its \<^verbatim>\<open>ssize_t\<close> result is returned as \<^verbatim>\<open>int\<close>.\<close>

definition pread_wrapper :: "device \<Rightarrow> u64 \<Rightarrow> u64 \<Rightarrow> u32 \<times> bytes" where
  "pread_wrapper d sz whr = (let (r, p) = pread d sz whr in (ucast r, p))"

text \<open>\<^verbatim>\<open>pread_wrapper\<close> on FreeBSD, which reads whole aligned blocks only.\<close>

definition PREAD_BLOCK_SIZE :: u64 where
  "PREAD_BLOCK_SIZE = 1024"

definition bsd_last :: "device \<Rightarrow> u32 \<Rightarrow> bytes \<Rightarrow> u64 \<Rightarrow> u64 \<Rightarrow> (u32 \<times> bytes) res" where
  "bsd_last d ret p sz whr =
     ASSERT (sz < PREAD_BLOCK_SIZE)
       (let (r, block) = pread d PREAD_BLOCK_SIZE whr in
        ASSERT ((ucast r :: u32) = ucast PREAD_BLOCK_SIZE)
          (Inr (ret + ucast sz, p @ take (unat sz) block)))"

definition bsd_mid :: "device \<Rightarrow> u32 \<Rightarrow> bytes \<Rightarrow> u64 \<Rightarrow> u64 \<Rightarrow> (u32 \<times> bytes) res" where
  "bsd_mid d ret p sz whr =
     ASSERT (sint whr smod 1024 = 0)
       (let mid_read_size = sz div PREAD_BLOCK_SIZE * PREAD_BLOCK_SIZE in
        if mid_read_size \<noteq> 0
        then let (r, q) = pread d mid_read_size whr in
             ASSERT (scast (ucast r :: u32) = mid_read_size)
               (if sz - mid_read_size = 0
                then Inr (ret + ucast mid_read_size, p @ q)
                else bsd_last d (ret + ucast mid_read_size) (p @ q)
                       (sz - mid_read_size) (whr + mid_read_size))
        else bsd_last d ret p sz whr)"

definition pread_wrapper_freebsd :: "device \<Rightarrow> u64 \<Rightarrow> u64 \<Rightarrow> (u32 \<times> bytes) res" where
  "pread_wrapper_freebsd d sz whr =
     (let first_offset = word_of_int (sint whr smod 1024) :: u64 in
      if first_offset \<noteq> 0
      then let (r, block) = pread d PREAD_BLOCK_SIZE (whr - first_offset) in
           ASSERT ((ucast r :: u32) = ucast PREAD_BLOCK_SIZE)
             (let first_size = min sz (PREAD_BLOCK_SIZE - first_offset) in
              if sint first_offset < 0 then Inl OutOfBounds
              else let p = take (unat first_size) (drop (unat first_offset) block) in
                   if sz - first_size = 0 then Inr (ucast first_size, p)
                   else bsd_mid d (ucast first_size) p (sz - first_size) (whr + first_size))
      else bsd_mid d 0 [] sz whr)"

text \<open>\<^verbatim>\<open>disk_open\<close>: opening a path is an operation of the environment, an errno or a device.\<close>

definition disk_open :: "(string \<Rightarrow> int + device) \<Rightarrow> string \<Rightarrow> int \<times> disk" where
  "disk_open open_rdonly path =
     (case open_rdonly path of Inl errno \<Rightarrow> (- errno, None) | Inr d \<Rightarrow> (0, Some d))"

text \<open>\<^verbatim>\<open>__disk_read\<close>: its \<^verbatim>\<open>int\<close> result and the bytes stored at \<open>p\<close>.\<close>

definition disk_read_ret :: "disk \<Rightarrow> u64 \<Rightarrow> u64 \<Rightarrow> (u32 \<times> bytes) res" where
  "disk_read_ret dk whr sz =
     (case dk of
        None \<Rightarrow> Inl AssertFail
      | Some d \<Rightarrow>
          let (r, p) = pread_wrapper d sz whr; pread_ret = scast r :: u64 in
          ASSERT (pread_ret = sz) (Inr (ucast pread_ret, p)))"

text \<open>The macros \<^verbatim>\<open>disk_read\<close> (result unused) and \<^verbatim>\<open>disk_read_u32\<close>.\<close>

definition disk_read :: "disk \<Rightarrow> u64 \<Rightarrow> u64 \<Rightarrow> bytes res" where
  "disk_read dk whr sz = rbind (disk_read_ret dk whr sz) (\<lambda>(_, p). Inr p)"

definition disk_read_u32 :: "disk \<Rightarrow> u64 \<Rightarrow> u32 res" where
  "disk_read_u32 dk whr =
     rbind (disk_read_ret dk whr 4) (\<lambda>(r, p). ASSERT ((scast r :: u64) = 4) (Inr (le32 p 0)))"

record disk_ctx =
  ctx_cur :: u64
  ctx_size :: u64

definition disk_ctx_create :: "u64 \<Rightarrow> u64 \<Rightarrow> u32 \<Rightarrow> disk_ctx res" where
  "disk_ctx_create whr sz len =
     ASSERT (sz \<noteq> 0) (Inr \<lparr>ctx_cur = whr, ctx_size = sz * ucast len\<rparr>)"

definition disk_ctx_read :: "disk \<Rightarrow> disk_ctx \<Rightarrow> u64 \<Rightarrow> (u32 \<times> bytes \<times> disk_ctx) res" where
  "disk_ctx_read dk ctx sz =
     ASSERT (ctx_size ctx \<noteq> 0)
       (let sz' = (if sz > ctx_size ctx then ctx_size ctx else sz) in
        rbind (disk_read_ret dk (ctx_cur ctx) sz')
          (\<lambda>(r, p). Inr (r, p, \<lparr>ctx_cur = ctx_cur ctx + scast r,
                              ctx_size = ctx_size ctx - scast r\<rparr>)))"

text \<open>The reads that succeed: they lie inside the device and within one transfer.\<close>

definition in_device :: "device \<Rightarrow> u64 \<Rightarrow> u64 \<Rightarrow> bool" where
  "in_device d whr sz \<longleftrightarrow>
     unat whr < 9223372036854775808 \<and> unat sz \<le> MAX_RW_COUNT \<and>
     (sz = 0 \<or> unat whr + unat sz \<le> dev_size d)"

section \<open>Plain reads\<close>

lemma length_dev_bytes [simp]: "length (dev_bytes d off n) = n"
  by (simp add: dev_bytes_def)

lemma dev_bytes_0 [simp]: "dev_bytes d off 0 = []"
  by (simp add: dev_bytes_def)

lemma dev_bytes_add: "dev_bytes d off (m + n) = dev_bytes d off m @ dev_bytes d (off + m) n"
proof -
  have "[off ..< off + (m + n)] = [off ..< off + m] @ [off + m ..< off + m + n]"
    using upt_add_eq_append [of off "off + m" n] by (simp add: add.assoc)
  then show ?thesis by (simp add: dev_bytes_def)
qed

lemma nth_dev_bytes: "i < n \<Longrightarrow> dev_bytes d off n ! i = dev_byte d (off + i)"
  by (simp add: dev_bytes_def)

lemma take_dev_bytes: "take m (dev_bytes d off n) = dev_bytes d off (min m n)"
  by (simp add: dev_bytes_def take_map take_upt min_def)

lemma drop_dev_bytes: "drop m (dev_bytes d off n) = dev_bytes d (off + m) (n - m)"
proof (cases "m \<le> n")
  case True
  then show ?thesis using dev_bytes_add [of d off m "n - m"] by simp
qed (simp add: dev_bytes_def)

lemma le32_dev_bytes: "i + 4 \<le> n \<Longrightarrow> le32 (dev_bytes d off n) i = le32 (dev_bytes d (off + i) 4) 0"
  by (simp add: le32_def drop_dev_bytes take_dev_bytes)

lemma pread_nonneg:
  "unat whr < 9223372036854775808 \<Longrightarrow>
   pread d sz whr =
     (let n = min (min (unat sz) MAX_RW_COUNT) (dev_size d - unat whr)
      in (of_nat n, dev_bytes d (unat whr) n))"
  by (simp add: pread_def sint_u64_unat)

lemma pread_inside:
  "unat whr < 9223372036854775808 \<Longrightarrow> unat sz \<le> MAX_RW_COUNT \<Longrightarrow>
   unat whr + unat sz \<le> dev_size d \<Longrightarrow>
   pread d sz whr = (sz, dev_bytes d (unat whr) (unat sz))"
  by (simp add: pread_nonneg Let_def min_absorb1)

lemma disk_read_ret_in:
  assumes "in_device d whr sz"
  shows "disk_read_ret (Some d) whr sz = Inr (ucast sz, dev_bytes d (unat whr) (unat sz))"
proof -
  have "unat sz < 2147483648"
    using assms by (simp add: in_device_def MAX_RW_COUNT_def)
  then have cast: "scast (ucast sz :: u32) = sz"
    using int_return_value [of "unat sz"] by simp
  have "pread d sz whr = (sz, dev_bytes d (unat whr) (unat sz))"
    using assms by (auto simp: in_device_def pread_inside pread_nonneg)
  then show ?thesis by (simp add: disk_read_ret_def pread_wrapper_def Let_def cast)
qed

lemma minus_1_return: "scast (ucast (- 1 :: u64) :: u32) = (- 1 :: u64)"
  by code_simp

lemma disk_read_ret_out:
  assumes "\<not> in_device d whr sz" and "sz \<noteq> - 1"
  shows "disk_read_ret (Some d) whr sz = Inl AssertFail"
proof (cases "unat whr < 9223372036854775808")
  case True
  define n where "n = min (min (unat sz) MAX_RW_COUNT) (dev_size d - unat whr)"
  have n: "n < 2147483648" by (simp add: n_def MAX_RW_COUNT_def)
  have "n \<noteq> unat sz"
  proof
    assume "n = unat sz"
    moreover have "sz \<noteq> 0 \<Longrightarrow> 0 < unat sz" by (simp add: unat_gt_0)
    ultimately have "in_device d whr sz"
      using True by (cases "sz = 0") (auto simp: n_def in_device_def)
    with assms(1) show False by simp
  qed
  then have "of_nat n \<noteq> sz"
    using n by (auto simp: unat_of_nat)
  then show ?thesis
    using True n
    by (simp add: disk_read_ret_def pread_wrapper_def pread_nonneg int_return_value flip: n_def)
next
  case False
  then have "sint whr < 0" using sint_ge_0_u64 [of whr] by simp
  then show ?thesis using assms(2)
    by (auto simp: disk_read_ret_def pread_wrapper_def pread_def Let_def minus_1_return ASSERT_def)
qed

lemma disk_read_in [res_simps]:
  "in_device d whr sz \<Longrightarrow> disk_read (Some d) whr sz = Inr (dev_bytes d (unat whr) (unat sz))"
  by (simp add: disk_read_def disk_read_ret_in)

lemma disk_read_len: "disk_read dk whr sz = Inr p \<Longrightarrow> sz \<noteq> - 1 \<Longrightarrow> length p = unat sz"
proof (cases dk)
  case (Some d)
  assume "disk_read dk whr sz = Inr p" and "sz \<noteq> - 1"
  with Some show ?thesis
    by (cases "in_device d whr sz") (auto simp: disk_read_def disk_read_ret_in disk_read_ret_out)
qed (simp add: disk_read_def disk_read_ret_def)

lemma disk_read_u32_in [res_simps]:
  "in_device d whr 4 \<Longrightarrow> disk_read_u32 (Some d) whr = Inr (le32 (dev_bytes d (unat whr) 4) 0)"
  by (simp add: disk_read_u32_def disk_read_ret_in)

section \<open>The FreeBSD wrapper\<close>

lemma smod_1024: "unat whr < 9223372036854775808 \<Longrightarrow> sint (whr :: u64) smod 1024 = int (unat whr mod 1024)"
proof -
  assume "unat whr < 9223372036854775808"
  then have "sint whr = int (unat whr)" by (rule sint_u64_unat)
  moreover have "int n smod 1024 = int (n mod 1024)" for n
    by (cases "n = 0") (simp_all add: signed_modulo_int_def zmod_int)
  ultimately show ?thesis by (simp only:)
qed

lemma unat_blocks [simp]:
  "unat (sz div PREAD_BLOCK_SIZE * PREAD_BLOCK_SIZE) = unat sz div 1024 * 1024"
proof -
  have "unat sz div 1024 * 1024 < 18446744073709551616"
    using unat_u64 [of sz] div_times_less_eq_dividend [of "unat sz" 1024] by linarith
  then show ?thesis
    by (simp add: PREAD_BLOCK_SIZE_def unat_div unat_word_ariths)
qed

lemma round_up_1024: "0 < (n::nat) mod 1024 \<Longrightarrow> (n + 1023) div 1024 = Suc (n div 1024)"
proof -
  assume "0 < n mod 1024"
  moreover have "n = n div 1024 * 1024 + n mod 1024" by simp
  moreover have "n mod 1024 < 1024" by simp
  ultimately show ?thesis by (intro div_nat_eqI; simp only: mult_Suc_right; linarith)
qed

lemma le_round_up_1024: "(n::nat) \<le> (n + 1023) div 1024 * 1024"
proof -
  have "(n + 1023) mod 1024 \<le> 1023" by (simp add: less_Suc_eq_le [symmetric])
  with div_mult_mod_eq [of "n + 1023" 1024] show ?thesis by linarith
qed

lemma bsd_last_ok:
  assumes "unat sz < 1024" and "unat whr < 9223372036854775808" and "unat whr + 1024 \<le> dev_size d"
  shows "bsd_last d ret p sz whr = Inr (ret + ucast sz, p @ dev_bytes d (unat whr) (unat sz))"
proof -
  have "pread d PREAD_BLOCK_SIZE whr = (PREAD_BLOCK_SIZE, dev_bytes d (unat whr) 1024)"
    using assms pread_inside [of whr PREAD_BLOCK_SIZE d]
    by (simp add: PREAD_BLOCK_SIZE_def MAX_RW_COUNT_def)
  moreover have "sz < PREAD_BLOCK_SIZE"
    using assms(1) by (simp add: PREAD_BLOCK_SIZE_def word_less_nat_alt)
  ultimately show ?thesis
    using assms(1) by (simp add: bsd_last_def take_dev_bytes)
qed

text \<open>The whole blocks were read, and a part of one block is left.\<close>

lemma bsd_tail_ok:
  fixes sz mid whr :: u64
  assumes m: "unat mid = unat sz div 1024 * 1024" and part: "unat sz mod 1024 \<noteq> 0"
    and w: "unat whr + unat sz < 9223372036854775808" and s: "unat sz \<le> MAX_RW_COUNT"
    and dev: "unat whr + (unat sz + 1023) div 1024 * 1024 \<le> dev_size d"
  shows "bsd_last d (ret + ucast mid) (p @ dev_bytes d (unat whr) (unat mid)) (sz - mid) (whr + mid) =
    Inr (ret + ucast sz, p @ dev_bytes d (unat whr) (unat sz))"
proof -
  have split: "unat mid + unat sz mod 1024 = unat sz" by (simp add: m)
  have "mid \<le> sz" by (simp add: word_le_nat_alt m)
  then have rest: "unat (sz - mid) = unat sz mod 1024" using split by (simp add: unat_sub_nowrap)
  have whr': "unat (whr + mid) = unat whr + unat mid"
    using w s split by (intro unat_add_nowrap) (simp add: MAX_RW_COUNT_def)
  have "(unat sz + 1023) div 1024 = Suc (unat sz div 1024)" using part by (intro round_up_1024) simp
  then have "unat whr + unat mid + 1024 \<le> dev_size d" using dev m by simp
  then have "bsd_last d (ret + ucast mid) q (sz - mid) (whr + mid) =
      Inr (ret + ucast mid + ucast (sz - mid), q @ dev_bytes d (unat whr + unat mid) (unat sz mod 1024))" for q
    using bsd_last_ok [of "sz - mid" "whr + mid" d "ret + ucast mid" q] rest whr' w s split
    by (simp add: MAX_RW_COUNT_def)
  moreover have "ucast mid + ucast (sz - mid) = (ucast sz :: u32)" by (simp add: ucast_down_plus [symmetric])
  moreover have "dev_bytes d (unat whr) (unat sz) =
      dev_bytes d (unat whr) (unat mid) @ dev_bytes d (unat whr + unat mid) (unat sz mod 1024)"
    using dev_bytes_add [of d "unat whr" "unat mid" "unat sz mod 1024"] split by simp
  ultimately show ?thesis by (simp add: add.assoc)
qed

lemma bsd_mid_ok:
  assumes w: "unat whr mod 1024 = 0" "unat whr + unat sz < 9223372036854775808"
    and s: "unat sz \<le> MAX_RW_COUNT" "0 < unat sz"
    and dev: "unat whr + (unat sz + 1023) div 1024 * 1024 \<le> dev_size d"
  shows "bsd_mid d ret p sz whr = Inr (ret + ucast sz, p @ dev_bytes d (unat whr) (unat sz))"
proof -
  define mid where "mid = sz div PREAD_BLOCK_SIZE * PREAD_BLOCK_SIZE"
  have m: "unat mid = unat sz div 1024 * 1024" by (simp add: mid_def)
  have split: "unat mid + unat sz mod 1024 = unat sz" by (simp add: m)
  have "unat mid \<le> (unat sz + 1023) div 1024 * 1024"
    unfolding m by (intro mult_le_mono1 div_le_mono) simp
  then have rd: "pread d mid whr = (mid, dev_bytes d (unat whr) (unat mid))"
    using w s dev split by (intro pread_inside) simp_all
  have cast: "scast (ucast mid :: u32) = mid"
    using s(1) split int_return_value [of "unat mid"] by (simp add: MAX_RW_COUNT_def)
  have a0: "sint whr smod 1024 = 0" using w by (simp add: smod_1024)
  show ?thesis
  proof (cases "mid = 0")
    case True
    then have "unat sz < 1024" using m by (simp add: unat_eq_zero) 
    moreover from this s have "(unat sz + 1023) div 1024 = 1"
      by (intro div_nat_eqI) simp_all
    ultimately show ?thesis
      using True w dev by (simp add: bsd_mid_def a0 flip: mid_def) (simp add: bsd_last_ok)
  next
    case False
    show ?thesis
    proof (cases "sz - mid = 0")
      case True
      then have "mid = sz" by simp
      with False rd cast show ?thesis by (simp add: bsd_mid_def a0 Let_def flip: mid_def)
    next
      case mod: False
      then have "unat sz mod 1024 \<noteq> 0" using split by (metis add.right_neutral diff_self word_unat_eq_iff)
      from bsd_tail_ok [OF m this w(2) s(1) dev] show ?thesis using False mod
        by (simp add: bsd_mid_def a0 rd cast Let_def flip: mid_def)
    qed
  qed
qed

lemma bsd_first_offset:
  fixes whr :: u64
  assumes "unat whr < 9223372036854775808"
  shows "unat (word_of_int (sint whr smod 1024) :: u64) = unat whr mod 1024"
proof -
  have "(word_of_int (sint whr smod 1024) :: u64) = of_nat (unat whr mod 1024)"
    using assms by (simp add: smod_1024 del: of_nat_mod)
  then show ?thesis by (simp add: unat_of_nat del: of_nat_mod)
qed

lemma bsd_first_block:
  assumes w: "unat whr < 9223372036854775808" and fo: "unat fo = unat whr mod 1024"
    and dev: "Suc (unat whr div 1024) * 1024 \<le> dev_size d"
  shows "pread d PREAD_BLOCK_SIZE (whr - fo) =
           (PREAD_BLOCK_SIZE, dev_bytes d (unat whr - unat fo) 1024)"
proof -
  have "unat (whr - fo) = unat whr - unat fo"
    using fo by (simp add: unat_sub_nowrap word_le_nat_alt)
  moreover have "unat whr - unat fo = unat whr div 1024 * 1024"
    using fo by (simp add: minus_mod_eq_div_mult)
  ultimately show ?thesis
    using pread_inside [of "whr - fo" PREAD_BLOCK_SIZE d] w dev
    by (simp add: PREAD_BLOCK_SIZE_def MAX_RW_COUNT_def)
qed

lemma bsd_rest_ok:
  assumes b: "unat whr + unat sz < 9223372036854775808" "unat sz \<le> MAX_RW_COUNT"
    and fs: "unat fs = 1024 - unat whr mod 1024" "unat fs < unat sz"
    and dev: "(unat whr + unat sz + 1023) div 1024 * 1024 \<le> dev_size d"
  shows "bsd_mid d (ucast fs) (dev_bytes d (unat whr) (unat fs)) (sz - fs) (whr + fs) =
           Inr (ucast sz, dev_bytes d (unat whr) (unat sz))"
proof -
  have sz': "unat (sz - fs) = unat sz - unat fs"
    using fs(2) by (simp add: unat_sub_nowrap word_le_nat_alt)
  have whr': "unat (whr + fs) = unat whr + unat fs"
    using b fs(2) by (intro unat_add_nowrap) simp
  have al: "unat whr + unat fs = Suc (unat whr div 1024) * 1024"
  proof -
    have "unat whr mod 1024 < 1024" by simp
    with fs(1) div_mult_mod_eq [of "unat whr" 1024] show ?thesis
      unfolding mult_Suc by linarith
  qed
  have "unat whr + unat sz + 1023 = Suc (unat whr div 1024) * 1024 + (unat sz - unat fs + 1023)"
    using fs(2) al by linarith
  then have up: "(unat whr + unat sz + 1023) div 1024 * 1024 =
      unat whr + unat fs + (unat sz - unat fs + 1023) div 1024 * 1024"
    unfolding al by (simp only: div_mult_self3) simp
  have "bsd_mid d (ucast fs) q (sz - fs) (whr + fs) =
      Inr (ucast fs + ucast (sz - fs), q @ dev_bytes d (unat (whr + fs)) (unat (sz - fs)))" for q
  proof (rule bsd_mid_ok)
    show "unat (whr + fs) mod 1024 = 0" unfolding whr' al by (rule mod_mult_self2_is_0)
    show "unat (whr + fs) + (unat (sz - fs) + 1023) div 1024 * 1024 \<le> dev_size d"
      using dev unfolding whr' sz' up .
  qed (use b fs sz' whr' in linarith)+
  moreover have "ucast fs + ucast (sz - fs) = (ucast sz :: u32)"
    by (simp add: ucast_down_plus [symmetric])
  ultimately show ?thesis
    using dev_bytes_add [of d "unat whr" "unat fs" "unat sz - unat fs"] fs(2) sz' whr' by simp
qed

lemma freebsd_read:
  assumes b: "unat whr + unat sz < 9223372036854775808" "unat sz \<le> MAX_RW_COUNT" "0 < unat sz"
    and dev: "(unat whr + unat sz + 1023) div 1024 * 1024 \<le> dev_size d"
  shows "pread_wrapper_freebsd d sz whr = Inr (ucast sz, dev_bytes d (unat whr) (unat sz))"
proof -
  define fo where "fo = (word_of_int (sint whr smod 1024) :: u64)"
  have fo: "unat fo = unat whr mod 1024" using b unfolding fo_def by (intro bsd_first_offset) simp
  show ?thesis
  proof (cases "fo = 0")
    case True
    with fo obtain q where "unat whr = 1024 * q" by auto
    then have "(unat whr + unat sz + 1023) div 1024 * 1024 =
        unat whr + (unat sz + 1023) div 1024 * 1024" by (simp add: add.assoc)
    with True fo b dev show ?thesis
      by (simp add: pread_wrapper_freebsd_def bsd_mid_ok flip: fo_def)
  next
    case False
    define fs where "fs = min sz (PREAD_BLOCK_SIZE - fo)"
    have lt: "unat fo < 1024" by (simp add: fo)
    have "unat (PREAD_BLOCK_SIZE - fo) = 1024 - unat fo"
      using lt by (simp add: PREAD_BLOCK_SIZE_def unat_sub_nowrap word_le_nat_alt)
    then have fs: "unat fs = min (unat sz) (1024 - unat fo)"
      by (simp add: fs_def min_def word_le_nat_alt)
    have "Suc (unat whr div 1024) \<le> (unat whr + unat sz + 1023) div 1024"
      using b(3) div_le_mono [of "unat whr + 1024" "unat whr + unat sz + 1023" 1024] by simp
    then have "Suc (unat whr div 1024) * 1024 \<le> dev_size d"
      using dev mult_le_mono1 order_trans by blast
    then have rd: "pread d PREAD_BLOCK_SIZE (whr - fo) =
        (PREAD_BLOCK_SIZE, dev_bytes d (unat whr - unat fo) 1024)"
      using b fo by (intro bsd_first_block) simp_all
    have first: "take (unat fs) (drop (unat fo) (dev_bytes d (unat whr - unat fo) 1024)) =
        dev_bytes d (unat whr) (unat fs)"
      using fo fs by (simp add: drop_dev_bytes take_dev_bytes)
    have nonneg: "\<not> sint fo < 0" using lt by (simp add: sint_u64_unat)
    show ?thesis
    proof (cases "sz - fs = 0")
      case True
      then have "fs = sz" by simp
      with False rd first nonneg show ?thesis
        by (simp add: pread_wrapper_freebsd_def flip: fo_def fs_def)
    next
      case more: False
      then have "unat fs \<noteq> unat sz" by (metis eq_iff_diff_eq_0 word_unat_eq_iff)
      with fs fo have "unat fs = 1024 - unat whr mod 1024" "unat fs < unat sz" by simp_all
      from bsd_rest_ok [OF b(1,2) this dev] False more rd first nonneg show ?thesis
        by (simp add: pread_wrapper_freebsd_def flip: fo_def fs_def)
    qed
  qed
qed

section \<open>The reader interface\<close>

text \<open>
  What every caller of \<^verbatim>\<open>pread_wrapper\<close> relies on: inside a range of requests, a request
  returns its size and exactly the device's bytes. Both builds provide it.
\<close>

locale device_reader =
  fixes read :: "device \<Rightarrow> u64 \<Rightarrow> u64 \<Rightarrow> (u32 \<times> bytes) res"
    and serves :: "device \<Rightarrow> u64 \<Rightarrow> u64 \<Rightarrow> bool"
  assumes read_serves:
    "serves d sz whr \<Longrightarrow> read d sz whr = Inr (ucast sz, dev_bytes d (unat whr) (unat sz))"
begin

lemma read_adjacent:
  assumes "serves d a whr" "serves d b (whr + a)" "serves d (a + b) whr"
    and "unat whr + unat a + unat b < 2 ^ 64"
  shows "\<exists>p q. read d a whr = Inr (ucast a, p) \<and> read d b (whr + a) = Inr (ucast b, q) \<and>
    read d (a + b) whr = Inr (ucast (a + b), p @ q)"
proof -
  have "unat (a + b) = unat a + unat b" and "unat (whr + a) = unat whr + unat a"
    using assms(4) by (simp_all add: unat_add_nowrap)
  with assms(1-3) show ?thesis by (simp add: read_serves dev_bytes_add)
qed

lemma read_agrees:
  assumes "\<And>d sz whr. serves' d sz whr \<Longrightarrow>
      read' d sz whr = Inr (ucast sz, dev_bytes d (unat whr) (unat sz))"
    and "serves d sz whr" and "serves' d sz whr"
  shows "read d sz whr = read' d sz whr"
  using assms by (simp add: read_serves)

end

definition linux_read :: "device \<Rightarrow> u64 \<Rightarrow> u64 \<Rightarrow> (u32 \<times> bytes) res" where
  "linux_read d sz whr = Inr (pread_wrapper d sz whr)"

definition freebsd_serves :: "device \<Rightarrow> u64 \<Rightarrow> u64 \<Rightarrow> bool" where
  "freebsd_serves d sz whr \<longleftrightarrow>
     unat whr + unat sz < 9223372036854775808 \<and> unat sz \<le> MAX_RW_COUNT \<and> 0 < unat sz \<and>
     (unat whr + unat sz + 1023) div 1024 * 1024 \<le> dev_size d"

interpretation linux: device_reader linux_read "\<lambda>d sz whr. in_device d whr sz"
proof
  fix d sz whr
  assume "in_device d whr sz"
  then have "pread d sz whr = (sz, dev_bytes d (unat whr) (unat sz))"
    by (auto simp: in_device_def pread_inside pread_nonneg)
  then show "linux_read d sz whr = Inr (ucast sz, dev_bytes d (unat whr) (unat sz))"
    by (simp add: linux_read_def pread_wrapper_def)
qed

interpretation freebsd: device_reader pread_wrapper_freebsd freebsd_serves
  by unfold_locales (simp add: freebsd_serves_def freebsd_read)

lemma freebsd_serves_in_device: "freebsd_serves d sz whr \<Longrightarrow> in_device d whr sz"
  using le_round_up_1024 [of "unat whr + unat sz"]
  by (auto simp: freebsd_serves_def in_device_def)

section \<open>Read contexts\<close>

lemma disk_ctx_read_in:
  assumes "ctx_size ctx \<noteq> 0" and "in_device d (ctx_cur ctx) (min sz (ctx_size ctx))"
  shows "disk_ctx_read (Some d) ctx sz =
     Inr (ucast (min sz (ctx_size ctx)),
          dev_bytes d (unat (ctx_cur ctx)) (min (unat sz) (unat (ctx_size ctx))),
          \<lparr>ctx_cur = ctx_cur ctx + min sz (ctx_size ctx),
           ctx_size = ctx_size ctx - min sz (ctx_size ctx)\<rparr>)"
proof -
  let ?n = "min sz (ctx_size ctx)"
  have n: "(if sz > ctx_size ctx then ctx_size ctx else sz) = ?n"
    by (auto simp: min_def)
  have "unat ?n < 2147483648"
    using assms(2) by (simp add: in_device_def MAX_RW_COUNT_def)
  then have cast: "scast (ucast ?n :: u32) = ?n"
    using int_return_value [of "unat ?n"] by simp
  have "unat ?n = min (unat sz) (unat (ctx_size ctx))"
    by (simp add: min_def word_le_nat_alt)
  then show ?thesis
    using assms by (simp add: disk_ctx_read_def n disk_read_ret_in cast)
qed


section \<open>Properties of the device access\<close>

text \<open>
  (C21) \<^verbatim>\<open>__disk_read\<close> delivers the bytes of the device at the offset, all that were asked for, when the
  request lies inside the device and is not larger than one transfer, and aborts in every other
  case, negative offsets and reads past the end included: it never returns fewer bytes.
\<close>

theorem disk_read_exact:
  assumes "sz \<noteq> - 1"
  shows "disk_read (Some d) whr sz =
    (if in_device d whr sz then Inr (dev_bytes d (unat whr) (unat sz)) else Inl AssertFail)"
  using assms by (simp add: disk_read_in) (simp add: disk_read_def disk_read_ret_out)

theorem disk_read_exact_witness:
  "disk_read (Some \<lparr>dev_size = 5, dev_byte = (\<lambda>i. of_nat i)\<rparr>) 2 2 = Inr [2, 3] \<and>
   disk_read (Some \<lparr>dev_size = 5, dev_byte = (\<lambda>i. of_nat i)\<rparr>) 4 2 = Inl AssertFail"
  using disk_read_exact [of 2 "\<lparr>dev_size = 5, dev_byte = (\<lambda>i. of_nat i)\<rparr>" 2]
    disk_read_exact [of 2 "\<lparr>dev_size = 5, dev_byte = (\<lambda>i. of_nat i)\<rparr>" 4]
  by (simp add: in_device_def MAX_RW_COUNT_def dev_bytes_def upt_rec)

text \<open>
  (C22) The FreeBSD build of \<^verbatim>\<open>pread_wrapper\<close>, which reads whole aligned blocks of 1024 bytes and copies the
  part that was asked for, gives the same result and the same bytes as the plain call, for every
  request of at least one byte and at most one transfer, below \<open>2^63\<close>, whose last block of 1024 bytes
  lies inside the device. A request in the last, incomplete block of a device is not covered.
\<close>

theorem freebsd_wrapper_agrees:
  assumes "freebsd_serves d sz whr"
  shows "pread_wrapper_freebsd d sz whr = Inr (pread_wrapper d sz whr)"
  using freebsd.read_agrees [of "\<lambda>d sz whr. in_device d whr sz" linux_read, OF linux.read_serves assms]
    freebsd_serves_in_device [OF assms] by (simp add: linux_read_def)

theorem freebsd_wrapper_agrees_witness:
  "pread_wrapper_freebsd \<lparr>dev_size = 4096, dev_byte = (\<lambda>i. of_nat i)\<rparr> 1500 1000 =
    Inr (pread_wrapper \<lparr>dev_size = 4096, dev_byte = (\<lambda>i. of_nat i)\<rparr> 1500 1000)"
  by (rule freebsd_wrapper_agrees) (simp add: freebsd_serves_def MAX_RW_COUNT_def)

end
