(* ===== verification/OnDisk.thy ===== *)
theory OnDisk
  imports Prelude
begin

text \<open>
  The on-disk structures of \<^verbatim>\<open>fuse/types/*.h\<close>: each struct declaration as a field list, the
  layout the C ABI gives it (natural alignment, as on x86-64), and the decoding of the
  fields the program reads from the bytes of such a struct.
\<close>

section \<open>C types and their layout\<close>

datatype ctype =
    CU8 | CU16 | CU32 | CU64
  | CArr nat ctype
  | CStruct "(string \<times> ctype) list"
  | CUnion "(string \<times> ctype) list"

definition align_up :: "nat \<Rightarrow> nat \<Rightarrow> nat" where
  "align_up n a = (n + a - 1) div a * a"

fun calign :: "ctype \<Rightarrow> nat" where
  "calign CU8 = 1"
| "calign CU16 = 2"
| "calign CU32 = 4"
| "calign CU64 = 8"
| "calign (CArr n t) = calign t"
| "calign (CStruct fs) = foldr max (map (\<lambda>f. calign (snd f)) fs) 1"
| "calign (CUnion fs) = foldr max (map (\<lambda>f. calign (snd f)) fs) 1"

fun csize :: "ctype \<Rightarrow> nat" where
  "csize CU8 = 1"
| "csize CU16 = 2"
| "csize CU32 = 4"
| "csize CU64 = 8"
| "csize (CArr n t) = n * csize t"
| "csize (CStruct fs) =
     align_up (foldl (\<lambda>off sa. align_up off (snd sa) + fst sa) 0
                 (map (\<lambda>f. (csize (snd f), calign (snd f))) fs))
              (calign (CStruct fs))"
| "csize (CUnion fs) = align_up (foldr max (map (\<lambda>f. csize (snd f)) fs) 0) (calign (CUnion fs))"

fun lay :: "nat \<Rightarrow> (string \<times> ctype) list \<Rightarrow> (string \<times> nat) list"
  and lay_at :: "nat \<Rightarrow> string \<Rightarrow> ctype \<Rightarrow> (string \<times> ctype) list \<Rightarrow> (string \<times> nat) list" where
  "lay off [] = []"
| "lay off ((n, t) # fs) = lay_at (align_up off (calign t)) n t fs"
| "lay_at off n t fs = (n, off) # lay (off + csize t) fs"

text \<open>\<^verbatim>\<open>sizeof\<close> and \<^verbatim>\<open>offsetof\<close>.\<close>

definition sizeof :: "(string \<times> ctype) list \<Rightarrow> nat" where
  "sizeof fs = csize (CStruct fs)"

definition offsetof :: "(string \<times> ctype) list \<Rightarrow> string \<Rightarrow> nat" where
  "offsetof fs name = the (map_of (lay 0 fs) name)"

section \<open>The struct declarations\<close>

text \<open>\<^verbatim>\<open>struct ext4_super_block\<close>\<close>

definition ext4_super_block_fields :: "(string \<times> ctype) list" where
  "ext4_super_block_fields =
   [(''s_inodes_count'', CU32), (''s_blocks_count_lo'', CU32), (''s_r_blocks_count_lo'', CU32),
     (''s_free_blocks_count_lo'', CU32), (''s_free_inodes_count'', CU32),
     (''s_first_data_block'', CU32), (''s_log_block_size'', CU32),
     (''s_obso_log_frag_size'', CU32), (''s_blocks_per_group'', CU32),
     (''s_obso_frags_per_group'', CU32), (''s_inodes_per_group'', CU32), (''s_mtime'', CU32),
     (''s_wtime'', CU32), (''s_mnt_count'', CU16), (''s_max_mnt_count'', CU16),
     (''s_magic'', CU16), (''s_state'', CU16), (''s_errors'', CU16),
     (''s_minor_rev_level'', CU16), (''s_lastcheck'', CU32), (''s_checkinterval'', CU32),
     (''s_creator_os'', CU32), (''s_rev_level'', CU32), (''s_def_resuid'', CU16),
     (''s_def_resgid'', CU16), (''s_first_ino'', CU32), (''s_inode_size'', CU16),
     (''s_block_group_nr'', CU16), (''s_feature_compat'', CU32), (''s_feature_incompat'', CU32),
     (''s_feature_ro_compat'', CU32), (''s_uuid'', CArr 16 CU8),
     (''s_volume_name'', CArr 16 CU8), (''s_last_mounted'', CArr 64 CU8),
     (''s_algorithm_usage_bitmap'', CU32), (''s_prealloc_blocks'', CU8),
     (''s_prealloc_dir_blocks'', CU8), (''s_reserved_gdt_blocks'', CU16),
     (''s_journal_uuid'', CArr 16 CU8), (''s_journal_inum'', CU32), (''s_journal_dev'', CU32),
     (''s_last_orphan'', CU32), (''s_hash_seed'', CArr 4 CU32), (''s_def_hash_version'', CU8),
     (''s_reserved_char_pad'', CU8), (''s_desc_size'', CU16), (''s_default_mount_opts'', CU32),
     (''s_first_meta_bg'', CU32), (''s_mkfs_time'', CU32), (''s_jnl_blocks'', CArr 17 CU32),
     (''s_blocks_count_hi'', CU32), (''s_r_blocks_count_hi'', CU32),
     (''s_free_blocks_count_hi'', CU32), (''s_min_extra_isize'', CU16),
     (''s_want_extra_isize'', CU16), (''s_flags'', CU32), (''s_raid_stride'', CU16),
     (''s_mmp_interval'', CU16), (''s_mmp_block'', CU64), (''s_raid_stripe_width'', CU32),
     (''s_log_groups_per_flex'', CU8), (''s_reserved_char_pad2'', CU8),
     (''s_reserved_pad'', CU16), (''s_kbytes_written'', CU64), (''s_reserved'', CArr 160 CU32)]"

text \<open>\<^verbatim>\<open>struct ext4_group_desc\<close>\<close>

definition ext4_group_desc_fields :: "(string \<times> ctype) list" where
  "ext4_group_desc_fields =
   [(''bg_block_bitmap_lo'', CU32), (''bg_inode_bitmap_lo'', CU32),
     (''bg_inode_table_lo'', CU32), (''bg_free_blocks_count_lo'', CU16),
     (''bg_free_inodes_count_lo'', CU16), (''bg_used_dirs_count_lo'', CU16),
     (''bg_flags'', CU16), (''bg_reserved'', CArr 2 CU32), (''bg_itable_unused_lo'', CU16),
     (''bg_checksum'', CU16), (''bg_block_bitmap_hi'', CU32), (''bg_inode_bitmap_hi'', CU32),
     (''bg_inode_table_hi'', CU32), (''bg_free_blocks_count_hi'', CU16),
     (''bg_free_inodes_count_hi'', CU16), (''bg_used_dirs_count_hi'', CU16),
     (''bg_itable_unused_hi'', CU16), (''bg_reserved2'', CArr 3 CU32)]"

text \<open>\<^verbatim>\<open>struct ext4_inode\<close>\<close>

definition ext4_inode_fields :: "(string \<times> ctype) list" where
  "ext4_inode_fields =
   [(''i_mode'', CU16), (''i_uid'', CU16), (''i_size_lo'', CU32), (''i_atime'', CU32),
     (''i_ctime'', CU32), (''i_mtime'', CU32), (''i_dtime'', CU32), (''i_gid'', CU16),
     (''i_links_count'', CU16), (''i_blocks_lo'', CU32), (''i_flags'', CU32),
    (''osd1'', CUnion [(''linux1'', CStruct [(''l_i_version'', CU32)]),
       (''hurd1'', CStruct [(''h_i_translator'', CU32)]),
       (''masix1'', CStruct [(''m_i_reserved1'', CU32)])]),
    (''i_block'', CArr 15 CU32), (''i_generation'', CU32), (''i_file_acl_lo'', CU32),
     (''i_size_high'', CU32), (''i_obso_faddr'', CU32),
    (''osd2'', CUnion [
       (''linux2'', CStruct [(''l_i_blocks_high'', CU16), (''l_i_file_acl_high'', CU16), (''l_i_uid_high'', CU16), (''l_i_gid_high'', CU16), (''l_i_reserved2'', CU32)]),
       (''hurd2'', CStruct [(''h_i_reserved1'', CU16), (''h_i_mode_high'', CU16), (''h_i_uid_high'', CU16), (''h_i_gid_high'', CU16), (''h_i_author'', CU32)]),
       (''masix2'', CStruct [(''h_i_reserved1'', CU16), (''m_i_file_acl_high'', CU16), (''m_i_reserved2'', CArr 2 CU32)])]),
    (''i_extra_isize'', CU16), (''i_pad1'', CU16), (''i_ctime_extra'', CU32),
     (''i_mtime_extra'', CU32), (''i_atime_extra'', CU32), (''i_crtime'', CU32),
     (''i_crtime_extra'', CU32), (''i_version_hi'', CU32)]"

text \<open>\<^verbatim>\<open>struct ext4_dir_entry_2\<close>\<close>

definition ext4_dir_entry_2_fields :: "(string \<times> ctype) list" where
  "ext4_dir_entry_2_fields =
   [(''inode'', CU32), (''rec_len'', CU16), (''name_len'', CU8), (''file_type'', CU8),
     (''name'', CArr 255 CU8)]"

text \<open>\<^verbatim>\<open>struct ext4_extent\<close>\<close>

definition ext4_extent_fields :: "(string \<times> ctype) list" where
  "ext4_extent_fields =
   [(''ee_block'', CU32), (''ee_len'', CU16), (''ee_start_hi'', CU16), (''ee_start_lo'', CU32)]"

text \<open>\<^verbatim>\<open>struct ext4_extent_idx\<close>\<close>

definition ext4_extent_idx_fields :: "(string \<times> ctype) list" where
  "ext4_extent_idx_fields =
   [(''ei_block'', CU32), (''ei_leaf_lo'', CU32), (''ei_leaf_hi'', CU16), (''ei_unused'', CU16)]"

text \<open>\<^verbatim>\<open>struct ext4_extent_header\<close>\<close>

definition ext4_extent_header_fields :: "(string \<times> ctype) list" where
  "ext4_extent_header_fields =
   [(''eh_magic'', CU16), (''eh_entries'', CU16), (''eh_max'', CU16), (''eh_depth'', CU16),
     (''eh_generation'', CU32)]"

section \<open>The structs as records\<close>

text \<open>
  Each record holds the fields some function of the program reads. The \<^verbatim>\<open>i_block\<close> array is
  kept as its 60 bytes, because the program reads it through three types: as block
  numbers, as an extent header with its entries, and as the characters of a short link.
\<close>

record ext4_super_block =
  s_blocks_count_lo :: u32
  s_log_block_size :: u32
  s_blocks_per_group :: u32
  s_inodes_per_group :: u32
  s_magic :: u16
  s_inode_size :: u16
  s_desc_size :: u16

record ext4_group_desc =
  bg_inode_table_lo :: u32

record ext4_inode =
  i_mode :: u16
  i_uid :: u16
  i_size_lo :: u32
  i_atime :: u32
  i_ctime :: u32
  i_mtime :: u32
  i_gid :: u16
  i_links_count :: u16
  i_blocks_lo :: u32
  i_flags :: u32
  i_block :: bytes
  i_size_high :: u32

record ext4_extent =
  ee_block :: u32
  ee_len :: u16
  ee_start_hi :: u16
  ee_start_lo :: u32

record ext4_extent_idx =
  ei_block :: u32
  ei_leaf_lo :: u32
  ei_leaf_hi :: u16

record ext4_extent_header =
  eh_magic :: u16
  eh_entries :: u16
  eh_depth :: u16

definition super_block_of :: "bytes \<Rightarrow> ext4_super_block" where
  "super_block_of bs = (let at = offsetof ext4_super_block_fields in
     \<lparr>s_blocks_count_lo = le32 bs (at ''s_blocks_count_lo''),
      s_log_block_size = le32 bs (at ''s_log_block_size''),
      s_blocks_per_group = le32 bs (at ''s_blocks_per_group''),
      s_inodes_per_group = le32 bs (at ''s_inodes_per_group''),
      s_magic = le16 bs (at ''s_magic''),
      s_inode_size = le16 bs (at ''s_inode_size''),
      s_desc_size = le16 bs (at ''s_desc_size'')\<rparr>)"

definition group_desc_of :: "bytes \<Rightarrow> ext4_group_desc" where
  "group_desc_of bs =
     \<lparr>bg_inode_table_lo = le32 bs (offsetof ext4_group_desc_fields ''bg_inode_table_lo'')\<rparr>"

definition inode_of :: "bytes \<Rightarrow> ext4_inode" where
  "inode_of bs = (let at = offsetof ext4_inode_fields in
     \<lparr>i_mode = le16 bs (at ''i_mode''),
      i_uid = le16 bs (at ''i_uid''),
      i_size_lo = le32 bs (at ''i_size_lo''),
      i_atime = le32 bs (at ''i_atime''),
      i_ctime = le32 bs (at ''i_ctime''),
      i_mtime = le32 bs (at ''i_mtime''),
      i_gid = le16 bs (at ''i_gid''),
      i_links_count = le16 bs (at ''i_links_count''),
      i_blocks_lo = le32 bs (at ''i_blocks_lo''),
      i_flags = le32 bs (at ''i_flags''),
      i_block = take 60 (drop (at ''i_block'') bs),
      i_size_high = le32 bs (at ''i_size_high'')\<rparr>)"

definition extent_of :: "bytes \<Rightarrow> nat \<Rightarrow> ext4_extent" where
  "extent_of bs i = (let at = offsetof ext4_extent_fields in
     \<lparr>ee_block = le32 bs (i + at ''ee_block''), ee_len = le16 bs (i + at ''ee_len''),
      ee_start_hi = le16 bs (i + at ''ee_start_hi''),
      ee_start_lo = le32 bs (i + at ''ee_start_lo'')\<rparr>)"

definition extent_idx_of :: "bytes \<Rightarrow> nat \<Rightarrow> ext4_extent_idx" where
  "extent_idx_of bs i = (let at = offsetof ext4_extent_idx_fields in
     \<lparr>ei_block = le32 bs (i + at ''ei_block''), ei_leaf_lo = le32 bs (i + at ''ei_leaf_lo''),
      ei_leaf_hi = le16 bs (i + at ''ei_leaf_hi'')\<rparr>)"

definition extent_header_of :: "bytes \<Rightarrow> nat \<Rightarrow> ext4_extent_header" where
  "extent_header_of bs i = (let at = offsetof ext4_extent_header_fields in
     \<lparr>eh_magic = le16 bs (i + at ''eh_magic''), eh_entries = le16 bs (i + at ''eh_entries''),
      eh_depth = le16 bs (i + at ''eh_depth'')\<rparr>)"

section \<open>The layout is the one of the ext4 format\<close>

lemmas struct_defs = ext4_super_block_fields_def ext4_group_desc_fields_def
  ext4_inode_fields_def ext4_dir_entry_2_fields_def ext4_extent_fields_def
  ext4_extent_idx_fields_def ext4_extent_header_fields_def

text \<open>
  The offsets written in the comments of \<^verbatim>\<open>struct ext4_super_block\<close> (\<^verbatim>\<open>/*10*/\<close> and so on),
  in hexadecimal, with the field each of them stands before.
\<close>

definition super_block_offset_comments :: "(string \<times> nat) list" where
  "super_block_offset_comments =
     [(''s_inodes_count'', 0x00), (''s_free_inodes_count'', 0x10), (''s_blocks_per_group'', 0x20),
      (''s_wtime'', 0x30), (''s_lastcheck'', 0x40), (''s_def_resuid'', 0x50),
      (''s_feature_incompat'', 0x60), (''s_uuid'', 0x68), (''s_volume_name'', 0x78),
      (''s_last_mounted'', 0x88), (''s_algorithm_usage_bitmap'', 0xC8),
      (''s_journal_uuid'', 0xD0), (''s_journal_inum'', 0xE0), (''s_default_mount_opts'', 0x100),
      (''s_blocks_count_hi'', 0x150)]"

lemma sizeof_structs:
  "sizeof ext4_super_block_fields = 1024" "sizeof ext4_group_desc_fields = 64"
  "sizeof ext4_inode_fields = 156" "sizeof ext4_dir_entry_2_fields = 264"
  "sizeof ext4_extent_fields = 12" "sizeof ext4_extent_idx_fields = 12"
  "sizeof ext4_extent_header_fields = 12"
  by (simp_all add: sizeof_def struct_defs align_up_def)

lemma super_block_of_eq [code]:
  "super_block_of bs =
     \<lparr>s_blocks_count_lo = le32 bs 4, s_log_block_size = le32 bs 24,
      s_blocks_per_group = le32 bs 32, s_inodes_per_group = le32 bs 40,
      s_magic = le16 bs 56, s_inode_size = le16 bs 88, s_desc_size = le16 bs 254\<rparr>"
proof -
  have "map (offsetof ext4_super_block_fields)
      [''s_blocks_count_lo'', ''s_log_block_size'', ''s_blocks_per_group'',
       ''s_inodes_per_group'', ''s_magic'', ''s_inode_size'', ''s_desc_size''] =
      [4, 24, 32, 40, 56, 88, 254]"
    by (simp add: offsetof_def struct_defs align_up_def)
  then show ?thesis by (simp add: super_block_of_def)
qed

lemma group_desc_of_eq [code]: "group_desc_of bs = \<lparr>bg_inode_table_lo = le32 bs 8\<rparr>"
proof -
  have "offsetof ext4_group_desc_fields ''bg_inode_table_lo'' = 8"
    by (simp add: offsetof_def struct_defs align_up_def)
  then show ?thesis by (simp add: group_desc_of_def)
qed

lemma inode_of_eq [code]:
  "inode_of bs =
     \<lparr>i_mode = le16 bs 0, i_uid = le16 bs 2, i_size_lo = le32 bs 4, i_atime = le32 bs 8,
      i_ctime = le32 bs 12, i_mtime = le32 bs 16, i_gid = le16 bs 24, i_links_count = le16 bs 26,
      i_blocks_lo = le32 bs 28, i_flags = le32 bs 32, i_block = take 60 (drop 40 bs),
      i_size_high = le32 bs 108\<rparr>"
proof -
  have "map (offsetof ext4_inode_fields)
      [''i_mode'', ''i_uid'', ''i_size_lo'', ''i_atime'', ''i_ctime'', ''i_mtime'', ''i_gid'',
       ''i_links_count'', ''i_blocks_lo'', ''i_flags'', ''i_block'', ''i_size_high''] =
      [0, 2, 4, 8, 12, 16, 24, 26, 28, 32, 40, 108]"
    by (simp add: offsetof_def struct_defs align_up_def)
  then show ?thesis by (simp add: inode_of_def)
qed

lemma extent_of_eq [code]:
  "extent_of bs i = \<lparr>ee_block = le32 bs i, ee_len = le16 bs (i + 4),
     ee_start_hi = le16 bs (i + 6), ee_start_lo = le32 bs (i + 8)\<rparr>"
proof -
  have "map (offsetof ext4_extent_fields)
      [''ee_block'', ''ee_len'', ''ee_start_hi'', ''ee_start_lo''] = [0, 4, 6, 8]"
    by (simp add: offsetof_def struct_defs align_up_def)
  then show ?thesis by (simp add: extent_of_def)
qed

lemma extent_idx_of_eq [code]:
  "extent_idx_of bs i = \<lparr>ei_block = le32 bs i, ei_leaf_lo = le32 bs (i + 4),
     ei_leaf_hi = le16 bs (i + 8)\<rparr>"
proof -
  have "map (offsetof ext4_extent_idx_fields) [''ei_block'', ''ei_leaf_lo'', ''ei_leaf_hi''] =
      [0, 4, 8]"
    by (simp add: offsetof_def struct_defs align_up_def)
  then show ?thesis by (simp add: extent_idx_of_def)
qed

lemma extent_header_of_eq [code]:
  "extent_header_of bs i = \<lparr>eh_magic = le16 bs i, eh_entries = le16 bs (i + 2),
     eh_depth = le16 bs (i + 6)\<rparr>"
proof -
  have "map (offsetof ext4_extent_header_fields) [''eh_magic'', ''eh_entries'', ''eh_depth''] =
      [0, 2, 6]"
    by (simp add: offsetof_def struct_defs align_up_def)
  then show ?thesis by (simp add: extent_header_of_def)
qed

lemma align_up_cases:
  "0 < a \<Longrightarrow> align_up n a = (if n mod a = 0 then n else n div a * a + a)"
proof -
  assume a: "0 < a"
  obtain q r where n: "n = q * a + r" "r < a" using a
    by (metis div_mult_mod_eq mod_less_divisor)
  show ?thesis
  proof (cases "r = 0")
    case True
    have "(q * a + a - 1) div a = q" using a by (intro div_nat_eqI) (simp_all add: mult.commute)
    with True n a show ?thesis by (simp add: align_up_def)
  next
    case False
    have "(q * a + r + a - 1) div a = Suc q"
      using a n(2) False by (intro div_nat_eqI) (simp_all add: mult.commute)
    with False n a show ?thesis by (simp add: align_up_def)
  qed
qed

lemma align_up_ge: "0 < a \<Longrightarrow> n \<le> align_up n a"
proof -
  assume a: "0 < a"
  have "n div a * a + n mod a = n" "n mod a < a" using a by simp_all
  then have "n \<le> n div a * a + a" by linarith
  then show ?thesis using align_up_cases [OF a, of n] by simp
qed


section \<open>Properties of the layout\<close>

text \<open>
  With the alignment rules of C the structures have the sizes of the ext4 format, no field is
  preceded by padding that the format does not have, and every field of the super block that
  carries an offset comment lies at that offset.
\<close>

theorem struct_layout:
  "sizeof ext4_super_block_fields = 1024 \<and> sizeof ext4_group_desc_fields = 64 \<and>
   sizeof ext4_extent_fields = 12 \<and> sizeof ext4_extent_idx_fields = 12 \<and> sizeof ext4_extent_header_fields = 12 \<and>
   map (offsetof ext4_super_block_fields) (map fst super_block_offset_comments) = map snd super_block_offset_comments \<and>
   offsetof ext4_inode_fields ''i_block'' = 40 \<and> offsetof ext4_inode_fields ''i_size_high'' = 108"
  using sizeof_structs by (simp add: super_block_offset_comments_def offsetof_def struct_defs align_up_def)

end
