(* ===== verification/Super.thy ===== *)
theory Super
  imports Disk OnDisk
begin

text \<open>
  Model of \<^verbatim>\<open>fuse/super.c\<close>, \<^verbatim>\<open>fuse/super.h\<close> and the alignment macro of \<^verbatim>\<open>fuse/common.h\<close>: the
  superblock, the block-size arithmetic every other component uses, the group descriptor
  table and the location of a group's inode table.
\<close>

section \<open>Block-size arithmetic\<close>

definition BOOT_SECTOR_SIZE :: u64 where
  "BOOT_SECTOR_SIZE = 0x400"

definition GROUP_DESC_MIN_SIZE :: u32 where
  "GROUP_DESC_MIN_SIZE = 0x20"

text \<open>
  The shift is done on 64 bits and the result returned as \<^verbatim>\<open>uint32_t\<close>. A shift by 64 or
  more is undefined in C; the model gives 0 there, as it does for 32 to 63.
\<close>

definition super_block_size :: "ext4_super_block \<Rightarrow> u32" where
  "super_block_size sb = ucast (push_bit (unat (s_log_block_size sb + 10)) (1 :: u64))"

definition BLOCKS2BYTES :: "ext4_super_block \<Rightarrow> u64 \<Rightarrow> u64" where
  "BLOCKS2BYTES sb blks = blks * ucast (super_block_size sb)"

definition BYTES2BLOCKS :: "ext4_super_block \<Rightarrow> u64 \<Rightarrow> u64 res" where
  "BYTES2BLOCKS sb b =
     rbind (udiv b (ucast (super_block_size sb))) (\<lambda>q.
     rbind (umod b (ucast (super_block_size sb))) (\<lambda>r.
     Inr (q + (if r \<noteq> 0 then 1 else 0))))"

text \<open>
  \<^verbatim>\<open>ALIGN_TO\<close> with a 64-bit first argument and the 32-bit \<^verbatim>\<open>BLOCK_SIZE\<close>: the mask is computed
  on 32 bits and widened afterwards.
\<close>

definition ALIGN_TO :: "u64 \<Rightarrow> u32 \<Rightarrow> u64 res" where
  "ALIGN_TO n align =
     rbind (umod n (ucast align)) (\<lambda>r.
     Inr (if r \<noteq> 0 then (n AND ucast (NOT (align - 1))) + ucast align else n))"

definition ALIGN_TO_BLOCKSIZE :: "ext4_super_block \<Rightarrow> u64 \<Rightarrow> u64 res" where
  "ALIGN_TO_BLOCKSIZE sb n = ALIGN_TO n (super_block_size sb)"

section \<open>super.c\<close>

record super =
  super_block :: ext4_super_block
  gdesc_table :: "ext4_group_desc list"

definition super_block_group_size :: "ext4_super_block \<Rightarrow> u64" where
  "super_block_group_size sb = BLOCKS2BYTES sb (ucast (s_blocks_per_group sb))"

definition super_n_block_groups :: "ext4_super_block \<Rightarrow> u32 res" where
  "super_n_block_groups sb =
     rbind (udiv (s_blocks_count_lo sb + s_blocks_per_group sb - 1) (s_blocks_per_group sb))
       (\<lambda>n. Inr (if n \<noteq> 0 then n else 1))"

definition super_group_desc_size :: "ext4_super_block \<Rightarrow> u32" where
  "super_group_desc_size sb =
     (if s_desc_size sb = 0 then GROUP_DESC_MIN_SIZE
      else of_nat (sizeof ext4_group_desc_fields))"

definition super_inodes_per_group :: "ext4_super_block \<Rightarrow> u32" where
  "super_inodes_per_group sb = s_inodes_per_group sb"

definition super_inode_size :: "ext4_super_block \<Rightarrow> u32" where
  "super_inode_size sb = ucast (s_inode_size sb)"

text \<open>
  \<^verbatim>\<open>super_fill\<close> reads the superblock and logs derived values; the arguments of the log calls
  are evaluated, so a zero \<^verbatim>\<open>s_blocks_per_group\<close> traps here.
\<close>

definition super_fill :: "disk \<Rightarrow> ext4_super_block res" where
  "super_fill dk =
     rbind (disk_read dk BOOT_SECTOR_SIZE (of_nat (sizeof ext4_super_block_fields))) (\<lambda>bs.
     let sb = super_block_of bs in
     rbind (super_n_block_groups sb) (\<lambda>_. Inr sb))"

definition super_group_inode_table_offset :: "super \<Rightarrow> u32 \<Rightarrow> u64 res" where
  "super_group_inode_table_offset st inode_num =
     rbind (udiv inode_num (super_inodes_per_group (super_block st))) (\<lambda>n_group.
     rbind (super_n_block_groups (super_block st)) (\<lambda>n.
     ASSERT (n_group < n)
       (if unat n_group < length (gdesc_table st)
        then Inr (BLOCKS2BYTES (super_block st)
                    (ucast (bg_inode_table_lo (gdesc_table st ! unat n_group))))
        else Inl OutOfBounds)))"

text \<open>
  One turn of the loop of \<^verbatim>\<open>super_group_fill\<close>. \<open>heap i\<close> is what \<^verbatim>\<open>malloc\<close> left in entry \<open>i\<close>:
  a small descriptor overwrites its first 32 bytes only.
\<close>

definition gdesc_read :: "disk \<Rightarrow> ext4_super_block \<Rightarrow> (nat \<Rightarrow> bytes) \<Rightarrow> nat \<Rightarrow> ext4_group_desc res" where
  "gdesc_read dk sb heap i =
     rbind (ALIGN_TO_BLOCKSIZE sb (BOOT_SECTOR_SIZE + of_nat (sizeof ext4_super_block_fields)))
       (\<lambda>bg_off.
     rbind (disk_read dk (bg_off + ucast (of_nat i * super_group_desc_size sb))
              (ucast (super_group_desc_size sb)))
       (\<lambda>bs. Inr (group_desc_of (bs @ drop (length bs) (heap i)))))"

fun gdesc_fill :: "disk \<Rightarrow> ext4_super_block \<Rightarrow> (nat \<Rightarrow> bytes) \<Rightarrow> nat \<Rightarrow> nat \<Rightarrow> ext4_group_desc list res"
  where
  "gdesc_fill dk sb heap 0 i = Inr []"
| "gdesc_fill dk sb heap (Suc n) i =
     rbind (gdesc_read dk sb heap i) (\<lambda>g.
     rbind (gdesc_fill dk sb heap n (Suc i)) (\<lambda>gs. Inr (g # gs)))"

definition super_group_fill :: "disk \<Rightarrow> ext4_super_block \<Rightarrow> (nat \<Rightarrow> bytes) \<Rightarrow> super res" where
  "super_group_fill dk sb heap =
     rbind (super_n_block_groups sb) (\<lambda>n.
     rbind (gdesc_fill dk sb heap (unat n) 0) (\<lambda>gs.
     Inr \<lparr>super_block = sb, gdesc_table = gs\<rparr>))"

section \<open>Well-formed superblocks\<close>

text \<open>
  The block sizes of the format, 1 KiB to 64 KiB, and group sizes that are not zero.
\<close>

definition wf_super :: "ext4_super_block \<Rightarrow> bool" where
  "wf_super sb \<longleftrightarrow> s_log_block_size sb \<le> 6 \<and> s_blocks_per_group sb \<noteq> 0 \<and> s_inodes_per_group sb \<noteq> 0"

text \<open>The block size as a number.\<close>

definition bsize :: "ext4_super_block \<Rightarrow> nat" where
  "bsize sb = unat (super_block_size sb)"

text \<open>Where the group descriptors start: the block after the one with the superblock.\<close>

definition gdt_start :: "ext4_super_block \<Rightarrow> nat" where
  "gdt_start sb = align_up 2048 (bsize sb)"

section \<open>Properties of the arithmetic\<close>

lemma super_block_size_eq:
  assumes "wf_super sb"
  shows "bsize sb = 1024 * 2 ^ unat (s_log_block_size sb)"
proof -
  let ?k = "unat (s_log_block_size sb)"
  have k: "?k \<le> 6" using assms by (simp add: wf_super_def word_le_nat_alt)
  then have sum: "unat (s_log_block_size sb + 10) = ?k + 10"
    by (subst unat_add_nowrap) simp_all
  have lt: "(2 :: nat) ^ (?k + 10) < 2 ^ 32"
    using k by (intro power_strict_increasing) simp_all
  have "unat (push_bit (?k + 10) (1 :: u64)) = 2 ^ (?k + 10)"
    using k by (simp add: unat_2p)
  then show ?thesis
    using lt by (simp add: bsize_def super_block_size_def sum unat_ucast_down power_add)
qed

lemma bsize_bounds: "wf_super sb \<Longrightarrow> 1024 \<le> bsize sb \<and> bsize sb \<le> 65536"
proof -
  assume wf: "wf_super sb"
  then have "unat (s_log_block_size sb) \<le> 6" by (simp add: wf_super_def word_le_nat_alt)
  then have "(2 :: nat) ^ unat (s_log_block_size sb) \<le> 2 ^ 6"
    by (intro power_increasing) simp_all
  moreover have "1 \<le> (2 :: nat) ^ unat (s_log_block_size sb)" by simp
  ultimately show ?thesis unfolding super_block_size_eq [OF wf] by simp
qed

lemma bsize_pos: "wf_super sb \<Longrightarrow> 0 < bsize sb"
  using bsize_bounds by fastforce

lemma block_size_nonzero: "wf_super sb \<Longrightarrow> super_block_size sb \<noteq> 0"
  using bsize_pos [of sb] by (auto simp: bsize_def)

lemma mask_high_bits:
  "m \<le> 32 \<Longrightarrow> n AND ucast (NOT (2 ^ m - 1 :: u32)) = push_bit m (drop_bit m (take_bit 32 n))" for n :: u64
  by (rule bit_eqI) (auto simp: bit_simps simp flip: mask_eq_exp_minus_1)

lemma unat_mask_high_bits:
  "m \<le> 32 \<Longrightarrow> unat (n AND ucast (NOT (2 ^ m - 1 :: u32))) = unat n mod 4294967296 div 2 ^ m * 2 ^ m" for n :: u64
proof -
  assume m: "m \<le> 32"
  have "unat (drop_bit m (take_bit 32 n)) = unat n mod 4294967296 div 2 ^ m"
    by (simp only: unsigned_drop_bit_eq unsigned_take_bit_eq) (simp add: drop_bit_eq_div take_bit_eq_mod)
  moreover have "unat n mod 4294967296 div 2 ^ m * 2 ^ m < 2 ^ 64"
    by (rule order_le_less_trans [OF div_times_less_eq_dividend]) (rule order_less_trans [OF mod_less_divisor], simp_all)
  ultimately show ?thesis unfolding mask_high_bits [OF m]
    by (simp only: unsigned_push_bit_eq) (simp add: push_bit_eq_mult take_bit_nat_eq_self_iff)
qed

lemma block_size_pow2:
  "wf_super sb \<Longrightarrow> \<exists>m. m \<le> 16 \<and> super_block_size sb = 2 ^ m \<and> bsize sb = 2 ^ m"
proof -
  assume wf: "wf_super sb"
  let ?m = "unat (s_log_block_size sb) + 10"
  have "?m \<le> 16" using wf by (simp add: wf_super_def word_le_nat_alt)
  moreover have eq: "bsize sb = 2 ^ ?m" by (simp add: super_block_size_eq [OF wf] power_add)
  moreover have "super_block_size sb = 2 ^ ?m"
    using calculation by (simp add: word_unat_eq_iff unat_2p bsize_def)
  ultimately show ?thesis by blast
qed

lemma ALIGN_TO_BLOCKSIZE_eq:
  assumes "wf_super sb"
  shows "\<exists>v. ALIGN_TO_BLOCKSIZE sb n = Inr v \<and>
     unat v = (if unat n mod bsize sb = 0 then unat n
               else unat n mod 4294967296 div bsize sb * bsize sb + bsize sb)"
proof -
  obtain m where m: "m \<le> 16" "super_block_size sb = 2 ^ m" "bsize sb = 2 ^ m"
    using block_size_pow2 [OF assms] by blast
  let ?v = "n AND ucast (NOT (2 ^ m - 1 :: u32))"
  have v: "unat ?v = unat n mod 4294967296 div 2 ^ m * 2 ^ m"
    using m(1) by (intro unat_mask_high_bits) simp
  have bs: "unat (ucast (2 ^ m :: u32) :: u64) = 2 ^ m" using m(1) by (simp add: unat_2p)
  have "unat n mod 4294967296 div 2 ^ m * 2 ^ m \<le> unat n mod 4294967296"
    by (rule div_times_less_eq_dividend)
  moreover have "unat n mod 4294967296 < 4294967296" by simp
  moreover have "(2 :: nat) ^ m \<le> 2 ^ 16" using m(1) by (intro power_increasing) simp_all
  ultimately have "unat n mod 4294967296 div 2 ^ m * 2 ^ m + 2 ^ m < 2 ^ LENGTH(64)" by (simp, linarith)
  then have sum: "unat (?v + ucast (2 ^ m :: u32)) = unat n mod 4294967296 div 2 ^ m * 2 ^ m + 2 ^ m"
    by (subst unat_add_nowrap) (simp_all only: v bs)
  have zero: "n mod ucast (2 ^ m :: u32) = 0 \<longleftrightarrow> unat n mod 2 ^ m = 0"
    by (simp only: word_unat_eq_iff unat_mod bs unat_0)
  have nz: "(ucast (2 ^ m :: u32) :: u64) \<noteq> 0" using m(1) by (simp add: word_unat_eq_iff unat_2p)
  show ?thesis
    using sum by (simp add: ALIGN_TO_BLOCKSIZE_def ALIGN_TO_def m umod_nonzero [OF nz] zero)
qed
lemma unat_BLOCKS2BYTES:
  "unat b * bsize sb < 2 ^ 64 \<Longrightarrow> unat (BLOCKS2BYTES sb b) = unat b * bsize sb"
  by (simp add: BLOCKS2BYTES_def bsize_def unat_mult_nowrap)

lemma unat_BLOCKS2BYTES_u32:
  assumes "wf_super sb"
  shows "unat (BLOCKS2BYTES sb (ucast (b :: u32))) = unat b * bsize sb"
proof -
  have "unat b * bsize sb \<le> 4294967296 * 65536"
    using unat_u32 [of b] bsize_bounds [OF assms] by (intro mult_le_mono) simp_all
  then show ?thesis by (subst unat_BLOCKS2BYTES) simp_all
qed

lemma unat_udiv_bsize:
  "wf_super sb \<Longrightarrow> udiv n (ucast (super_block_size sb)) = Inr (n div ucast (super_block_size sb)) \<and>
     unat (n div ucast (super_block_size sb)) = unat n div bsize sb" for n :: u64
  by (simp add: udiv_nonzero block_size_nonzero unat_div bsize_def)

lemma unat_umod_bsize:
  "wf_super sb \<Longrightarrow> umod n (ucast (super_block_size sb)) = Inr (n mod ucast (super_block_size sb)) \<and>
     unat (n mod ucast (super_block_size sb)) = unat n mod bsize sb" for n :: u64
  by (simp add: umod_nonzero block_size_nonzero unat_mod bsize_def)

lemma BYTES2BLOCKS_eq:
  assumes "wf_super sb"
  shows "\<exists>v. BYTES2BLOCKS sb b = Inr v \<and> unat v * bsize sb = align_up (unat b) (bsize sb)"
proof -
  let ?q = "b div ucast (super_block_size sb)" and ?r = "b mod ucast (super_block_size sb)"
  have q: "unat ?q = unat b div bsize sb" and r: "unat ?r = unat b mod bsize sb"
    using unat_udiv_bsize [OF assms] unat_umod_bsize [OF assms] by simp_all
  have "unat b div bsize sb \<le> unat b div 1024"
    using bsize_bounds [OF assms] by (intro div_le_mono2) simp_all
  also have "\<dots> < 18014398509481984" using unat_u64 [of b] by (intro less_mult_imp_div_less) simp
  finally have "unat (?q + 1) = unat b div bsize sb + 1"
    using q by (subst unat_add_nowrap) simp_all
  moreover have "?r = 0 \<longleftrightarrow> unat b mod bsize sb = 0"
    using r by (metis unat_eq_zero)
  ultimately show ?thesis using q div_mult_mod_eq [of "unat b" "bsize sb"]
    by (auto simp: BYTES2BLOCKS_def unat_udiv_bsize assms unat_umod_bsize align_up_cases bsize_pos)
qed

lemma n_block_groups:
  "wf_super sb \<Longrightarrow> \<exists>n. super_n_block_groups sb = Inr n \<and> n \<noteq> 0"
  by (simp add: super_n_block_groups_def udiv_def wf_super_def)

lemma gdt_offset:
  "wf_super sb \<Longrightarrow> \<exists>v. ALIGN_TO_BLOCKSIZE sb (BOOT_SECTOR_SIZE + of_nat (sizeof ext4_super_block_fields)) =
     Inr v \<and> unat v = gdt_start sb"
  using ALIGN_TO_BLOCKSIZE_eq [of sb 2048] bsize_pos [of sb]
  by (auto simp: BOOT_SECTOR_SIZE_def sizeof_structs gdt_start_def align_up_cases)

lemma desc_size: "unat (super_group_desc_size sb) = (if s_desc_size sb = 0 then 32 else 64)"
  by (simp add: super_group_desc_size_def GROUP_DESC_MIN_SIZE_def sizeof_structs)

lemma gdesc_read_in:
  assumes wf: "wf_super sb"
    and i: "i * unat (super_group_desc_size sb) < 4294967296"
    and dev: "gdt_start sb + Suc i * unat (super_group_desc_size sb) \<le> dev_size d"
  shows "gdesc_read (Some d) sb heap i = Inr \<lparr>bg_inode_table_lo =
     le32 (dev_bytes d (gdt_start sb + i * unat (super_group_desc_size sb) + 8) 4) 0\<rparr>"
proof -
  let ?ds = "unat (super_group_desc_size sb)"
  obtain v where v: "ALIGN_TO_BLOCKSIZE sb (BOOT_SECTOR_SIZE + of_nat (sizeof ext4_super_block_fields)) =
     Inr v" "unat v = gdt_start sb" using gdt_offset [OF wf] by blast
  have ds: "12 \<le> ?ds" "?ds \<le> 64" by (simp_all add: desc_size)
  have start: "gdt_start sb \<le> 2048 + 65536"
  proof -
    have "2048 div bsize sb * bsize sb \<le> 2048" by (rule div_times_less_eq_dividend)
    with bsize_bounds [OF wf] have "2048 div bsize sb * bsize sb + bsize sb \<le> 2048 + 65536"
      by linarith
    then show ?thesis by (simp add: gdt_start_def align_up_cases bsize_pos [OF wf])
  qed
  have "i * 1 \<le> i * ?ds" using ds by (intro mult_le_mono2) simp
  with i have "i < 4294967296" by linarith
  then have "unat (of_nat i :: u32) = i" by (simp add: unat_of_nat)
  then have "unat (of_nat i * super_group_desc_size sb) = i * ?ds"
    using i by (subst unat_mult_nowrap) simp_all
  then have off: "unat (v + ucast (of_nat i * super_group_desc_size sb)) = gdt_start sb + i * ?ds"
    using i start v by (subst unat_add_nowrap) simp_all
  have "in_device d (v + ucast (of_nat i * super_group_desc_size sb)) (ucast (super_group_desc_size sb))"
    using off start i dev ds by (simp add: in_device_def MAX_RW_COUNT_def algebra_simps)
  then show ?thesis using ds
    by (simp add: gdesc_read_def v disk_read_in off group_desc_of_eq le32_append
        le32_dev_bytes [of 8 ?ds])
qed

lemma gdesc_fill_in:
  assumes wf: "wf_super sb"
    and i: "(i + n) * unat (super_group_desc_size sb) < 4294967296"
    and dev: "gdt_start sb + (i + n) * unat (super_group_desc_size sb) \<le> dev_size d"
  shows "gdesc_fill (Some d) sb heap n i = Inr (map (\<lambda>k. \<lparr>bg_inode_table_lo =
     le32 (dev_bytes d (gdt_start sb + k * unat (super_group_desc_size sb) + 8) 4) 0\<rparr>) [i ..< i + n])"
  using i dev
proof (induction n arbitrary: i)
  case 0
  then show ?case by simp
next
  case (Suc n)
  have "gdesc_read (Some d) sb heap i = Inr \<lparr>bg_inode_table_lo =
     le32 (dev_bytes d (gdt_start sb + i * unat (super_group_desc_size sb) + 8) 4) 0\<rparr>"
    using Suc.prems by (intro gdesc_read_in [OF wf]) (simp_all add: algebra_simps)
  with Suc.IH [of "Suc i"] Suc.prems show ?case
    by (simp add: upt_conv_Cons del: upt_Suc)
qed
section \<open>Group descriptors\<close>

lemma super_group_fill_in:
  assumes wf: "wf_super sb" and n: "super_n_block_groups sb = Inr n"
    and i: "unat n * unat (super_group_desc_size sb) < 4294967296"
    and dev: "gdt_start sb + unat n * unat (super_group_desc_size sb) \<le> dev_size d"
  shows "super_group_fill (Some d) sb heap = Inr \<lparr>super_block = sb,
    gdesc_table = map (\<lambda>k. \<lparr>bg_inode_table_lo =
      le32 (dev_bytes d (gdt_start sb + k * unat (super_group_desc_size sb) + 8) 4) 0\<rparr>) [0 ..< unat n]\<rparr>"
  using gdesc_fill_in [OF wf, of 0 "unat n" d heap] n i dev by (simp add: super_group_fill_def)

lemma super_group_inode_table_offset_in:
  assumes wf: "wf_super (super_block st)" and n: "super_n_block_groups (super_block st) = Inr n"
    and len: "length (gdesc_table st) = unat n"
    and grp: "unat ino div unat (s_inodes_per_group (super_block st)) < unat n"
  shows "\<exists>off. super_group_inode_table_offset st ino = Inr off \<and>
    unat off = unat (bg_inode_table_lo
      (gdesc_table st ! (unat ino div unat (s_inodes_per_group (super_block st))))) *
      bsize (super_block st)"
proof -
  have "s_inodes_per_group (super_block st) \<noteq> 0" using wf by (simp add: wf_super_def)
  with n len grp show ?thesis
    by (simp add: super_group_inode_table_offset_def udiv_nonzero super_inodes_per_group_def
        word_less_nat_alt unat_div unat_BLOCKS2BYTES_u32 [OF wf])
qed

end
