(* ===== verification/Extents.thy ===== *)
theory Extents
  imports Super
begin

text \<open>
  Model of \<^verbatim>\<open>fuse/extents.c\<close>: the search of a block's extents, the walk down the extent tree
  of an inode, and what they return for a well-formed tree on the disk.
\<close>

section \<open>extents.c\<close>

definition EXT4_EXT_MAGIC :: u16 where
  "EXT4_EXT_MAGIC = 0xf30a"

text \<open>
  The loop of \<^verbatim>\<open>extent_get_block_from_ees\<close> over the array \<open>ee\<close>, from entry \<open>i\<close> with \<open>n\<close>
  entries left: the entry at which the loop breaks, if it does.
\<close>

fun ees_scan :: "bytes \<Rightarrow> u32 \<Rightarrow> nat \<Rightarrow> nat \<Rightarrow> ext4_extent option res" where
  "ees_scan ee lblock 0 i = Inr None"
| "ees_scan ee lblock (Suc n) i =
     rbind (rd 12 extent_of ee (12 * i)) (\<lambda>e.
     ASSERT (ee_start_hi e = 0)
       (if ee_block e + ucast (ee_len e) > lblock then Inr (Some e)
        else ees_scan ee lblock n (Suc i)))"

text \<open>The physical block, and the value stored through \<^verbatim>\<open>len\<close> when one is stored.\<close>

definition extent_get_block_from_ees :: "bytes \<Rightarrow> u32 \<Rightarrow> u32 \<Rightarrow> (u64 \<times> u32 option) res" where
  "extent_get_block_from_ees ee n_ee lblock =
     rbind (ees_scan ee lblock (unat n_ee) 0) (\<lambda>r.
     case r of
       None \<Rightarrow> Inr (0, None)
     | Some e \<Rightarrow>
         let block_ext_offset = lblock - ee_block e in
         Inr (ucast (ee_start_lo e + block_ext_offset),
              Some (ee_block e + ucast (ee_len e) - lblock)))"

definition extent_get_extents_in_block :: "disk \<Rightarrow> ext4_super_block \<Rightarrow> u32 \<Rightarrow> bytes res" where
  "extent_get_extents_in_block dk sb block =
     rbind (disk_read dk (BLOCKS2BYTES sb (ucast block))
              (of_nat (sizeof ext4_extent_header_fields))) (\<lambda>h.
     let eh = extent_header_of h 0;
         extents_len = ucast (ucast (eh_entries eh) * of_nat (sizeof ext4_extent_fields)
                              + of_nat (sizeof ext4_extent_header_fields) :: u64) :: u32
     in disk_read dk (BLOCKS2BYTES sb (ucast block)) (ucast extents_len))"

text \<open>The loop over the index entries of an inner block; \<open>cur\<close> is \<^verbatim>\<open>recurse_ei\<close>.\<close>

fun idx_scan :: "bytes \<Rightarrow> u32 \<Rightarrow> nat \<Rightarrow> nat \<Rightarrow> ext4_extent_idx option \<Rightarrow> ext4_extent_idx option res" where
  "idx_scan ei lblock 0 i cur = Inr cur"
| "idx_scan ei lblock (Suc n) i cur =
     rbind (rd 12 extent_idx_of ei (12 * i)) (\<lambda>e.
     ASSERT (ei_leaf_hi e = 0)
       (if ei_block e > lblock then Inr cur
        else idx_scan ei lblock n (Suc i) (Some e)))"

text \<open>
  \<^verbatim>\<open>extent_get_pblock\<close>. The recursion follows block numbers read from the disk, which may
  form a cycle, so the model takes fuel; a tree of height \<open>h\<close> needs \<open>h + 1\<close>.
\<close>

fun extent_get_pblock ::
    "nat \<Rightarrow> disk \<Rightarrow> ext4_super_block \<Rightarrow> bytes \<Rightarrow> u32 \<Rightarrow> (u64 \<times> u32 option) res" where
  "extent_get_pblock 0 dk sb extents lblock = Inl NoReturn"
| "extent_get_pblock (Suc fuel) dk sb extents lblock =
     rbind (rd 12 extent_header_of extents 0) (\<lambda>eh.
     ASSERT (eh_magic eh = EXT4_EXT_MAGIC)
       (if eh_depth eh = 0
        then extent_get_block_from_ees (drop 12 extents) (ucast (eh_entries eh)) lblock
        else
          rbind (idx_scan (drop 12 extents) lblock (unat (eh_entries eh)) 0 None) (\<lambda>recurse_ei.
          case recurse_ei of
            None \<Rightarrow> Inl AssertFail
          | Some e \<Rightarrow>
              rbind (extent_get_extents_in_block dk sb (ei_leaf_lo e)) (\<lambda>leaf_extents.
              extent_get_pblock fuel dk sb leaf_extents lblock))))"

section \<open>Well-formed extent trees\<close>

text \<open>The logical blocks an extent maps, without wrap-around.\<close>

definition ee_end :: "ext4_extent \<Rightarrow> nat" where
  "ee_end e = unat (ee_block e) + unat (ee_len e)"

definition covers :: "ext4_extent \<Rightarrow> u32 \<Rightarrow> bool" where
  "covers e l \<longleftrightarrow> unat (ee_block e) \<le> unat l \<and> unat l < ee_end e"

text \<open>
  The extents of a file: sorted, not overlapping, inside the 32-bit block space, with
  32-bit physical blocks.
\<close>

definition wf_extents :: "ext4_extent list \<Rightarrow> bool" where
  "wf_extents es \<longleftrightarrow>
     sorted_wrt (\<lambda>a b. ee_end a \<le> unat (ee_block b)) es \<and>
     (\<forall>e \<in> set es. ee_start_hi e = 0 \<and> ee_end e < 4294967296)"

definition extents_at :: "bytes \<Rightarrow> nat \<Rightarrow> ext4_extent list" where
  "extents_at ee n = map (\<lambda>k. extent_of ee (12 * k)) [0 ..< n]"

definition idxs_at :: "bytes \<Rightarrow> nat \<Rightarrow> ext4_extent_idx list" where
  "idxs_at ei n = map (\<lambda>k. extent_idx_of ei (12 * k)) [0 ..< n]"

text \<open>
  A node of a tree in a block of the device: the bytes from the start of the block, the header
  and as many entries of 12 bytes as it counts.
\<close>

definition node_entries :: "device \<Rightarrow> ext4_super_block \<Rightarrow> u32 \<Rightarrow> nat" where
  "node_entries d sb block = unat (eh_entries (extent_header_of (dev_bytes d (unat block * bsize sb) 12) 0))"

definition node_bytes :: "device \<Rightarrow> ext4_super_block \<Rightarrow> u32 \<Rightarrow> bytes" where
  "node_bytes d sb block = dev_bytes d (unat block * bsize sb) (12 + 12 * node_entries d sb block)"

definition node_on_disk :: "device \<Rightarrow> ext4_super_block \<Rightarrow> u32 \<Rightarrow> bool" where
  "node_on_disk d sb block \<longleftrightarrow> wf_super sb \<and>
     unat block * bsize sb + 12 + 12 * node_entries d sb block \<le> dev_size d"

text \<open>
  \<open>extent_tree dk sb b h es\<close>: the buffer \<open>b\<close> holds the root of an extent tree of height \<open>h\<close>
  whose leaves list the extents \<open>es\<close> in order. The child of an index entry is the node in the block
  of the device that the entry names.
\<close>

inductive extent_tree ::
    "disk \<Rightarrow> ext4_super_block \<Rightarrow> bytes \<Rightarrow> nat \<Rightarrow> ext4_extent list \<Rightarrow> bool" for dk sb where
  leaf: "extent_tree dk sb b 0 (extents_at (drop 12 b) n)"
    if "eh_magic (extent_header_of b 0) = EXT4_EXT_MAGIC"
      and "eh_depth (extent_header_of b 0) = 0"
      and "unat (eh_entries (extent_header_of b 0)) = n"
      and "12 + 12 * n \<le> length b"
| node: "extent_tree dk sb b (Suc h) (concat ess)"
    if "eh_magic (extent_header_of b 0) = EXT4_EXT_MAGIC"
      and "eh_depth (extent_header_of b 0) \<noteq> 0"
      and "unat (eh_entries (extent_header_of b 0)) = length ess" and "ess \<noteq> []" and "[] \<notin> set ess"
      and "12 + 12 * length ess \<le> length b"
      and "ids = idxs_at (drop 12 b) (length ess)"
      and "\<forall>e \<in> set ids. ei_leaf_hi e = 0"
      and "sorted_wrt (\<lambda>a b. ei_block a < ei_block b) ids"
      and "dk = Some d"
      and "\<forall>i < length ess. node_on_disk d sb (ei_leaf_lo (ids ! i)) \<and>
             extent_tree dk sb (node_bytes d sb (ei_leaf_lo (ids ! i))) h (ess ! i)"
      and "\<forall>i < length ess. \<forall>e \<in> set (ess ! i). unat (ei_block (ids ! i)) \<le> unat (ee_block e)"
      and "\<forall>i. Suc i < length ess \<longrightarrow>
             (\<forall>e \<in> set (ess ! i). ee_end e \<le> unat (ei_block (ids ! Suc i)))"

inductive_cases extent_tree_0E: "extent_tree dk sb b 0 es"

text \<open>The answer for a block of extent \<open>e\<close>, and the first extent that starts after a block.\<close>

definition found :: "ext4_extent \<Rightarrow> u32 \<Rightarrow> u64 \<times> u32 option" where
  "found e l = (ucast (ee_start_lo e + (l - ee_block e)), Some (ee_block e + ucast (ee_len e) - l))"

definition next_extent :: "ext4_extent list \<Rightarrow> ext4_extent \<Rightarrow> u32 \<Rightarrow> bool" where
  "next_extent es e l \<longleftrightarrow> e \<in> set es \<and> unat l < unat (ee_block e) \<and> 0 < unat (ee_len e) \<and>
     (\<forall>e' \<in> set es. e' \<noteq> e \<longrightarrow> ee_end e' \<le> unat l \<or> ee_end e \<le> unat (ee_block e'))"

section \<open>The scans\<close>

lemma ees_scan_find:
  assumes "\<forall>k. i \<le> k \<and> k < i + n \<longrightarrow> ee_start_hi (extent_of ee (12 * k)) = 0"
    and "12 * (i + n) \<le> length ee"
  shows "ees_scan ee l n i =
    Inr (find (\<lambda>e. l < ee_block e + ucast (ee_len e)) (map (\<lambda>k. extent_of ee (12 * k)) [i ..< i + n]))"
  using assms
proof (induction n arbitrary: i)
  case 0
  then show ?case by simp
next
  case (Suc n)
  from Suc.prems have "ees_scan ee l n (Suc i) =
      Inr (find (\<lambda>e. l < ee_block e + ucast (ee_len e))
        (map (\<lambda>k. extent_of ee (12 * k)) [Suc i ..< Suc i + n]))"
    by (intro Suc.IH) simp_all
  with Suc.prems show ?case
    by (simp add: rd_in upt_conv_Cons del: upt_Suc)
qed

lemma idx_scan_last:
  assumes "\<forall>k. i \<le> k \<and> k < i + n \<longrightarrow> ei_leaf_hi (extent_idx_of ei (12 * k)) = 0"
    and "12 * (i + n) \<le> length ei"
  shows "idx_scan ei l n i cur =
    Inr (let xs = takeWhile (\<lambda>e. ei_block e \<le> l) (map (\<lambda>k. extent_idx_of ei (12 * k)) [i ..< i + n])
         in if xs = [] then cur else Some (last xs))"
  using assms
proof (induction n arbitrary: i cur)
  case 0
  then show ?case by simp
next
  case (Suc n)
  from Suc.prems have "idx_scan ei l n (Suc i) c =
      Inr (let xs = takeWhile (\<lambda>e. ei_block e \<le> l)
                      (map (\<lambda>k. extent_idx_of ei (12 * k)) [Suc i ..< Suc i + n])
           in if xs = [] then c else Some (last xs))" for c
    by (intro Suc.IH) simp_all
  with Suc.prems show ?case
    by (auto simp: rd_in upt_conv_Cons Let_def simp del: upt_Suc)
qed

text \<open>In a sorted list the first extent that ends past a covered block is the one covering it.\<close>

lemma word_end:
  "ee_end e < 4294967296 \<Longrightarrow> unat (ee_block e + ucast (ee_len e)) = ee_end e"
  by (simp add: ee_end_def unat_add_nowrap)

lemma find_covering:
  assumes "wf_extents es" and "e \<in> set es" and "covers e l"
  shows "find (\<lambda>e. l < ee_block e + ucast (ee_len e)) es = Some e"
  using assms
proof (induction es)
  case Nil
  then show ?case by simp
next
  case (Cons a es)
  have a: "unat (ee_block a + ucast (ee_len a)) = ee_end a"
    using Cons.prems(1) by (simp add: wf_extents_def word_end)
  show ?case
  proof (cases "e = a")
    case True
    with Cons.prems(3) a show ?thesis by (simp add: covers_def word_less_nat_alt)
  next
    case False
    with Cons.prems have "e \<in> set es" and "ee_end a \<le> unat (ee_block e)"
      by (auto simp: wf_extents_def)
    then have "\<not> l < ee_block a + ucast (ee_len a)"
      using Cons.prems(3) a by (simp add: covers_def word_less_nat_alt)
    moreover have "wf_extents es" using Cons.prems(1) by (simp add: wf_extents_def)
    ultimately show ?thesis using Cons.IH \<open>e \<in> set es\<close> Cons.prems(3) by simp
  qed
qed

section \<open>Lookups in a tree\<close>

lemma from_ees_find:
  assumes "\<forall>e \<in> set (extents_at ee (unat n)). ee_start_hi e = 0" and "12 * unat n \<le> length ee"
  shows "extent_get_block_from_ees ee n l =
    Inr (case find (\<lambda>e. l < ee_block e + ucast (ee_len e)) (extents_at ee (unat n)) of
           None \<Rightarrow> (0, None) | Some e \<Rightarrow> found e l)"
proof -
  have "\<forall>k. 0 \<le> k \<and> k < 0 + unat n \<longrightarrow> ee_start_hi (extent_of ee (12 * k)) = 0"
    using assms(1) by (auto simp: extents_at_def)
  from ees_scan_find [OF this, of l] assms(2)
  have "ees_scan ee l (unat n) 0 =
      Inr (find (\<lambda>e. l < ee_block e + ucast (ee_len e)) (extents_at ee (unat n)))"
    unfolding extents_at_def by simp
  then show ?thesis
    by (simp add: extent_get_block_from_ees_def found_def Let_def split: option.split)
qed

lemma leaf_lookup:
  assumes "extent_tree dk sb b 0 es" and "wf_extents es"
  shows "extent_get_pblock (Suc fuel) dk sb b l =
    Inr (case find (\<lambda>e. l < ee_block e + ucast (ee_len e)) es of
           None \<Rightarrow> (0, None) | Some e \<Rightarrow> found e l)"
  using assms(1)
proof (rule extent_tree_0E)
  let ?n = "unat (eh_entries (extent_header_of b 0))"
  assume es: "es = extents_at (drop 12 b) ?n"
    and hdr: "eh_magic (extent_header_of b 0) = EXT4_EXT_MAGIC"
      "eh_depth (extent_header_of b 0) = 0"
    and len: "12 + 12 * ?n \<le> length b"
  have "extent_get_block_from_ees (drop 12 b) (ucast (eh_entries (extent_header_of b 0))) l =
    Inr (case find (\<lambda>e. l < ee_block e + ucast (ee_len e)) es of
           None \<Rightarrow> (0, None) | Some e \<Rightarrow> found e l)"
    using assms(2) len by (subst from_ees_find) (auto simp: es wf_extents_def)
  with hdr len show ?thesis by (simp add: rd_in)
qed

text \<open>The child whose key range contains a block is the one the index scan stops at.\<close>

lemma idx_scan_child:
  assumes len: "12 + 12 * n \<le> length b" and ids: "ids = idxs_at (drop 12 b) n"
    and hi: "\<forall>e \<in> set ids. ei_leaf_hi e = 0"
    and srt: "sorted_wrt (\<lambda>a b. ei_block a < ei_block b) ids"
    and i: "i < n" "ei_block (ids ! i) \<le> l" "Suc i < n \<Longrightarrow> l < ei_block (ids ! Suc i)"
  shows "idx_scan (drop 12 b) l n 0 None = Inr (Some (ids ! i))"
proof -
  have n: "length ids = n" by (simp add: ids idxs_at_def)
  have "takeWhile (\<lambda>e. ei_block e \<le> l) ids = take (Suc i) ids"
  proof (rule takeWhile_eq_take_P_nth)
    fix k assume "k < Suc i" "k < length ids"
    then have "ei_block (ids ! k) \<le> ei_block (ids ! i)"
      using srt n i(1) by (cases "k = i") (auto simp: sorted_wrt_iff_nth_less intro: less_imp_le)
    with i(2) show "ei_block (ids ! k) \<le> l" by simp
  next
    assume "Suc i < length ids"
    with i(3) n show "\<not> ei_block (ids ! Suc i) \<le> l" by simp
  qed
  moreover have "\<forall>k. 0 \<le> k \<and> k < 0 + n \<longrightarrow> ei_leaf_hi (extent_idx_of (drop 12 b) (12 * k)) = 0"
    using hi by (auto simp: ids idxs_at_def)
  from idx_scan_last [OF this, of l None] len have "idx_scan (drop 12 b) l n 0 None =
      Inr (let xs = takeWhile (\<lambda>e. ei_block e \<le> l) ids in if xs = [] then None else Some (last xs))"
    unfolding ids idxs_at_def by simp
  moreover have "take (Suc i) ids \<noteq> []" "last (take (Suc i) ids) = ids ! i"
    using n i(1) by (simp_all add: take_Suc_conv_app_nth)
  ultimately show ?thesis by simp
qed

lemma wf_extents_concat: "wf_extents (concat ess) \<Longrightarrow> es \<in> set ess \<Longrightarrow> wf_extents es"
  by (drule split_list) (auto simp: wf_extents_def sorted_wrt_append)

lemma tree_step:
  assumes "eh_magic (extent_header_of b 0) = EXT4_EXT_MAGIC" and "eh_depth (extent_header_of b 0) \<noteq> 0"
    and "unat (eh_entries (extent_header_of b 0)) = n" and "12 + 12 * n \<le> length b"
    and "idx_scan (drop 12 b) l n 0 None = Inr (Some e)"
    and "extent_get_extents_in_block dk sb (ei_leaf_lo e) = Inr leaf"
  shows "extent_get_pblock (Suc fuel) dk sb b l = extent_get_pblock fuel dk sb leaf l"
  using assms by (simp add: rd_in)

lemma node_len: "unat (ucast (ucast n * 12 + 12 :: u64) :: u32) = 12 + 12 * unat n" for n :: u16
proof -
  have "unat n < 65536" using unat_u16 [of n] by simp
  then have "unat (ucast n * 12 + 12 :: u64) = 12 + 12 * unat n"
    by (simp add: unat_add_nowrap unat_mult_nowrap)
  then show ?thesis using \<open>unat n < 65536\<close> by (simp add: unat_ucast_down)
qed

lemma node_read:
  assumes "node_on_disk d sb block"
  shows "extent_get_extents_in_block (Some d) sb block = Inr (node_bytes d sb block)"
proof -
  let ?pos = "BLOCKS2BYTES sb (ucast block)"
  let ?eh = "extent_header_of (dev_bytes d (unat block * bsize sb) 12) 0"
  let ?len = "ucast (ucast (eh_entries ?eh) * 12 + 12 :: u64) :: u32"
  have wf: "wf_super sb" using assms by (simp add: node_on_disk_def)
  note pos = unat_BLOCKS2BYTES_u32 [OF wf, of block]
  have "unat block * bsize sb \<le> 4294967296 * 65536"
    using unat_u32 [of block] bsize_bounds [OF wf] by (intro mult_le_mono) simp_all
  then have small: "unat ?pos < 9223372036854775808" using pos by linarith
  have "in_device d ?pos 12"
    using assms pos small by (simp add: in_device_def MAX_RW_COUNT_def node_on_disk_def)
  note header = disk_read_in [OF this, unfolded pos]
  have "unat (eh_entries ?eh) < 65536" using unat_u16 [of "eh_entries ?eh"] by simp
  then have "in_device d ?pos (ucast ?len)"
    using assms pos small node_len [of "eh_entries ?eh"]
    by (simp add: in_device_def MAX_RW_COUNT_def node_on_disk_def node_entries_def)
  from disk_read_in [OF this] header pos node_len [of "eh_entries ?eh"] show ?thesis
    by (simp add: extent_get_extents_in_block_def sizeof_structs Let_def node_bytes_def node_entries_def)
qed

lemma extent_covered:
  assumes "extent_tree dk sb b h es" and "wf_extents es" and "e \<in> set es" and "covers e l"
    and "h < fuel"
  shows "extent_get_pblock fuel dk sb b l = Inr (found e l)"
  using assms
proof (induction arbitrary: fuel rule: extent_tree.induct)
  case (leaf b n)
  then obtain f where f: "fuel = Suc f" by (cases fuel) simp_all
  have "extent_tree dk sb b 0 (extents_at (drop 12 b) n)"
    using leaf.hyps by (rule extent_tree.leaf)
  from leaf_lookup [OF this leaf.prems(1)] leaf.prems show ?case
    by (simp add: f find_covering)
next
  case (node b ess ids d h)
  then obtain f where f: "fuel = Suc f" "h < f" by (cases fuel) simp_all
  from node.prems(2) obtain xs where "xs \<in> set ess" "e \<in> set xs" by auto
  then obtain i where i: "i < length ess" "e \<in> set (ess ! i)" by (metis in_set_conv_nth)
  let ?leaf = "node_bytes d sb (ei_leaf_lo (ids ! i))"
  have leaf: "extent_get_extents_in_block dk sb (ei_leaf_lo (ids ! i)) = Inr ?leaf"
    using node.hyps(10) node.IH i(1) node_read by blast
  from node.IH i(1) have sub: "\<And>f. wf_extents (ess ! i) \<Longrightarrow> e \<in> set (ess ! i) \<Longrightarrow> covers e l \<Longrightarrow> h < f \<Longrightarrow>
        extent_get_pblock f dk sb ?leaf l = Inr (found e l)" by blast
  have "unat (ei_block (ids ! i)) \<le> unat (ee_block e)" using node.hyps i by blast
  then have lo: "ei_block (ids ! i) \<le> l"
    using node.prems(3) by (simp add: covers_def word_le_nat_alt)
  have hi: "l < ei_block (ids ! Suc i)" if "Suc i < length ess"
  proof -
    have "ee_end e \<le> unat (ei_block (ids ! Suc i))" using node.hyps that i by blast
    with node.prems(3) show ?thesis by (simp add: covers_def word_less_nat_alt)
  qed
  have "idx_scan (drop 12 b) l (length ess) 0 None = Inr (Some (ids ! i))"
    using node.hyps(6-9) i(1) lo hi by (rule idx_scan_child)
  then have "extent_get_pblock (Suc f) dk sb b l = extent_get_pblock f dk sb ?leaf l"
    using leaf node.hyps(1-3,6) by (intro tree_step)
  moreover have "extent_get_pblock f dk sb ?leaf l = Inr (found e l)"
    using wf_extents_concat [OF node.prems(1)] i node.prems(3) f(2) by (intro sub) simp_all
  ultimately show ?case by (simp add: f)
qed

text \<open>Blocks past the last extent.\<close>

lemma find_past_end:
  assumes "wf_extents es" and "\<forall>e \<in> set es. ee_end e \<le> unat l"
  shows "find (\<lambda>e. l < ee_block e + ucast (ee_len e)) es = None"
  using assms by (auto simp: find_None_iff word_less_nat_alt word_end wf_extents_def not_less)

lemma extent_past_end:
  assumes "extent_tree dk sb b h es" and "wf_extents es" and "\<forall>e \<in> set es. ee_end e \<le> unat l"
    and "h < fuel"
  shows "extent_get_pblock fuel dk sb b l = Inr (0, None)"
  using assms
proof (induction arbitrary: fuel rule: extent_tree.induct)
  case (leaf b n)
  then obtain f where f: "fuel = Suc f" by (cases fuel) simp_all
  have "extent_tree dk sb b 0 (extents_at (drop 12 b) n)"
    using leaf.hyps by (rule extent_tree.leaf)
  from leaf_lookup [OF this leaf.prems(1)] leaf.prems show ?case
    by (simp add: f find_past_end)
next
  case (node b ess ids d h)
  then obtain f where f: "fuel = Suc f" "h < f" by (cases fuel) simp_all
  let ?i = "length ess - 1"
  have i: "?i < length ess" using node.hyps by simp
  then have mem: "ess ! ?i \<in> set ess" by simp
  let ?leaf = "node_bytes d sb (ei_leaf_lo (ids ! ?i))"
  have leaf: "extent_get_extents_in_block dk sb (ei_leaf_lo (ids ! ?i)) = Inr ?leaf"
    using node.hyps(10) node.IH i node_read by blast
  from node.IH i have sub: "\<And>f. wf_extents (ess ! ?i) \<Longrightarrow> \<forall>e \<in> set (ess ! ?i). ee_end e \<le> unat l \<Longrightarrow> h < f \<Longrightarrow>
        extent_get_pblock f dk sb ?leaf l = Inr (0, None)" by blast
  have "ess ! ?i \<noteq> []" using mem node.hyps(5) by metis
  then obtain e where e: "e \<in> set (ess ! ?i)" using last_in_set by blast
  then have "unat (ei_block (ids ! ?i)) \<le> unat (ee_block e)" using node.hyps i by blast
  moreover have "ee_end e \<le> unat l" using node.prems(2) e mem by auto
  ultimately have lo: "ei_block (ids ! ?i) \<le> l" by (simp add: ee_end_def word_le_nat_alt)
  have "idx_scan (drop 12 b) l (length ess) 0 None = Inr (Some (ids ! ?i))"
    using node.hyps(6-9) i lo by (rule idx_scan_child) simp
  then have "extent_get_pblock (Suc f) dk sb b l = extent_get_pblock f dk sb ?leaf l"
    using leaf node.hyps(1-3,6) by (intro tree_step)
  moreover have "extent_get_pblock f dk sb ?leaf l = Inr (0, None)"
    using wf_extents_concat [OF node.prems(1) mem] node.prems(2) mem f(2) by (intro sub) auto
  ultimately show ?case by (simp add: f)
qed

text \<open>
  Lookups in a leaf for blocks no extent covers. The scan compares a block with the ends
  of the extents only, so it stops at the next extent after the block.
\<close>

lemma find_next_extent:
  assumes "wf_extents es" and "next_extent es e l"
  shows "find (\<lambda>e. l < ee_block e + ucast (ee_len e)) es = Some e"
  using assms
proof (induction es)
  case Nil
  then show ?case by (simp add: next_extent_def)
next
  case (Cons a es)
  have end_a: "unat (ee_block a + ucast (ee_len a)) = ee_end a"
    using Cons.prems(1) by (simp add: wf_extents_def word_end)
  show ?case
  proof (cases "e = a")
    case True
    with Cons.prems(2) end_a show ?thesis
      by (simp add: word_less_nat_alt next_extent_def ee_end_def)
  next
    case False
    with Cons.prems have e: "e \<in> set es" and le: "ee_end a \<le> unat (ee_block e)"
      by (auto simp: wf_extents_def next_extent_def)
    moreover have "ee_end a \<le> unat l \<or> ee_end e \<le> unat (ee_block a)"
      using Cons.prems(2) False by (auto simp: next_extent_def)
    moreover have "unat (ee_block e) < ee_end e"
      using Cons.prems(2) by (simp add: next_extent_def ee_end_def)
    ultimately have "\<not> l < ee_block a + ucast (ee_len a)"
      using end_a by (auto simp: word_less_nat_alt ee_end_def)
    moreover have "wf_extents es" "next_extent es e l"
      using Cons.prems e by (simp_all add: wf_extents_def next_extent_def)
    ultimately show ?thesis using Cons.IH by simp
  qed
qed

text \<open>Blocks of one extent: the run of physical blocks that a lookup announces.\<close>

lemma found_run:
  assumes "covers e l" and "ee_end e < 4294967296" and "unat (ee_start_lo e) + unat (ee_len e) < 4294967296"
  shows "\<exists>p n. found e l = (p, Some n) \<and> unat p = unat (ee_start_lo e) + (unat l - unat (ee_block e)) \<and>
    unat n = ee_end e - unat l \<and> 0 < unat n"
proof -
  have le: "ee_block e \<le> l" "unat l < ee_end e"
    using assms(1) by (simp_all add: covers_def word_le_nat_alt)
  then have d: "unat (l - ee_block e) = unat l - unat (ee_block e)" by (simp add: unat_sub_nowrap)
  then have "unat (ee_start_lo e + (l - ee_block e)) = unat (ee_start_lo e) + (unat l - unat (ee_block e))"
    using le(2) assms(3) by (subst unat_add_nowrap) (simp_all add: ee_end_def)
  moreover have "unat (ee_block e + ucast (ee_len e) - l) = ee_end e - unat l"
    using le(2) assms(2) by (subst unat_sub_nowrap) (simp_all add: word_le_nat_alt word_end)
  ultimately show ?thesis using le(2) by (simp add: found_def)
qed

end
