(* ===== verification/Blockmap.thy ===== *)
theory Blockmap
  imports Extents
begin

text \<open>
  Model of the block mapping of \<^verbatim>\<open>fuse/inode.c\<close> and \<^verbatim>\<open>fuse/inode.h\<close>: the size of an inode and
  the translation of a logical block of a file into a physical block, through the ext2/3
  indirect blocks or through the extent tree of \<^verbatim>\<open>extents.c\<close>.
\<close>

section \<open>inode.h and inode.c\<close>

definition EXT4_NDIR_BLOCKS :: u32 where
  "EXT4_NDIR_BLOCKS = 12"

definition EXT4_IND_BLOCK :: u32 where
  "EXT4_IND_BLOCK = EXT4_NDIR_BLOCKS"

definition EXT4_DIND_BLOCK :: u32 where
  "EXT4_DIND_BLOCK = EXT4_IND_BLOCK + 1"

definition EXT4_TIND_BLOCK :: u32 where
  "EXT4_TIND_BLOCK = EXT4_DIND_BLOCK + 1"

definition EXT4_EXTENTS_FL :: u32 where
  "EXT4_EXTENTS_FL = 0x00080000"

definition inode_get_size :: "ext4_inode \<Rightarrow> u64" where
  "inode_get_size inode = push_bit 32 (ucast (i_size_high inode)) OR ucast (i_size_lo inode)"

text \<open>The macros divide by a \<^verbatim>\<open>size_t\<close>, so they are computed on 64 bits.\<close>

definition ADDRESSES_IN_IND_BLOCK :: "ext4_super_block \<Rightarrow> u64" where
  "ADDRESSES_IN_IND_BLOCK sb = ucast (super_block_size sb) div 4"

definition ADDRESSES_IN_DIND_BLOCK :: "ext4_super_block \<Rightarrow> u64" where
  "ADDRESSES_IN_DIND_BLOCK sb = ADDRESSES_IN_IND_BLOCK sb * ADDRESSES_IN_IND_BLOCK sb"

definition ADDRESSES_IN_TIND_BLOCK :: "ext4_super_block \<Rightarrow> u64" where
  "ADDRESSES_IN_TIND_BLOCK sb = ADDRESSES_IN_DIND_BLOCK sb * ADDRESSES_IN_IND_BLOCK sb"

definition MAX_IND_BLOCK :: "ext4_super_block \<Rightarrow> u64" where
  "MAX_IND_BLOCK sb = ucast EXT4_NDIR_BLOCKS + ADDRESSES_IN_IND_BLOCK sb"

definition MAX_DIND_BLOCK :: "ext4_super_block \<Rightarrow> u64" where
  "MAX_DIND_BLOCK sb = MAX_IND_BLOCK sb + ADDRESSES_IN_DIND_BLOCK sb"

definition MAX_TIND_BLOCK :: "ext4_super_block \<Rightarrow> u64" where
  "MAX_TIND_BLOCK sb = MAX_DIND_BLOCK sb + ADDRESSES_IN_TIND_BLOCK sb"

definition inode_get_data_pblock_ind :: "disk \<Rightarrow> ext4_super_block \<Rightarrow> u32 \<Rightarrow> u32 \<Rightarrow> u32 res" where
  "inode_get_data_pblock_ind dk sb lblock index_block =
     ASSERT (ucast lblock < ADDRESSES_IN_IND_BLOCK sb)
       (disk_read_u32 dk (BLOCKS2BYTES sb (ucast index_block) + ucast lblock * 4))"

definition inode_get_data_pblock_dind :: "disk \<Rightarrow> ext4_super_block \<Rightarrow> u32 \<Rightarrow> u32 \<Rightarrow> u32 res" where
  "inode_get_data_pblock_dind dk sb lblock dindex_block =
     ASSERT (ucast lblock < ADDRESSES_IN_DIND_BLOCK sb)
       (rbind (udiv (ucast lblock) (ADDRESSES_IN_IND_BLOCK sb)) (\<lambda>q.
        rbind (umod (ucast lblock) (ADDRESSES_IN_IND_BLOCK sb)) (\<lambda>r.
        let index_block_offset_in_dindex = ucast (q * 4) :: u32 in
        rbind (disk_read_u32 dk (BLOCKS2BYTES sb (ucast dindex_block) + ucast index_block_offset_in_dindex))
          (\<lambda>index_block. inode_get_data_pblock_ind dk sb (ucast r) index_block))))"

definition inode_get_data_pblock_tind :: "disk \<Rightarrow> ext4_super_block \<Rightarrow> u32 \<Rightarrow> u32 \<Rightarrow> u32 res" where
  "inode_get_data_pblock_tind dk sb lblock tindex_block =
     ASSERT (ucast lblock < ADDRESSES_IN_TIND_BLOCK sb)
       (rbind (udiv (ucast lblock) (ADDRESSES_IN_DIND_BLOCK sb)) (\<lambda>q.
        rbind (umod (ucast lblock) (ADDRESSES_IN_DIND_BLOCK sb)) (\<lambda>r.
        let dindex_block_offset_in_tindex = ucast (q * 4) :: u32 in
        rbind (disk_read_u32 dk (BLOCKS2BYTES sb (ucast tindex_block) + ucast dindex_block_offset_in_tindex))
          (\<lambda>dindex_block. inode_get_data_pblock_dind dk sb (ucast r) dindex_block))))"

text \<open>
  The walk down an extent tree is determined by the block it is in, so a walk of more
  than \<open>2^32\<close> blocks has met a block number twice and never ends.
\<close>

definition EXTENT_FUEL :: nat where
  "EXTENT_FUEL = 4294967297"

text \<open>
  \<^verbatim>\<open>inode_get_data_pblock\<close>: the physical block and the value left in \<^verbatim>\<open>*extent_len\<close> (callers
  that pass a null pointer drop it).
\<close>

definition inode_get_data_pblock ::
    "disk \<Rightarrow> ext4_super_block \<Rightarrow> ext4_inode \<Rightarrow> u32 \<Rightarrow> (u64 \<times> u32) res" where
  "inode_get_data_pblock dk sb inode lblock =
     (if i_flags inode AND EXT4_EXTENTS_FL \<noteq> 0
      then rbind (extent_get_pblock EXTENT_FUEL dk sb (i_block inode) lblock)
             (\<lambda>(p, len). Inr (p, case len of None \<Rightarrow> 1 | Some n \<Rightarrow> n))
      else
        rbind (BYTES2BLOCKS sb (inode_get_size inode)) (\<lambda>nblocks.
        ASSERT (ucast lblock \<le> nblocks)
          (if lblock < EXT4_NDIR_BLOCKS
           then Inr (ucast (le32 (i_block inode) (4 * unat lblock)), 1)
           else if ucast lblock < MAX_IND_BLOCK sb
           then rbind (inode_get_data_pblock_ind dk sb (lblock - EXT4_NDIR_BLOCKS)
                         (le32 (i_block inode) (4 * unat EXT4_IND_BLOCK)))
                  (\<lambda>p. Inr (ucast p, 1))
           else if ucast lblock < MAX_DIND_BLOCK sb
           then rbind (inode_get_data_pblock_dind dk sb (ucast (ucast lblock - MAX_IND_BLOCK sb))
                         (le32 (i_block inode) (4 * unat EXT4_DIND_BLOCK)))
                  (\<lambda>p. Inr (ucast p, 1))
           else if ucast lblock < MAX_TIND_BLOCK sb
           then rbind (inode_get_data_pblock_tind dk sb (ucast (ucast lblock - MAX_DIND_BLOCK sb))
                         (le32 (i_block inode) (4 * unat EXT4_TIND_BLOCK)))
                  (\<lambda>p. Inr (ucast p, 1))
           else Inl AssertFail)))"

section \<open>Indirect blocks, as a tree of any depth\<close>

text \<open>Addresses in a block, and the address stored at index \<open>i\<close> of block \<open>blk\<close>.\<close>

definition naddr :: "ext4_super_block \<Rightarrow> nat" where
  "naddr sb = bsize sb div 4"

definition addr_in :: "device \<Rightarrow> ext4_super_block \<Rightarrow> nat \<Rightarrow> nat \<Rightarrow> u32" where
  "addr_in d sb blk i = le32 (dev_bytes d (blk * bsize sb + 4 * i) 4) 0"

text \<open>
  Block \<open>l\<close> of a tree of \<open>k\<close> levels of index blocks with root \<open>blk\<close>. A missing index block, of
  number 0, is a hole.
\<close>

fun ind_lookup :: "device \<Rightarrow> ext4_super_block \<Rightarrow> nat \<Rightarrow> u32 \<Rightarrow> nat \<Rightarrow> u32" where
  "ind_lookup d sb 0 blk l = blk"
| "ind_lookup d sb (Suc k) blk l =
     (if blk = 0 then 0
      else ind_lookup d sb k (addr_in d sb (unat blk) (l div naddr sb ^ k)) (l mod naddr sb ^ k))"

text \<open>The index blocks on the way exist and lie inside the device.\<close>

fun ind_ok :: "device \<Rightarrow> ext4_super_block \<Rightarrow> nat \<Rightarrow> u32 \<Rightarrow> nat \<Rightarrow> bool" where
  "ind_ok d sb 0 blk l \<longleftrightarrow> True"
| "ind_ok d sb (Suc k) blk l \<longleftrightarrow>
     blk \<noteq> 0 \<and> Suc (unat blk) * bsize sb \<le> dev_size d \<and>
     ind_ok d sb k (addr_in d sb (unat blk) (l div naddr sb ^ k)) (l mod naddr sb ^ k)"

text \<open>
  The ext2/3 map: 12 direct blocks, then the trees of one, two and three levels. \<open>ind_place\<close>
  gives the slot of \<^verbatim>\<open>i_block\<close>, the levels below it and the block number inside.
\<close>

definition ind_place :: "ext4_super_block \<Rightarrow> nat \<Rightarrow> (nat \<times> nat \<times> nat) option" where
  "ind_place sb l =
     (let a = naddr sb in
      if l < 12 then Some (l, 0, 0)
      else if l < 12 + a then Some (12, 1, l - 12)
      else if l < 12 + a + a ^ 2 then Some (13, 2, l - (12 + a))
      else if l < 12 + a + a ^ 2 + a ^ 3 then Some (14, 3, l - (12 + a + a ^ 2))
      else None)"

section \<open>Sizes\<close>

lemma inode_size_eq:
  "unat (inode_get_size inode) = unat (i_size_high inode) * 4294967296 + unat (i_size_lo inode)"
proof -
  let ?h = "push_bit 32 (ucast (i_size_high inode)) :: u64" and ?l = "ucast (i_size_lo inode) :: u64"
  have disj: "?h AND ?l = 0" by (rule bit_eqI) (auto simp: bit_simps dest: bit_imp_le_length)
  have h: "unat ?h = unat (i_size_high inode) * 4294967296"
    using unat_u32 [of "i_size_high inode"]
    by (simp add: push_bit_eq_mult) (subst unat_mult_nowrap, simp_all)
  have "?h OR ?l = ?h + ?l" using word_plus_and_or [of ?h ?l] disj by simp
  moreover have "unat (?h + ?l) = unat (i_size_high inode) * 4294967296 + unat (i_size_lo inode)"
    using unat_u32 [of "i_size_high inode"] unat_u32 [of "i_size_lo inode"] h
    by (subst unat_add_nowrap) simp_all
  ultimately show ?thesis by (simp add: inode_get_size_def)
qed

lemma naddr_eq:
  assumes "wf_super sb"
  shows "unat (ADDRESSES_IN_IND_BLOCK sb) = naddr sb" "256 \<le> naddr sb" "naddr sb \<le> 16384"
    "bsize sb = 4 * naddr sb"
proof -
  show "unat (ADDRESSES_IN_IND_BLOCK sb) = naddr sb"
    by (simp add: ADDRESSES_IN_IND_BLOCK_def naddr_def bsize_def unat_div)
  define k where "k = (2 :: nat) ^ unat (s_log_block_size sb)"
  have "bsize sb = 1024 * k" using super_block_size_eq [OF assms] by (simp add: k_def)
  moreover from this have "1 \<le> k" "k \<le> 64" using bsize_bounds [OF assms] by linarith+
  ultimately show "256 \<le> naddr sb" "naddr sb \<le> 16384" "bsize sb = 4 * naddr sb"
    by (simp_all add: naddr_def)
qed

lemma naddr_powers:
  assumes "wf_super sb"
  shows "unat (ADDRESSES_IN_DIND_BLOCK sb) = naddr sb ^ 2" "unat (ADDRESSES_IN_TIND_BLOCK sb) = naddr sb ^ 3"
    "unat (MAX_IND_BLOCK sb) = 12 + naddr sb"
    "unat (MAX_DIND_BLOCK sb) = 12 + naddr sb + naddr sb ^ 2"
    "unat (MAX_TIND_BLOCK sb) = 12 + naddr sb + naddr sb ^ 2 + naddr sb ^ 3"
proof -
  note a = naddr_eq [OF assms]
  have p2: "naddr sb ^ 2 \<le> 16384 ^ 2" and p3: "naddr sb ^ 3 \<le> 16384 ^ 3"
    using a(3) by (auto intro: power_mono simp del: power_numeral)
  have p2': "naddr sb * naddr sb = naddr sb ^ 2" by (simp add: power2_eq_square)
  have p3': "naddr sb ^ 2 * naddr sb = naddr sb ^ 3" by (simp add: power2_eq_square power3_eq_cube)
  show d: "unat (ADDRESSES_IN_DIND_BLOCK sb) = naddr sb ^ 2"
    unfolding ADDRESSES_IN_DIND_BLOCK_def using p2 p2' a(1) by (subst unat_mult_nowrap) simp_all
  show t: "unat (ADDRESSES_IN_TIND_BLOCK sb) = naddr sb ^ 3"
    unfolding ADDRESSES_IN_TIND_BLOCK_def using p3 p3' a(1) d by (subst unat_mult_nowrap) simp_all
  show i: "unat (MAX_IND_BLOCK sb) = 12 + naddr sb"
    unfolding MAX_IND_BLOCK_def using a by (subst unat_add_nowrap) (simp_all add: EXT4_NDIR_BLOCKS_def)
  show di: "unat (MAX_DIND_BLOCK sb) = 12 + naddr sb + naddr sb ^ 2"
    unfolding MAX_DIND_BLOCK_def using p2 a(3) i d by (subst unat_add_nowrap) simp_all
  show "unat (MAX_TIND_BLOCK sb) = 12 + naddr sb + naddr sb ^ 2 + naddr sb ^ 3"
    unfolding MAX_TIND_BLOCK_def using p2 p3 a(3) di t by (subst unat_add_nowrap) simp_all
qed

section \<open>The indirect look-ups\<close>

lemma read_addr:
  assumes wf: "wf_super sb" and i: "i < naddr sb" and w: "unat w = 4 * i"
    and blk: "Suc (unat (blk :: u32)) * bsize sb \<le> dev_size d"
  shows "disk_read_u32 (Some d) (BLOCKS2BYTES sb (ucast blk) + w) = Inr (addr_in d sb (unat blk) i)"
proof -
  note a = naddr_eq [OF wf]
  have "unat blk * bsize sb \<le> 4294967296 * 65536"
    using unat_u32 [of blk] bsize_bounds [OF wf] by (intro mult_le_mono) simp_all
  then have off: "unat (BLOCKS2BYTES sb (ucast blk) + w) = unat blk * bsize sb + 4 * i"
    using w i a(3) unat_BLOCKS2BYTES_u32 [OF wf, of blk] by (subst unat_add_nowrap) simp_all
  have "unat blk * bsize sb + bsize sb \<le> dev_size d" using blk by simp
  then have "unat blk * bsize sb + 4 * i + 4 \<le> dev_size d" using i a(4) by linarith
  moreover have "unat blk * bsize sb + 4 * i < 9223372036854775808"
    using \<open>unat blk * bsize sb \<le> 4294967296 * 65536\<close> i a(3) by linarith
  ultimately have "in_device d (BLOCKS2BYTES sb (ucast blk) + w) 4"
    unfolding in_device_def off by (simp add: MAX_RW_COUNT_def)
  then show ?thesis by (simp add: disk_read_u32_in off addr_in_def)
qed

lemma ind_level1:
  assumes wf: "wf_super sb" and l: "unat l < naddr sb" and ok: "ind_ok d sb 1 blk (unat l)"
  shows "inode_get_data_pblock_ind (Some d) sb l blk = Inr (ind_lookup d sb 1 blk (unat l))"
proof -
  have "unat (ucast l * 4 :: u64) = 4 * unat l"
    using unat_u32 [of l] by (subst unat_mult_nowrap) simp_all
  then show ?thesis using l ok naddr_eq(1) [OF wf]
    by (simp add: inode_get_data_pblock_ind_def word_less_nat_alt read_addr [OF wf])
qed

lemma ind_level2:
  assumes wf: "wf_super sb" and l: "unat l < naddr sb ^ 2" and ok: "ind_ok d sb 2 blk (unat l)"
  shows "inode_get_data_pblock_dind (Some d) sb l blk = Inr (ind_lookup d sb 2 blk (unat l))"
proof -
  note a = naddr_eq [OF wf]
  let ?a = "ADDRESSES_IN_IND_BLOCK sb"
  have nz: "?a \<noteq> 0" using a(1,2) by (metis not_numeral_le_zero unat_0)
  let ?q = "ucast l div ?a" and ?r = "ucast l mod ?a"
  have q: "unat ?q = unat l div naddr sb" and r: "unat ?r = unat l mod naddr sb"
    using a(1) by (simp_all add: unat_div unat_mod)
  have ql: "unat l div naddr sb < naddr sb"
    using l by (simp add: power2_eq_square less_mult_imp_div_less)
  have "unat (?q * 4) = 4 * (unat l div naddr sb)"
    using q ql a(3) by (subst unat_mult_nowrap) simp_all
  then have w: "unat (ucast (ucast (?q * 4) :: u32) :: u64) = 4 * (unat l div naddr sb)"
    using ql a(3) by (simp add: unat_ucast_down)
  have rl: "unat l mod naddr sb < naddr sb" using a(2) by simp
  then have r': "unat (ucast ?r :: u32) = unat l mod naddr sb"
    using r a(3) by (subst unat_ucast_down) simp_all
  have blk0: "blk \<noteq> 0" and blk: "Suc (unat blk) * bsize sb \<le> dev_size d"
    and sub: "ind_ok d sb 1 (addr_in d sb (unat blk) (unat l div naddr sb)) (unat l mod naddr sb)"
    using ok by (simp_all add: numeral_2_eq_2)
  have "inode_get_data_pblock_ind (Some d) sb (ucast ?r) (addr_in d sb (unat blk) (unat l div naddr sb)) =
      Inr (ind_lookup d sb 1 (addr_in d sb (unat blk) (unat l div naddr sb)) (unat l mod naddr sb))"
    using ind_level1 [OF wf, of "ucast ?r"] rl r' sub by simp
  then show ?thesis using l naddr_powers(1) [OF wf] blk0
    by (simp add: inode_get_data_pblock_dind_def word_less_nat_alt udiv_nonzero umod_nonzero nz
        read_addr [OF wf ql w blk] numeral_2_eq_2)
qed

lemma ind_level3:
  assumes wf: "wf_super sb" and l: "unat l < naddr sb ^ 3" and ok: "ind_ok d sb 3 blk (unat l)"
  shows "inode_get_data_pblock_tind (Some d) sb l blk = Inr (ind_lookup d sb 3 blk (unat l))"
proof -
  note a = naddr_eq [OF wf] and p = naddr_powers [OF wf]
  let ?a = "ADDRESSES_IN_DIND_BLOCK sb" and ?n = "naddr sb ^ 2"
  have n: "0 < ?n" using a(2) by simp
  then have nz: "?a \<noteq> 0" using p(1) by (metis less_irrefl unat_0)
  let ?q = "ucast l div ?a" and ?r = "ucast l mod ?a"
  have q: "unat ?q = unat l div ?n" and r: "unat ?r = unat l mod ?n"
    using p(1) by (simp_all add: unat_div unat_mod)
  have ql: "unat l div ?n < naddr sb"
    using l by (simp add: power2_eq_square power3_eq_cube less_mult_imp_div_less mult.assoc)
  have "unat (?q * 4) = 4 * (unat l div ?n)"
    using q ql a(3) by (subst unat_mult_nowrap) simp_all
  then have w: "unat (ucast (ucast (?q * 4) :: u32) :: u64) = 4 * (unat l div ?n)"
    using ql a(3) by (simp add: unat_ucast_down)
  have rl: "unat l mod ?n < ?n" using n by simp
  have "unat l mod ?n < 4294967296"
    using unat_u32 [of l] mod_less_eq_dividend [of "unat l" ?n] by linarith
  then have r': "unat (ucast ?r :: u32) = unat l mod ?n"
    using r by (subst unat_ucast_down) simp_all
  have blk0: "blk \<noteq> 0" and blk: "Suc (unat blk) * bsize sb \<le> dev_size d"
    and sub: "ind_ok d sb 2 (addr_in d sb (unat blk) (unat l div ?n)) (unat l mod ?n)"
    using ok by (simp_all add: numeral_3_eq_3 numeral_2_eq_2)
  have "inode_get_data_pblock_dind (Some d) sb (ucast ?r) (addr_in d sb (unat blk) (unat l div ?n)) =
      Inr (ind_lookup d sb 2 (addr_in d sb (unat blk) (unat l div ?n)) (unat l mod ?n))"
    using ind_level2 [OF wf, of "ucast ?r"] rl r' sub by simp
  then show ?thesis using l p(2) blk0
    by (simp add: inode_get_data_pblock_tind_def word_less_nat_alt udiv_nonzero umod_nonzero nz
        read_addr [OF wf ql w blk]) (simp add: numeral_3_eq_3 numeral_2_eq_2)
qed

text \<open>The index inside the doubly and triply indirect maps, computed with 64 bits and cut to 32.\<close>

lemma lblock_sub:
  fixes lblock :: u32 and m :: u64
  assumes "\<not> unat lblock < unat m"
  shows "unat (ucast (ucast lblock - m) :: u32) = unat lblock - unat m"
proof -
  have "unat (ucast lblock - m) = unat lblock - unat m"
    using assms by (subst unat_sub_nowrap) (simp_all add: word_le_nat_alt)
  then show ?thesis using unat_u32 [of lblock] by (subst unat_ucast_down) simp_all
qed

lemma lblock_slots:
  "unat EXT4_IND_BLOCK = 12" "unat EXT4_DIND_BLOCK = 13" "unat EXT4_TIND_BLOCK = 14"
  "(lblock < EXT4_NDIR_BLOCKS) = (unat lblock < 12)"
  "\<not> unat lblock < 12 \<Longrightarrow> unat (lblock - EXT4_NDIR_BLOCKS) = unat lblock - 12"
proof -
  show "\<not> unat lblock < 12 \<Longrightarrow> unat (lblock - EXT4_NDIR_BLOCKS) = unat lblock - 12"
    by (subst unat_sub_nowrap) (simp_all add: word_le_nat_alt EXT4_NDIR_BLOCKS_def)
qed (simp_all add: EXT4_IND_BLOCK_def EXT4_DIND_BLOCK_def EXT4_TIND_BLOCK_def EXT4_NDIR_BLOCKS_def word_less_nat_alt)

text \<open>The whole map of an inode without extents.\<close>

lemma ind_data_pblock:
  assumes wf: "wf_super sb" and fl: "i_flags inode AND EXT4_EXTENTS_FL = 0"
    and l: "unat lblock * bsize sb \<le> align_up (unat (inode_get_size inode)) (bsize sb)"
    and pl: "ind_place sb (unat lblock) = Some (slot, k, i)"
    and ok: "ind_ok d sb k (le32 (i_block inode) (4 * slot)) i"
  shows "inode_get_data_pblock (Some d) sb inode lblock =
    Inr (ucast (ind_lookup d sb k (le32 (i_block inode) (4 * slot)) i), 1)"
proof -
  note p = naddr_powers [OF wf]
  obtain nb where nb: "BYTES2BLOCKS sb (inode_get_size inode) = Inr nb"
      "unat nb * bsize sb = align_up (unat (inode_get_size inode)) (bsize sb)"
    using BYTES2BLOCKS_eq [OF wf] by blast
  then have "unat lblock \<le> unat nb" using l bsize_pos [OF wf] by (metis mult_le_cancel2)
  then have le: "ucast lblock \<le> nb" by (simp add: word_le_nat_alt)
  have lt: "(ucast lblock < m) = (unat lblock < unat m)" for m :: u64
    by (simp add: word_less_nat_alt)
  let ?l = "unat lblock" and ?a = "naddr sb"
  consider (dir) "?l < 12" | (ind) "\<not> ?l < 12" "?l < 12 + ?a" | (dind) "\<not> ?l < 12 + ?a" "?l < 12 + ?a + ?a ^ 2"
    | (tind) "\<not> ?l < 12 + ?a + ?a ^ 2" "?l < 12 + ?a + ?a ^ 2 + ?a ^ 3"
    using pl by (auto simp: ind_place_def Let_def split: if_splits)
  then show ?thesis
  proof cases
    case dir
    then show ?thesis using pl nb le fl lblock_slots(4)
      by (simp add: inode_get_data_pblock_def ind_place_def)
  next
    case ind
    then have s: "slot = 12" "k = 1" "i = ?l - 12" using pl by (simp_all add: ind_place_def Let_def)
    then show ?thesis using nb le fl lt p ind lblock_slots ok ind_level1 [OF wf, of "lblock - EXT4_NDIR_BLOCKS" d]
      by (simp add: inode_get_data_pblock_def)
  next
    case dind
    then have s: "slot = 13" "k = 2" "i = ?l - (12 + ?a)" using pl by (simp_all add: ind_place_def Let_def)
    then show ?thesis
      using nb le fl lt p dind lblock_slots ok lblock_sub [of lblock "MAX_IND_BLOCK sb"]
        ind_level2 [OF wf, of "ucast (ucast lblock - MAX_IND_BLOCK sb)" d]
      by (simp add: inode_get_data_pblock_def)
  next
    case tind
    then have s: "slot = 14" "k = 3" "i = ?l - (12 + ?a + ?a ^ 2)" using pl by (simp_all add: ind_place_def Let_def)
    then show ?thesis
      using nb le fl lt p tind lblock_slots ok lblock_sub [of lblock "MAX_DIND_BLOCK sb"]
        ind_level3 [OF wf, of "ucast (ucast lblock - MAX_DIND_BLOCK sb)" d]
      by (simp add: inode_get_data_pblock_def)
  qed
qed

end
