(* ===== verification/Inode.thy ===== *)
theory Inode
  imports Blockmap
begin

text \<open>
  Model of the inode and directory access of \<^verbatim>\<open>fuse/inode.c\<close>: reading an inode by its number,
  the one-block buffer of a directory and the directory entry at an offset.
\<close>

section \<open>Directory entries\<close>

text \<open>
  A pointer to a directory entry is its position in the buffer of the context. A field is
  read at its offset in \<^verbatim>\<open>struct ext4_dir_entry_2\<close>.
\<close>

definition dentry_inode :: "bytes \<Rightarrow> nat \<Rightarrow> u32 res" where
  "dentry_inode buf p = rd 4 le32 buf (p + offsetof ext4_dir_entry_2_fields ''inode'')"

definition dentry_rec_len :: "bytes \<Rightarrow> nat \<Rightarrow> u16 res" where
  "dentry_rec_len buf p = rd 2 le16 buf (p + offsetof ext4_dir_entry_2_fields ''rec_len'')"

definition dentry_name_len :: "bytes \<Rightarrow> nat \<Rightarrow> u8 res" where
  "dentry_name_len buf p = rd 1 le8 buf (p + offsetof ext4_dir_entry_2_fields ''name_len'')"

text \<open>The first \<open>n\<close> bytes of the name.\<close>

definition dentry_name :: "bytes \<Rightarrow> nat \<Rightarrow> nat \<Rightarrow> bytes res" where
  "dentry_name buf p n =
     rd n (\<lambda>b i. take n (drop i b)) buf (p + offsetof ext4_dir_entry_2_fields ''name'')"

section \<open>inode.c\<close>

record inode_dir_ctx =
  ctx_lblock :: u32
  ctx_buf :: bytes

definition disk_read_block :: "disk \<Rightarrow> ext4_super_block \<Rightarrow> u64 \<Rightarrow> bytes res" where
  "disk_read_block dk sb blk = disk_read dk (BLOCKS2BYTES sb blk) (ucast (super_block_size sb))"

definition dir_ctx_update :: "disk \<Rightarrow> ext4_super_block \<Rightarrow> ext4_inode \<Rightarrow> u32 \<Rightarrow> inode_dir_ctx res" where
  "dir_ctx_update dk sb inode lblock =
     rbind (inode_get_data_pblock dk sb inode lblock) (\<lambda>(dir_pblock, _).
     rbind (disk_read_block dk sb dir_pblock) (\<lambda>buf.
     Inr \<lparr>ctx_lblock = lblock, ctx_buf = buf\<rparr>))"

definition inode_dir_ctx_reset :: "disk \<Rightarrow> ext4_super_block \<Rightarrow> ext4_inode \<Rightarrow> inode_dir_ctx res" where
  "inode_dir_ctx_reset dk sb inode = dir_ctx_update dk sb inode 0"

lemma dir_ctx_update_lblock:
  "dir_ctx_update dk sb inode lblock = Inr ctx \<Longrightarrow> ctx_lblock ctx = lblock"
  by (auto simp: dir_ctx_update_def rbind_eq_Inr)

text \<open>
  \<^verbatim>\<open>inode_dentry_get\<close>. The division of the signed offset by the block size is done on 64 bits,
  rounding towards zero, and truncated to 32 bits. The recursive call finds the block buffered.
\<close>

function inode_dentry_get ::
    "disk \<Rightarrow> ext4_super_block \<Rightarrow> ext4_inode \<Rightarrow> u64 \<Rightarrow> inode_dir_ctx \<Rightarrow> (nat option \<times> inode_dir_ctx) res"
  where
  "inode_dentry_get dk sb inode offset ctx =
     (if super_block_size sb = 0 then Inl DivByZero
      else
        let lblock = word_of_int (sint offset sdiv uint (super_block_size sb)) :: u32;
            blk_offset = word_of_int (sint offset smod uint (super_block_size sb)) :: u32
        in
        ASSERT (inode_get_size inode \<ge> offset)
          (if inode_get_size inode = offset then Inr (None, ctx)
           else if lblock = ctx_lblock ctx then Inr (Some (unat blk_offset), ctx)
           else rbind (dir_ctx_update dk sb inode lblock) (\<lambda>ctx'.
                inode_dentry_get dk sb inode offset ctx')))"
  by pat_completeness auto
termination
  by (relation "measure (\<lambda>(dk, sb, inode, offset, ctx).
        if word_of_int (sint offset sdiv uint (super_block_size sb)) = ctx_lblock ctx then 0 else 1)")
    (auto simp: dir_ctx_update_lblock)

declare inode_dentry_get.simps [simp del]

text \<open>
  \<^verbatim>\<open>inode_get_by_number\<close>: the result and the bytes of the inode at \<open>old\<close>, of which the read
  replaces as many as the on-disk inode has.
\<close>

definition ENOENT :: int where
  "ENOENT = 2"

definition inode_get_by_number :: "disk \<Rightarrow> super \<Rightarrow> u32 \<Rightarrow> bytes \<Rightarrow> (int \<times> bytes) res" where
  "inode_get_by_number dk st n old =
     (if n = 0 then Inr (- ENOENT, old)
      else
        let n = n - 1; sb = super_block st in
        rbind (super_group_inode_table_offset st n) (\<lambda>off.
        rbind (umod n (super_inodes_per_group sb)) (\<lambda>r.
        let off = off + ucast (r * super_inode_size sb) in
        rbind (disk_read dk off (min (ucast (super_inode_size sb)) (of_nat (sizeof ext4_inode_fields))))
          (\<lambda>bs. Inr (0, bs @ drop (length bs) old)))))"

section \<open>What the operations should return\<close>

text \<open>A context whose buffer holds the block it says.\<close>

definition ctx_ok :: "disk \<Rightarrow> ext4_super_block \<Rightarrow> ext4_inode \<Rightarrow> inode_dir_ctx \<Rightarrow> bool" where
  "ctx_ok dk sb inode ctx \<longleftrightarrow> dir_ctx_update dk sb inode (ctx_lblock ctx) = Inr ctx"

text \<open>The place of inode \<open>n\<close> on the device.\<close>

definition inode_pos :: "super \<Rightarrow> u32 \<Rightarrow> nat" where
  "inode_pos st n =
     (let ipg = unat (s_inodes_per_group (super_block st)); k = unat n - 1
      in unat (bg_inode_table_lo (gdesc_table st ! (k div ipg))) * bsize (super_block st)
         + k mod ipg * unat (s_inode_size (super_block st)))"

text \<open>
  A mounted file system: the superblock is well formed, the descriptor table is complete, an
  on-disk inode has at least the 128 bytes of ext2, and a group's inodes take less than 4 GiB.
\<close>

definition wf_mount :: "super \<Rightarrow> bool" where
  "wf_mount st \<longleftrightarrow> wf_super (super_block st) \<and>
     super_n_block_groups (super_block st) = Inr (of_nat (length (gdesc_table st))) \<and>
     length (gdesc_table st) < 4294967296 \<and>
     128 \<le> unat (s_inode_size (super_block st)) \<and>
     unat (s_inodes_per_group (super_block st)) * unat (s_inode_size (super_block st)) < 4294967296"

text \<open>Inode numbers whose inode lies on the device.\<close>

definition inode_on_disk :: "device \<Rightarrow> super \<Rightarrow> u32 \<Rightarrow> bool" where
  "inode_on_disk d st n \<longleftrightarrow> n \<noteq> 0 \<and>
     (unat n - 1) div unat (s_inodes_per_group (super_block st)) < length (gdesc_table st) \<and>
     inode_pos st n + min (unat (s_inode_size (super_block st))) 156 \<le> dev_size d"

definition inode_at :: "device \<Rightarrow> super \<Rightarrow> u32 \<Rightarrow> ext4_inode" where
  "inode_at d st n = inode_of (dev_bytes d (inode_pos st n) 128)"

text \<open>
  A well-formed directory: from offset \<open>off\<close> to the end of the file a chain of entries, each
  with its inode number, its name and the offset after it.
\<close>

inductive dir_list ::
    "disk \<Rightarrow> ext4_super_block \<Rightarrow> ext4_inode \<Rightarrow> nat \<Rightarrow> (u32 \<times> bytes \<times> nat) list \<Rightarrow> bool"
  for dk sb inode where
  finish: "dir_list dk sb inode off []" if "off = unat (inode_get_size inode)"
| entry: "dir_list dk sb inode off ((i, nm, off + unat r) # es)"
    if "off < unat (inode_get_size inode)"
      and "dir_ctx_update dk sb inode (of_nat (off div bsize sb)) = Inr c"
      and "dentry_rec_len (ctx_buf c) (off mod bsize sb) = Inr r" and "r \<noteq> 0"
      and "dentry_inode (ctx_buf c) (off mod bsize sb) = Inr i"
      and "dentry_name_len (ctx_buf c) (off mod bsize sb) = Inr n"
      and "dentry_name (ctx_buf c) (off mod bsize sb) (unat n) = Inr nm"
      and "dir_list dk sb inode (off + unat r) es"

inductive_cases dir_list_NilE: "dir_list dk sb inode off []"
inductive_cases dir_list_ConsE: "dir_list dk sb inode off ((i, nm, o') # es)"

section \<open>Reading inodes\<close>

lemma inode_of_prefix:
  assumes "112 \<le> length bs"
  shows "inode_of (bs @ rest) = inode_of bs"
  using assms by (simp add: inode_of_eq le16_def le32_def)

lemma inode_of_dev:
  assumes "112 \<le> n" shows "inode_of (dev_bytes d off n) = inode_of (dev_bytes d off 112)"
  using inode_of_prefix [of "dev_bytes d off 112" "dev_bytes d (off + 112) (n - 112)"] assms
    dev_bytes_add [of d off 112 "n - 112"] by simp

lemma inode_off:
  assumes wf: "wf_mount st" and on: "inode_on_disk d st n"
  obtains off where "super_group_inode_table_offset st (n - 1) = Inr off"
    and "unat (off + ucast (((n - 1) mod s_inodes_per_group (super_block st)) * super_inode_size (super_block st))) =
      inode_pos st n" and "inode_pos st n < 9223372036854775808"
proof -
  let ?sb = "super_block st" let ?ipg = "unat (s_inodes_per_group ?sb)" and ?isz = "unat (s_inode_size ?sb)"
  have sb: "wf_super ?sb" and g: "super_n_block_groups ?sb = Inr (of_nat (length (gdesc_table st)))"
    "length (gdesc_table st) < 4294967296" "?ipg * ?isz < 4294967296"
    using wf by (simp_all add: wf_mount_def)
  have n1: "unat (n - 1) = unat n - 1"
    using on by (subst unat_sub_nowrap) (simp_all add: inode_on_disk_def word_le_nat_alt Suc_leI unat_gt_0)
  have grp: "unat (n - 1) div ?ipg < unat (of_nat (length (gdesc_table st)) :: u32)"
    using on g(2) n1 by (simp add: inode_on_disk_def unat_of_nat)
  obtain off where off: "super_group_inode_table_offset st (n - 1) = Inr off"
      "unat off = unat (bg_inode_table_lo (gdesc_table st ! ((unat n - 1) div ?ipg))) * bsize ?sb"
    using super_group_inode_table_offset_in [OF sb g(1) _ grp] g(2) n1 by (auto simp: unat_of_nat)
  have "0 < ?ipg" using sb by (simp add: wf_super_def unat_gt_0)
  then have "(unat n - 1) mod ?ipg * ?isz \<le> ?ipg * ?isz" by (intro mult_le_mono1) (simp add: less_imp_le)
  with g(3) have small: "(unat n - 1) mod ?ipg * ?isz < 4294967296" by linarith
  then have r: "unat (((n - 1) mod s_inodes_per_group ?sb) * super_inode_size ?sb) = (unat n - 1) mod ?ipg * ?isz"
    using n1 by (subst unat_mult_nowrap) (simp_all add: unat_mod super_inode_size_def)
  have "unat off \<le> 4294967296 * 65536"
    using off(2) unat_u32 bsize_bounds [OF sb] by (simp only:) (intro mult_le_mono, simp_all add: less_imp_le)
  moreover have pos: "inode_pos st n = unat off + (unat n - 1) mod ?ipg * ?isz"
    using off(2) by (simp add: inode_pos_def Let_def)
  moreover from calculation have
    "unat (off + ucast (((n - 1) mod s_inodes_per_group ?sb) * super_inode_size ?sb)) = inode_pos st n"
    using r small by (subst unat_add_nowrap) simp_all
  moreover have "inode_pos st n < 9223372036854775808" using calculation(1) pos small by linarith
  ultimately show thesis using that [OF off(1)] by blast
qed

lemma inode_get_by_number_in:
  assumes wf: "wf_mount st" and on: "inode_on_disk d st n"
  shows "\<exists>buf. inode_get_by_number (Some d) st n old = Inr (0, buf) \<and> inode_of buf = inode_at d st n"
proof -
  let ?sb = "super_block st" let ?isz = "unat (s_inode_size ?sb)"
  obtain off where off: "super_group_inode_table_offset st (n - 1) = Inr off"
      "unat (off + ucast (((n - 1) mod s_inodes_per_group ?sb) * super_inode_size ?sb)) = inode_pos st n"
      "inode_pos st n < 9223372036854775808"
    using inode_off [OF wf on] .
  let ?o = "off + ucast (((n - 1) mod s_inodes_per_group ?sb) * super_inode_size ?sb)"
  let ?s = "min (ucast (super_inode_size ?sb)) (of_nat (sizeof ext4_inode_fields)) :: u64"
  have s: "unat ?s = min ?isz 156"
    by (simp add: min_def word_le_nat_alt super_inode_size_def sizeof_structs)
  have "in_device d ?o ?s"
    using on off s by (simp add: in_device_def inode_on_disk_def MAX_RW_COUNT_def)
  then have rd: "disk_read (Some d) ?o ?s = Inr (dev_bytes d (inode_pos st n) (min ?isz 156))"
    using off(2) s by (simp add: disk_read_in)
  have nz: "s_inodes_per_group ?sb \<noteq> 0" "n \<noteq> 0"
    using wf on by (simp_all add: wf_mount_def wf_super_def inode_on_disk_def)
  have len: "112 \<le> min ?isz 156" using wf by (simp add: wf_mount_def)
  have "inode_of (dev_bytes d (inode_pos st n) (min ?isz 156) @ drop (min ?isz 156) old) = inode_at d st n"
    using len inode_of_dev [OF len, of d "inode_pos st n"] inode_of_dev [of 128 d "inode_pos st n"]
    by (simp add: inode_of_prefix inode_at_def)
  then show ?thesis using off(1) rd nz
    by (simp add: inode_get_by_number_def Let_def umod_nonzero super_inodes_per_group_def)
qed

section \<open>Directory entries at an offset\<close>

lemma sdiv_nonneg:
  assumes "unat (w :: u64) < 9223372036854775808"
  shows "sint w sdiv uint (b :: u32) = int (unat w div unat b)" "sint w smod uint b = int (unat w mod unat b)"
proof -
  have "int a sdiv int b = int (a div b)" for a b :: nat
    unfolding signed_divide_int_def by (cases "a = 0"; cases "b = 0") (simp_all add: zdiv_int)
  moreover have "int a smod int b = int (a mod b)" for a b :: nat
    unfolding signed_modulo_int_def by (cases "a = 0"; cases "b = 0") (simp_all add: zmod_int)
  ultimately show "sint w sdiv uint b = int (unat w div unat b)" "sint w smod uint b = int (unat w mod unat b)"
    using sint_u64_unat [OF assms] by (simp_all only: uint_nat)
qed

lemma ctx_ok_update: "dir_ctx_update dk sb inode l = Inr ctx \<Longrightarrow> ctx_ok dk sb inode ctx"
  by (simp add: ctx_ok_def dir_ctx_update_lblock)

lemma dentry_get_eq:
  assumes wf: "wf_super sb" and off: "unat offset < 9223372036854775808" and ctx: "ctx_ok dk sb inode ctx"
  shows "inode_dentry_get dk sb inode offset ctx =
    (if inode_get_size inode < offset then Inl AssertFail
     else if inode_get_size inode = offset then Inr (None, ctx)
     else rbind (dir_ctx_update dk sb inode (of_nat (unat offset div bsize sb)))
            (\<lambda>c. Inr (Some (unat offset mod bsize sb), c)))"
proof -
  let ?l = "of_nat (unat offset div bsize sb) :: u32" and ?b = "of_nat (unat offset mod bsize sb) :: u32"
  have l: "word_of_int (sint offset sdiv uint (super_block_size sb)) = ?l"
    and b: "word_of_int (sint offset smod uint (super_block_size sb)) = ?b"
    using sdiv_nonneg [OF off] by (simp_all add: bsize_def)
  have "unat offset mod bsize sb < 4294967296"
    using bsize_bounds [OF wf] mod_less_divisor [of "bsize sb" "unat offset"] by linarith
  then have ub: "unat ?b = unat offset mod bsize sb" by (simp add: unat_of_nat)
  have step: "inode_dentry_get dk sb inode offset c =
      ASSERT (inode_get_size inode \<ge> offset)
          (if inode_get_size inode = offset then Inr (None, c)
           else if ?l = ctx_lblock c then Inr (Some (unat offset mod bsize sb), c)
           else rbind (dir_ctx_update dk sb inode ?l) (\<lambda>ctx'. inode_dentry_get dk sb inode offset ctx'))" for c
    using block_size_nonzero [OF wf] ub
    by (subst inode_dentry_get.simps) (simp add: l b Let_def)
  consider (lt) "inode_get_size inode < offset" | (eq) "inode_get_size inode = offset"
    | (cached) "offset < inode_get_size inode" "?l = ctx_lblock ctx"
    | (load) "offset < inode_get_size inode" "?l \<noteq> ctx_lblock ctx" by fastforce
  then show ?thesis
  proof cases
    case lt
    then have "\<not> offset \<le> inode_get_size inode" by simp
    then show ?thesis using lt by (simp add: step [of ctx])
  next
    case eq
    then show ?thesis using step [of ctx] by simp
  next
    case cached
    then show ?thesis using step [of ctx] ctx
      by (simp add: ctx_ok_def less_imp_le order.strict_implies_not_eq order_less_not_sym)
  next
    case load
    have again: "dir_ctx_update dk sb inode ?l = Inr c \<Longrightarrow>
        inode_dentry_get dk sb inode offset c = Inr (Some (unat offset mod bsize sb), c)" for c
      using load(1) dir_ctx_update_lblock [of dk sb inode ?l c]
      by (simp add: step [of c] less_imp_le)
    show ?thesis using step [of ctx] load again
      by (cases "dir_ctx_update dk sb inode ?l")
        (simp_all add: less_imp_le order_less_not_sym)
  qed
qed

text \<open>Directories are read entry by entry.\<close>

lemma dir_list_bound: "dir_list dk sb inode off es \<Longrightarrow> off + length es \<le> unat (inode_get_size inode)"
proof (induction rule: dir_list.induct)
  case (entry off c r i n nm es)
  have "0 < unat r" using entry.hyps(4) by (simp add: unat_gt_0)
  then show ?case using entry.IH by simp
qed simp

lemma dentry_get_end:
  assumes "wf_super sb" "ctx_ok dk sb inode ctx" "unat offset < 9223372036854775808"
    and "dir_list dk sb inode (unat offset) []"
  shows "inode_dentry_get dk sb inode offset ctx = Inr (None, ctx)"
proof -
  have "inode_get_size inode = offset"
    using assms(4) by (auto elim: dir_list_NilE simp: word_unat_eq_iff)
  then show ?thesis using dentry_get_eq [OF assms(1,3,2)] by simp
qed

lemma dentry_get_entry:
  assumes "wf_super sb" "ctx_ok dk sb inode ctx" "unat offset < 9223372036854775808"
    and "dir_list dk sb inode (unat offset) ((i, nm, o') # es)"
  obtains c p r n where "inode_dentry_get dk sb inode offset ctx = Inr (Some p, c)" "ctx_ok dk sb inode c"
    "dentry_rec_len (ctx_buf c) p = Inr r" "dentry_inode (ctx_buf c) p = Inr i"
    "dentry_name_len (ctx_buf c) p = Inr n" "dentry_name (ctx_buf c) p (unat n) = Inr nm"
    "length nm = unat n" "o' = unat offset + unat r" "dir_list dk sb inode o' es"
  using assms(4)
proof (rule dir_list_ConsE)
  fix c r n
  assume a: "o' = unat offset + unat r" "unat offset < unat (inode_get_size inode)"
    "dir_ctx_update dk sb inode (of_nat (unat offset div bsize sb)) = Inr c"
    "dentry_rec_len (ctx_buf c) (unat offset mod bsize sb) = Inr r"
    "dentry_inode (ctx_buf c) (unat offset mod bsize sb) = Inr i"
    "dentry_name_len (ctx_buf c) (unat offset mod bsize sb) = Inr n"
    "dentry_name (ctx_buf c) (unat offset mod bsize sb) (unat n) = Inr nm"
    "dir_list dk sb inode (unat offset + unat r) es"
  have "inode_dentry_get dk sb inode offset ctx = Inr (Some (unat offset mod bsize sb), c)"
    using a(2,3) dentry_get_eq [OF assms(1,3,2)]
    by (auto simp: word_less_nat_alt word_unat_eq_iff)
  moreover have "length nm = unat n"
    using a(7) by (auto simp: dentry_name_def rd_def split: if_splits)
  ultimately show thesis using that a ctx_ok_update [OF a(3)] by blast
qed

end
