(* ===== verification/Read.thy ===== *)
theory Read
  imports Inode
begin

text \<open>
  Model of \<^verbatim>\<open>fuse/op_read.c\<close>: the truncation of a request at the end of the file, the read up
  to the first block boundary, and the loop over the runs of consecutive blocks.
\<close>

section \<open>op_read.c\<close>

definition truncate_size :: "ext4_inode \<Rightarrow> u64 \<Rightarrow> u64 \<Rightarrow> u64" where
  "truncate_size inode sz offset =
     (if offset \<ge> inode_get_size inode then 0
      else if offset + sz \<ge> inode_get_size inode then inode_get_size inode - offset
      else sz)"

text \<open>
  \<^verbatim>\<open>first_read\<close>: its result and the bytes stored. The caller has checked that the offset is
  not negative, so its division by the block size is the unsigned one.
\<close>

definition first_read :: "disk \<Rightarrow> ext4_super_block \<Rightarrow> ext4_inode \<Rightarrow> u64 \<Rightarrow> u64 \<Rightarrow> (u64 \<times> bytes) res" where
  "first_read dk sb inode sz offset =
     (let bs = ucast (super_block_size sb) :: u64 in
      rbind (udiv (offset + (sz - 1)) bs) (\<lambda>end_q.
      rbind (udiv offset bs) (\<lambda>start_q.
      rbind (umod offset bs) (\<lambda>off_r.
      let end_lblock = ucast end_q :: u32;
          start_lblock = ucast start_q :: u32;
          start_block_off = ucast off_r :: u32
      in
      if sz = 0 then Inr (0, [])
      else if start_block_off = 0 then Inr (0, [])
      else
        rbind (inode_get_data_pblock dk sb inode start_lblock) (\<lambda>(start_pblock, _).
        if start_lblock = end_lblock
        then rbind (disk_read dk (BLOCKS2BYTES sb start_pblock + ucast start_block_off) sz)
               (\<lambda>p. Inr (sz, p))
        else
          rbind (ALIGN_TO_BLOCKSIZE sb offset) (\<lambda>a.
          let size_to_block_end = a - offset in
          rbind (umod (offset + size_to_block_end) bs) (\<lambda>m.
          ASSERT (m = 0)
            (rbind (disk_read dk (BLOCKS2BYTES sb start_pblock + ucast start_block_off) size_to_block_end)
               (\<lambda>p. Inr (size_to_block_end, p))))))))))"

text \<open>One turn of the loop of \<^verbatim>\<open>op_read\<close>: the bytes stored, their number, \<^verbatim>\<open>extent_len\<close>.\<close>

definition read_step :: "disk \<Rightarrow> ext4_super_block \<Rightarrow> ext4_inode \<Rightarrow> u32 \<Rightarrow> u64 \<Rightarrow> (u64 \<times> bytes \<times> u32) res" where
  "read_step dk sb inode lblock todo =
     rbind (inode_get_data_pblock dk sb inode lblock) (\<lambda>(pblock, extent_len).
     if pblock \<noteq> 0
     then rbind (disk_ctx_create (BLOCKS2BYTES sb pblock) (ucast (super_block_size sb)) extent_len)
            (\<lambda>ctx. rbind (disk_ctx_read dk ctx todo) (\<lambda>(r, p, _). Inr (scast r, p, extent_len)))
     else let bytes = (if todo > ucast (super_block_size sb) then ucast (super_block_size sb) else todo)
          in Inr (bytes, replicate (unat bytes) 0, extent_len))"

lemma int_of_ssize: "ucast (scast (x :: u32) :: u64) = x"
proof (rule bit_word_eqI)
  fix n assume "n < LENGTH(32)"
  then have "31 \<le> n \<Longrightarrow> n = 31" by simp
  then show "bit (ucast (scast x :: u64) :: u32) n = bit x n" by (auto simp: bit_simps min_def)
qed

lemma disk_read_ret_count: "disk_read_ret dk whr sz = Inr (r, p) \<Longrightarrow> scast r = sz"
  by (auto simp: disk_read_ret_def Let_def ASSERT_eq_Inr int_of_ssize split: option.splits prod.splits)

lemma disk_ctx_read_count:
  "disk_ctx_read dk ctx sz = Inr (r, p, ctx') \<Longrightarrow> ctx_size ctx \<noteq> 0 \<and> scast r = min sz (ctx_size ctx)"
  by (auto simp: disk_ctx_read_def Let_def rbind_eq_Inr ASSERT_eq_Inr min_def
      dest!: disk_read_ret_count split: if_splits)

text \<open>Every turn makes progress and never reads more than is left to read.\<close>

lemma read_step_count:
  assumes "read_step dk sb inode lblock todo = Inr (n, p, len)" and "todo \<noteq> 0"
  shows "n \<le> todo" and "super_block_size sb \<noteq> 0 \<Longrightarrow> n \<noteq> 0"
proof -
  have "n \<le> todo \<and> (super_block_size sb \<noteq> 0 \<longrightarrow> n \<noteq> 0)"
    using assms
    by (auto simp: read_step_def Let_def rbind_eq_Inr min_def split: if_splits dest!: disk_ctx_read_count)
  then show "n \<le> todo" and "super_block_size sb \<noteq> 0 \<Longrightarrow> n \<noteq> 0" by simp_all
qed

text \<open>
  The loop of \<^verbatim>\<open>op_read\<close>: \<open>ret\<close> bytes have been read, \<open>out\<close> holds those of the loop. With a
  zero block size the division before the loop has trapped.
\<close>

function read_loop :: "disk \<Rightarrow> ext4_super_block \<Rightarrow> ext4_inode \<Rightarrow> u64 \<Rightarrow> u64 \<Rightarrow> u32 \<Rightarrow> bytes \<Rightarrow> (u64 \<times> bytes) res"
  where
  "read_loop dk sb inode sz ret lblock out =
     (if super_block_size sb = 0 then Inl DivByZero
      else if sz > ret
      then rbind (read_step dk sb inode lblock (sz - ret)) (\<lambda>(n, p, extent_len).
           read_loop dk sb inode sz (ret + n) (lblock + extent_len) (out @ p))
      else Inr (ret, out))"
  by pat_completeness auto
termination
proof (relation "measure (\<lambda>(dk, sb, inode, sz, ret, lblock, out). unat (sz - ret))", goal_cases)
  case 1
  show ?case by simp
next
  case (2 dk sb inode sz ret lblock out x n y p len)
  then have bs: "super_block_size sb \<noteq> 0" and lt: "ret < sz"
    and step: "read_step dk sb inode lblock (sz - ret) = Inr (n, p, len)" by simp_all
  have "sz - ret \<noteq> 0" using lt by auto
  then have n: "n \<le> sz - ret" "n \<noteq> 0" using read_step_count [OF step] bs by simp_all
  have "unat (sz - (ret + n)) = unat (sz - ret) - unat n"
    using unat_sub_nowrap [OF n(1)] by (simp add: algebra_simps)
  moreover have "0 < unat n" "unat n \<le> unat (sz - ret)"
    using n by (simp_all add: unat_gt_0 word_le_nat_alt)
  ultimately have "unat (sz - (ret + n)) < unat (sz - ret)" by simp
  then show ?case by simp
qed

declare read_loop.simps [simp del]

text \<open>
  \<^verbatim>\<open>op_read\<close>: the result as \<^verbatim>\<open>int\<close> and the bytes stored at \<^verbatim>\<open>buf\<close>. \<open>fh\<close> is \<^verbatim>\<open>fi->fh\<close>, passed on
  as a 32-bit inode number, and \<open>stack\<close> the content of the local inode before it is read.
\<close>

definition op_read :: "disk \<Rightarrow> super \<Rightarrow> bytes \<Rightarrow> u64 \<Rightarrow> u64 \<Rightarrow> u64 \<Rightarrow> (u32 \<times> bytes) res" where
  "op_read dk st stack sz offset fh =
     ASSERT (sint offset \<ge> 0)
       (rbind (inode_get_by_number dk st (ucast fh) stack) (\<lambda>(inode_get_ret, buf).
        if inode_get_ret < 0 then Inr (word_of_int inode_get_ret, [])
        else
          let inode = inode_of buf; sb = super_block st; size' = truncate_size inode sz offset in
          rbind (first_read dk sb inode size' offset) (\<lambda>(ret, p).
          rbind (udiv (offset + ret) (ucast (super_block_size sb))) (\<lambda>q.
          rbind (read_loop dk sb inode size' ret (ucast q) p) (\<lambda>(ret, out).
          ASSERT (size' = ret) (Inr (ucast ret, out)))))))"

section \<open>The content of a file\<close>

text \<open>
  The bytes of a file whose logical block \<open>l\<close> is the physical block \<open>f l\<close>, where 0 stands for a
  hole.
\<close>

definition file_byte :: "device \<Rightarrow> ext4_super_block \<Rightarrow> (nat \<Rightarrow> nat) \<Rightarrow> nat \<Rightarrow> u8" where
  "file_byte d sb f i =
     (let p = f (i div bsize sb) in if p = 0 then 0 else dev_byte d (p * bsize sb + i mod bsize sb))"

definition file_bytes :: "device \<Rightarrow> ext4_super_block \<Rightarrow> (nat \<Rightarrow> nat) \<Rightarrow> nat \<Rightarrow> nat \<Rightarrow> bytes" where
  "file_bytes d sb f off n = map (file_byte d sb f) [off ..< off + n]"

text \<open>How much of a request lies inside the file.\<close>

definition read_count :: "ext4_inode \<Rightarrow> nat \<Rightarrow> nat \<Rightarrow> nat" where
  "read_count inode sz off = min sz (unat (inode_get_size inode) - off)"

text \<open>
  The requests the code serves as intended: aligned ones, and unaligned ones that start in a
  mapped block and either stay inside it or start below 4 GiB.
\<close>

definition start_ok :: "ext4_super_block \<Rightarrow> (nat \<Rightarrow> nat) \<Rightarrow> nat \<Rightarrow> nat \<Rightarrow> bool" where
  "start_ok sb f off n \<longleftrightarrow> off mod bsize sb = 0 \<or>
     f (off div bsize sb) \<noteq> 0 \<and> (off < 4294967296 \<or> (off + n - 1) div bsize sb = off div bsize sb)"

lemma file_bytes_add: "file_bytes d sb f off (m + n) = file_bytes d sb f off m @ file_bytes d sb f (off + m) n"
proof -
  have "[off ..< off + (m + n)] = [off ..< off + m] @ [off + m ..< off + m + n]"
    using upt_add_eq_append [of off "off + m" n] by (simp add: add.assoc)
  then show ?thesis by (simp add: file_bytes_def)
qed

lemma file_bytes_split:
  "m \<le> n \<Longrightarrow> file_bytes d sb f off m @ file_bytes d sb f (off + m) (n - m) = file_bytes d sb f off n"
  using file_bytes_add [of d sb f off m "n - m"] by simp

lemma length_file_bytes [simp]: "length (file_bytes d sb f off n) = n"
  by (simp add: file_bytes_def)

lemma file_bytes_0 [simp]: "file_bytes d sb f off 0 = []"
  by (simp add: file_bytes_def)

text \<open>A run of consecutive blocks, from byte \<open>x\<close> of its first block.\<close>

lemma file_bytes_run:
  assumes bs: "0 < bsize sb" and run: "\<forall>j < n. f (l + j) = p + j" and p: "p \<noteq> 0"
    and m: "x + m \<le> n * bsize sb"
  shows "file_bytes d sb f (l * bsize sb + x) m = dev_bytes d (p * bsize sb + x) m"
proof (rule nth_equalityI)
  fix k assume "k < length (file_bytes d sb f (l * bsize sb + x) m)"
  then have k: "k < m" by simp
  let ?k = "x + k"
  have i: "(l * bsize sb + q) div bsize sb = l + q div bsize sb"
    "(l * bsize sb + q) mod bsize sb = q mod bsize sb" for q using bs by simp_all
  have "?k div bsize sb < n" using k m by (intro less_mult_imp_div_less) simp
  then have "f (l + ?k div bsize sb) = p + ?k div bsize sb" using run by blast
  then have "file_byte d sb f (l * bsize sb + ?k) = dev_byte d ((p + ?k div bsize sb) * bsize sb + ?k mod bsize sb)"
    unfolding file_byte_def i using p by simp
  also have "(p + ?k div bsize sb) * bsize sb + ?k mod bsize sb = p * bsize sb + ?k"
    by (simp add: algebra_simps)
  finally show "file_bytes d sb f (l * bsize sb + x) m ! k = dev_bytes d (p * bsize sb + x) m ! k"
    using k by (simp add: file_bytes_def nth_dev_bytes add.assoc)
qed simp

lemma file_bytes_hole:
  assumes bs: "0 < bsize sb" and "f l = 0" and m: "m \<le> bsize sb"
  shows "file_bytes d sb f (l * bsize sb) m = replicate m 0"
proof (rule nth_equalityI)
  fix k assume "k < length (file_bytes d sb f (l * bsize sb) m)"
  then have k: "k < m" by simp
  then have "(l * bsize sb + k) div bsize sb = l" using m bs by (intro div_nat_eqI) simp_all
  then show "file_bytes d sb f (l * bsize sb) m ! k = replicate m 0 ! k"
    using k assms(2) by (simp add: file_bytes_def file_byte_def)
qed simp

section \<open>Reading through a block map\<close>

text \<open>
  What \<^verbatim>\<open>op_read\<close> relies on: below the end of the file a look-up returns the physical block and
  the length of a run of consecutive blocks that starts there, all on the device.
\<close>

definition run_ok :: "device \<Rightarrow> ext4_super_block \<Rightarrow> (nat \<Rightarrow> nat) \<Rightarrow> nat \<Rightarrow> u64 \<Rightarrow> u32 \<Rightarrow> bool" where
  "run_ok d sb f l p n \<longleftrightarrow>
     unat p = f l \<and> 0 < unat n \<and> (unat p = 0 \<longrightarrow> unat n = 1) \<and>
     (unat p \<noteq> 0 \<longrightarrow> (\<forall>j < unat n. f (l + j) = unat p + j) \<and>
        (unat p + unat n) * bsize sb \<le> dev_size d \<and> (unat p + unat n) * bsize sb < 9223372036854775808)"

text \<open>One turn of the loop, over a hole and over a run of mapped blocks.\<close>

lemma read_step_hole:
  fixes todo :: u64
  assumes wf: "wf_super sb" and p: "inode_get_data_pblock (Some d) sb inode (of_nat l) = Inr (0, n)" "run_ok d sb f l 0 n"
  defines "m \<equiv> min (unat todo) (unat n * bsize sb)"
  shows "read_step (Some d) sb inode (of_nat l) todo = Inr (of_nat m, file_bytes d sb f (l * bsize sb) m, n)"
proof -
  let ?bs = "ucast (super_block_size sb) :: u64"
  have bs: "unat ?bs = bsize sb" "0 < bsize sb" using bsize_pos [OF wf] by (simp_all add: bsize_def)
  have "f l = 0" "unat n = 1" using p(2) by (simp_all add: run_ok_def)
  moreover have "?bs = of_nat (bsize sb)"
    using bs(1) bsize_bounds [OF wf] by (simp add: word_unat_eq_iff unat_of_nat)
  ultimately show ?thesis using p(1) bs
    by (auto simp: m_def read_step_def Let_def file_bytes_hole [OF bs(2)] word_less_nat_alt min_def)
qed

lemma read_step_run:
  assumes wf: "wf_super sb" and p: "inode_get_data_pblock (Some d) sb inode (of_nat l) = Inr (p, n)" "run_ok d sb f l p n" "p \<noteq> 0"
    and todo: "unat todo \<le> MAX_RW_COUNT"
  defines "m \<equiv> min (unat todo) (unat n * bsize sb)"
  shows "read_step (Some d) sb inode (of_nat l) todo = Inr (of_nat m, file_bytes d sb f (l * bsize sb) m, n)"
proof -
  let ?bs = "ucast (super_block_size sb) :: u64" and ?w = "BLOCKS2BYTES sb p"
  have bs: "unat ?bs = bsize sb" "0 < bsize sb" using bsize_pos [OF wf] by (simp_all add: bsize_def)

  have n: "0 < unat n" using p(2) by (simp add: run_ok_def)
  have pz: "unat p \<noteq> 0" using p(3) by (simp add: unat_eq_zero)
  have run: "\<forall>j < unat n. f (l + j) = unat p + j"
    and dev: "(unat p + unat n) * bsize sb \<le> dev_size d" "(unat p + unat n) * bsize sb < 9223372036854775808"
    using p(2) pz unfolding run_ok_def by blast+
  have m: "m \<le> unat todo" "m \<le> unat n * bsize sb" by (simp_all add: m_def)
  have split: "unat p * bsize sb + unat n * bsize sb = (unat p + unat n) * bsize sb" by (simp add: algebra_simps)
  have w: "unat ?w = unat p * bsize sb"
    using dev(2) split by (intro unat_BLOCKS2BYTES) simp
  have sz: "unat (?bs * ucast n) = unat n * bsize sb"
    using bs dev(2) split by (subst unat_mult_nowrap) (simp_all add: mult.commute)
  define t where "t = (if todo > ?bs * ucast n then ?bs * ucast n else todo)"
  have t1: "unat t = m" using sz by (simp add: t_def m_def word_less_nat_alt min_def)
  note t = t1 eq_of_nat [OF t1]
  have "unat p * bsize sb + m \<le> dev_size d" "unat p * bsize sb < 9223372036854775808" "m \<le> MAX_RW_COUNT"
    using dev split todo m by linarith+
  then have "in_device d ?w t" unfolding in_device_def t(1) w by simp
  then have rd: "disk_read_ret (Some d) ?w t = Inr (ucast t, dev_bytes d (unat p * bsize sb) m)"
    using disk_read_ret_in t(1) w by simp
  have cast: "scast (ucast (of_nat m :: u64) :: u32) = (of_nat m :: u64)"
    using todo m(1) by (intro int_return_value) (simp add: MAX_RW_COUNT_def)
  have nz: "?bs \<noteq> 0" "?bs * ucast n \<noteq> 0"
    using bs n sz by (auto simp: unat_eq_zero [symmetric] simp del: unat_eq_zero)
  have fb: "file_bytes d sb f (l * bsize sb) m = dev_bytes d (unat p * bsize sb) m"
    using file_bytes_run [OF bs(2) run pz, of 0 m] m(2) by simp
  have "disk_ctx_read (Some d) \<lparr>ctx_cur = ?w, ctx_size = ?bs * ucast n\<rparr> todo =
      Inr (ucast t, dev_bytes d (unat p * bsize sb) m,
           \<lparr>ctx_cur = ?w + scast (ucast t :: u32), ctx_size = ?bs * ucast n - scast (ucast t :: u32)\<rparr>)"
    using nz(2) rd by (cases "todo > ?bs * ucast n") (simp_all add: disk_ctx_read_def t_def)
  then show ?thesis
    using p(1,3) nz(1) cast t(2) fb by (simp add: read_step_def disk_ctx_create_def)
qed

text \<open>The read up to the first block boundary: the block numbers the code computes from the request.\<close>

lemma request_lblocks:
  fixes sz offset :: u64
  assumes wf: "wf_super sb" and sz: "0 < unat sz" "unat offset + unat sz \<le> 4294967296 * bsize sb"
  defines "bs \<equiv> ucast (super_block_size sb) :: u64"
  shows "unat (ucast (offset div bs) :: u32) = unat offset div bsize sb"
    and "unat (ucast ((offset + (sz - 1)) div bs) :: u32) = (unat offset + unat sz - 1) div bsize sb"
    and "unat (ucast (offset mod bs) :: u32) = unat offset mod bsize sb"
proof -
  let ?o = "unat offset" and ?b = "bsize sb"
  note b = bsize_pos [OF wf] bsize_bounds [OF wf]
  have ub: "unat bs = ?b" by (simp add: bsize_def bs_def)
  have "4294967296 * ?b \<le> 4294967296 * 65536" using b by (intro mult_le_mono) simp_all
  then have "?o + unat sz \<le> 281474976710656" using sz(2) by simp
  moreover have "unat (sz - 1) = unat sz - 1" using sz(1) by (intro unat_minus_one) auto
  ultimately have "unat (offset + (sz - 1)) = ?o + (unat sz - 1)" by (subst unat_add_nowrap) simp_all
  then have e: "unat (offset + (sz - 1)) = ?o + unat sz - 1" using sz(1) by simp
  have "(?o + unat sz - 1) div ?b < 4294967296" "?o div ?b < 4294967296"
    using sz by (intro less_mult_imp_div_less; linarith)+
  then show "unat (ucast (offset div bs) :: u32) = ?o div ?b"
    and "unat (ucast ((offset + (sz - 1)) div bs) :: u32) = (?o + unat sz - 1) div ?b"
    using e ub by (simp_all add: unat_ucast_down unat_div)
  have "?o mod ?b < 65536" using mod_less_divisor [OF b(1), of ?o] b by linarith
  then show "unat (ucast (offset mod bs) :: u32) = ?o mod ?b" using ub by (simp add: unat_ucast_down unat_mod)
qed

text \<open>A request stays in the block of its first byte exactly when it is no longer than the rest of that block.\<close>

lemma same_block_iff:
  fixes ofs n b :: nat
  assumes "0 < b" "0 < n"
  shows "(ofs + n - 1) div b = ofs div b \<longleftrightarrow> n \<le> b - ofs mod b"
proof -
  have r: "ofs mod b < b" using assms(1) by simp
  have "ofs + n - 1 = ofs div b * b + (ofs mod b + (n - 1))"
    using div_mult_mod_eq [of ofs b] assms(2) by linarith
  then have "(ofs + n - 1) div b = ofs div b + (ofs mod b + (n - 1)) div b"
    using assms(1) div_mult_self3 [of b "ofs div b" "ofs mod b + (n - 1)"] by simp
  moreover have "(ofs mod b + (n - 1)) div b = 0 \<longleftrightarrow> ofs mod b + (n - 1) < b" using assms(1) by (simp add: div_eq_0_iff)
  ultimately show ?thesis using r assms(2) by linarith
qed

text \<open>A read inside one mapped block.\<close>

lemma read_in_block:
  assumes wf: "wf_super sb" and run: "run_ok d sb f l p k" "f l \<noteq> 0"
    and x: "unat x < bsize sb" "unat s \<le> bsize sb - unat x"
  shows "disk_read (Some d) (BLOCKS2BYTES sb p + x) s = Inr (file_bytes d sb f (l * bsize sb + unat x) (unat s))"
proof -
  let ?b = "bsize sb"
  have r: "\<forall>j < unat k. f (l + j) = unat p + j" "0 < unat k" "unat p \<noteq> 0"
    and dev: "(unat p + unat k) * ?b \<le> dev_size d" "(unat p + unat k) * ?b < 9223372036854775808"
    using run unfolding run_ok_def by auto
  have one: "unat p * ?b + ?b \<le> (unat p + unat k) * ?b" using r(2) by (simp add: algebra_simps)
  have w: "unat (BLOCKS2BYTES sb p) = unat p * ?b" using dev(2) one by (intro unat_BLOCKS2BYTES) simp
  have w': "unat (BLOCKS2BYTES sb p + x) = unat p * ?b + unat x"
    using w x dev(2) one by (subst unat_add_nowrap) simp_all
  have "unat p * ?b + unat x < 9223372036854775808" "unat s \<le> 2147479552" "unat p * ?b + unat x + unat s \<le> dev_size d"
    using x bsize_bounds [OF wf] dev one by linarith+
  then have "in_device d (BLOCKS2BYTES sb p + x) s" unfolding in_device_def w' MAX_RW_COUNT_def by simp
  moreover have "?b \<le> unat k * ?b" using r(2) by simp
  then have "unat x + unat s \<le> unat k * ?b" using x by linarith
  then have "file_bytes d sb f (l * ?b + unat x) (unat s) = dev_bytes d (unat p * ?b + unat x) (unat s)"
    by (rule file_bytes_run [OF bsize_pos [OF wf] r(1,3)])
  ultimately show ?thesis using w' by (simp add: disk_read_in)
qed

text \<open>The distance to the next block boundary, as the code computes it below 4 GiB.\<close>

lemma align_rest:
  assumes wf: "wf_super sb" and o: "unat offset mod bsize sb \<noteq> 0" "unat offset < 4294967296"
  obtains a where "ALIGN_TO_BLOCKSIZE sb offset = Inr a" "a mod ucast (super_block_size sb) = 0"
    "a - offset = of_nat (bsize sb - unat offset mod bsize sb)" "unat (a - offset) = bsize sb - unat offset mod bsize sb"
proof -
  let ?o = "unat offset" and ?b = "bsize sb"
  obtain a where a: "ALIGN_TO_BLOCKSIZE sb offset = Inr a" "unat a = ?o div ?b * ?b + ?b"
    using ALIGN_TO_BLOCKSIZE_eq [OF wf, of offset] o by auto
  have "?o mod ?b < ?b" and "?o = ?o div ?b * ?b + ?o mod ?b" using bsize_pos [OF wf] by simp_all
  then have "?o \<le> unat a" "unat a - ?o = ?b - ?o mod ?b" using a(2) by linarith+
  then have d: "unat (a - offset) = ?b - ?o mod ?b" by (subst unat_sub_nowrap) (simp_all add: word_le_nat_alt)
  have "unat (a mod ucast (super_block_size sb)) = 0" using a(2) by (simp add: unat_mod bsize_def)
  then have "a mod ucast (super_block_size sb) = 0" by (simp add: unat_eq_zero)
  then show ?thesis using that [OF a(1) _ eq_of_nat [OF d] d] by simp
qed

text \<open>After the first read the request is done, or goes on at a block boundary.\<close>

lemma first_read_aligned:
  fixes ofs sz b :: nat
  defines "n \<equiv> (if ofs mod b = 0 then 0 else min sz (b - ofs mod b))"
  assumes b: "0 < b" and n: "n < sz"
  shows "ofs + n = (ofs + n) div b * b"
proof (cases "ofs mod b = 0")
  case True
  then show ?thesis using div_mult_mod_eq [of ofs b] by (simp add: n_def)
next
  case False
  have "ofs mod b < b" using b by simp
  moreover have "n = b - ofs mod b" using n False by (simp add: n_def)
  ultimately have "ofs + n = Suc (ofs div b) * b" using div_mult_mod_eq [of ofs b] by (simp only: mult_Suc)
  then show ?thesis using b by simp
qed

text \<open>The contract of a block map, and the read through any of them.\<close>

locale block_map =
  fixes valid :: "'g \<Rightarrow> device \<Rightarrow> ext4_super_block \<Rightarrow> ext4_inode \<Rightarrow> bool"
    and bm :: "'g \<Rightarrow> device \<Rightarrow> ext4_super_block \<Rightarrow> ext4_inode \<Rightarrow> nat \<Rightarrow> nat"
  assumes valid_super: "valid g d sb inode \<Longrightarrow> wf_super sb"
    and valid_size: "valid g d sb inode \<Longrightarrow> unat (inode_get_size inode) \<le> 4294967295 * bsize sb"
    and valid_run: "valid g d sb inode \<Longrightarrow> l * bsize sb < unat (inode_get_size inode) \<Longrightarrow>
      \<exists>p n. inode_get_data_pblock (Some d) sb inode (of_nat l) = Inr (p, n) \<and>
        run_ok d sb (bm g d sb inode) l p n"
begin

lemma read_step_ok:
  assumes v: "valid g d sb inode" and l: "l * bsize sb < unat (inode_get_size inode)"
    and todo: "unat todo \<le> MAX_RW_COUNT"
  shows "\<exists>m len. read_step (Some d) sb inode (of_nat l) todo =
      Inr (of_nat m, file_bytes d sb (bm g d sb inode) (l * bsize sb) m, len) \<and>
    m = min (unat todo) (unat len * bsize sb) \<and> 0 < unat len"
proof -
  have wf: "wf_super sb" using valid_super [OF v] .
  obtain p n where pn: "inode_get_data_pblock (Some d) sb inode (of_nat l) = Inr (p, n)"
      "run_ok d sb (bm g d sb inode) l p n"
    using valid_run [OF v l] by blast
  moreover have "0 < unat n" using pn(2) by (simp add: run_ok_def)
  ultimately show ?thesis
    using read_step_hole [OF wf] read_step_run [OF wf pn _ todo] by (cases "p = 0") blast+
qed

lemma read_loop_ok:
  assumes v: "valid g d sb inode" and sz: "unat sz \<le> MAX_RW_COUNT"
    and off: "off + unat sz \<le> unat (inode_get_size inode)"
    and l: "unat ret < unat sz \<Longrightarrow> off + unat ret = l * bsize sb" and ret: "unat ret \<le> unat sz"
  shows "read_loop (Some d) sb inode sz ret (of_nat l) out =
    Inr (sz, out @ file_bytes d sb (bm g d sb inode) (off + unat ret) (unat sz - unat ret))"
  using l ret
proof (induction "unat sz - unat ret" arbitrary: ret l out rule: less_induct)
  case less
  let ?f = "bm g d sb inode"
  have wf: "wf_super sb" using valid_super [OF v] .
  note bs = bsize_pos [OF wf] block_size_nonzero [OF wf]
  show ?case
  proof (cases "unat ret < unat sz")
    case False
    then have "unat ret = unat sz" using less.prems(2) by simp
    then have "ret = sz" by (simp add: word_unat_eq_iff)
    then show ?thesis using bs by (subst read_loop.simps) simp
  next
    case True
    have lb: "off + unat ret = l * bsize sb" using less.prems(1) [OF True] .
    have todo: "unat (sz - ret) = unat sz - unat ret"
      using True by (intro unat_sub_nowrap) (simp add: word_le_nat_alt)
    have "l * bsize sb < unat (inode_get_size inode)" using lb off True by linarith
    moreover have "unat (sz - ret) \<le> MAX_RW_COUNT" using todo sz by linarith
    ultimately obtain m len where st: "read_step (Some d) sb inode (of_nat l) (sz - ret) =
          Inr (of_nat m, file_bytes d sb ?f (l * bsize sb) m, len)"
        "m = min (unat (sz - ret)) (unat len * bsize sb)" "0 < unat len"
      using read_step_ok [OF v] by blast
    have m: "0 < m" "m \<le> unat sz - unat ret" using st(2,3) todo True bs(1) by simp_all
    have um: "unat (of_nat m :: u64) = m" using m(2) unat_u64 [of sz] by (simp add: unat_of_nat)
    have ret': "unat (ret + of_nat m) = unat ret + m"
      using um m(2) True unat_u64 [of sz] by (subst unat_add_nowrap) simp_all
    have nxt: "off + unat (ret + of_nat m) = (l + unat len) * bsize sb" if "unat (ret + of_nat m) < unat sz"
    proof -
      have "m = unat len * bsize sb" using st(2) that ret' todo by simp
      then show ?thesis using ret' lb by (simp add: algebra_simps)
    qed
    have "read_loop (Some d) sb inode sz ret (of_nat l) out =
        read_loop (Some d) sb inode sz (ret + of_nat m) (of_nat (l + unat len)) (out @ file_bytes d sb ?f (l * bsize sb) m)"
      using bs True st(1) by (subst read_loop.simps) (simp add: word_less_nat_alt)
    also have "\<dots> = Inr (sz, out @ file_bytes d sb ?f (l * bsize sb) m @
        file_bytes d sb ?f (off + unat (ret + of_nat m)) (unat sz - unat (ret + of_nat m)))"
      using m ret' True nxt by (subst less.hyps) simp_all
    also have "file_bytes d sb ?f (l * bsize sb) m @
        file_bytes d sb ?f (off + unat (ret + of_nat m)) (unat sz - unat (ret + of_nat m)) =
        file_bytes d sb ?f (off + unat ret) (unat sz - unat ret)"
      using file_bytes_split [OF m(2), of d sb ?f "off + unat ret"] lb [symmetric] ret' by (simp add: add.assoc)
    finally show ?thesis by simp
  qed
qed

lemma first_read_ok:
  assumes v: "valid g d sb inode" and sz: "0 < unat sz" "unat sz \<le> MAX_RW_COUNT"
    and off: "unat offset + unat sz \<le> unat (inode_get_size inode)"
    and st: "start_ok sb (bm g d sb inode) (unat offset) (unat sz)"
  defines "n \<equiv> (if unat offset mod bsize sb = 0 then 0 else min (unat sz) (bsize sb - unat offset mod bsize sb))"
  shows "first_read (Some d) sb inode sz offset =
    Inr (of_nat n, file_bytes d sb (bm g d sb inode) (unat offset) n)"
proof -
  let ?f = "bm g d sb inode" and ?bs = "ucast (super_block_size sb) :: u64" and ?o = "unat offset" and ?b = "bsize sb"
  let ?sl = "ucast (offset div ?bs) :: u32" and ?el = "ucast ((offset + (sz - 1)) div ?bs) :: u32"
    and ?so = "ucast (offset mod ?bs) :: u32"
  have wf: "wf_super sb" using valid_super [OF v] .
  have "unat offset + unat sz \<le> 4294967296 * ?b" using off valid_size [OF v] by linarith
  note lb = request_lblocks [OF wf sz(1) this]
  have szn: "sz \<noteq> 0" using sz(1) by auto
  note unf = first_read_def Let_def unat_udiv_bsize [OF wf, THEN conjunct1] unat_umod_bsize [OF wf, THEN conjunct1]
  show ?thesis
  proof (cases "?o mod ?b = 0")
    case True
    then have "?so = 0" using lb(3) by (simp add: unat_eq_zero [symmetric] del: unat_eq_zero)
    then show ?thesis using True szn by (simp add: unf n_def)
  next
    case False
    then have so0: "?so \<noteq> 0" using lb(3) by auto
    have "?o div ?b * ?b < unat (inode_get_size inode)"
      using div_times_less_eq_dividend [of ?o ?b] off sz(1) by linarith
    then obtain p k where pk: "inode_get_data_pblock (Some d) sb inode ?sl = Inr (p, k)" "run_ok d sb ?f (?o div ?b) p k"
      using valid_run [OF v] eq_of_nat [OF lb(1)] by metis
    have rd: "disk_read (Some d) (BLOCKS2BYTES sb p + ucast ?so) s = Inr (file_bytes d sb ?f ?o (unat s))"
      if "unat s \<le> ?b - ?o mod ?b" for s
      using read_in_block [OF wf pk(2), of "ucast ?so" s] that st False lb(3) bsize_pos [OF wf]
      by (simp add: start_ok_def)
    note same = same_block_iff [OF bsize_pos [OF wf] sz(1), of ?o]
    show ?thesis
    proof (cases "?sl = ?el")
      case True
      then have le: "unat sz \<le> ?b - ?o mod ?b" using lb(1,2) same by metis
      then have "n = unat sz" using False by (simp add: n_def)
      then show ?thesis using pk(1) rd [OF le] szn so0 True by (simp add: unf)
    next
      case cross: False
      then have ne: "(?o + unat sz - 1) div ?b \<noteq> ?o div ?b" using lb(1,2) by (metis word_unat_eq_iff)
      then have n: "n = ?b - ?o mod ?b" using same False by (simp add: n_def)
      have "?o < 4294967296" using st False ne by (simp add: start_ok_def)
      then obtain a where a: "ALIGN_TO_BLOCKSIZE sb offset = Inr a" "a mod ?bs = 0" "a - offset = of_nat n"
          "unat (a - offset) = n"
        using align_rest [OF wf False] unfolding n by blast
      then show ?thesis using pk(1) rd [of "a - offset"] n szn so0 cross by (simp add: unf)
    qed
  qed
qed

text \<open>The whole read, once the request is cut at the end of the file.\<close>

lemma truncated_read_ok:
  assumes v: "valid g d sb inode" and sz: "unat sz \<le> MAX_RW_COUNT"
    and off: "0 < unat sz \<Longrightarrow> unat offset + unat sz \<le> unat (inode_get_size inode)" "unat offset < 9223372036854775808"
    and st: "0 < unat sz \<Longrightarrow> start_ok sb (bm g d sb inode) (unat offset) (unat sz)"
  shows "rbind (first_read (Some d) sb inode sz offset) (\<lambda>(ret, p).
      rbind (udiv (offset + ret) (ucast (super_block_size sb))) (\<lambda>q.
      read_loop (Some d) sb inode sz ret (ucast q) p)) =
    Inr (sz, file_bytes d sb (bm g d sb inode) (unat offset) (unat sz))"
proof (cases "unat sz = 0")
  case True
  then have "sz = 0" by (simp add: unat_eq_zero)
  moreover have wf: "wf_super sb" using valid_super [OF v] .
  ultimately show ?thesis
    by (simp add: first_read_def Let_def unat_udiv_bsize [OF wf] unat_umod_bsize [OF wf]
        block_size_nonzero [OF wf] read_loop.simps)
next
  case False
  let ?f = "bm g d sb inode" and ?o = "unat offset" and ?b = "bsize sb"
  let ?bs = "ucast (super_block_size sb) :: u64"
  define n where "n = (if ?o mod ?b = 0 then 0 else min (unat sz) (?b - ?o mod ?b))"
  have wf: "wf_super sb" using valid_super [OF v] .
  note b = bsize_pos [OF wf]
  have pos: "0 < unat sz" using False by simp
  have first: "first_read (Some d) sb inode sz offset = Inr (of_nat n, file_bytes d sb ?f ?o n)"
    unfolding n_def by (rule first_read_ok [OF v pos sz off(1) [OF pos] st [OF pos]])
  have n: "n \<le> unat sz" by (simp add: n_def)
  then have un: "unat (of_nat n :: u64) = n" using sz by (simp add: unat_of_nat MAX_RW_COUNT_def)
  let ?l = "(?o + n) div ?b"
  have aligned: "n < unat sz \<Longrightarrow> ?o + n = ?l * ?b" using first_read_aligned [OF b] unfolding n_def by blast
  have sum: "unat (offset + of_nat n) = ?o + n"
    using un n sz off(2) by (subst unat_add_nowrap) (simp_all add: MAX_RW_COUNT_def)
  have "?o + n \<le> 4294967295 * ?b" using n off(1) [OF pos] valid_size [OF v] by linarith
  then have "?l \<le> 4294967295 * ?b div ?b" by (rule div_le_mono)
  then have "?l < 4294967296" using b by simp
  moreover have "unat ((offset + of_nat n) div ?bs) = ?l"
    using sum by (simp add: unat_div bsize_def)
  ultimately have "unat (ucast ((offset + of_nat n) div ?bs) :: u32) = ?l" by (simp add: unat_ucast_down)
  then have q: "(ucast ((offset + of_nat n) div ?bs) :: u32) = of_nat ?l" by (rule eq_of_nat)
  have "read_loop (Some d) sb inode sz (of_nat n) (of_nat ?l) (file_bytes d sb ?f ?o n) =
      Inr (sz, file_bytes d sb ?f ?o n @ file_bytes d sb ?f (?o + n) (unat sz - n))"
    using read_loop_ok [OF v sz off(1) [OF pos], of "of_nat n" ?l] un n aligned by simp
  also have "file_bytes d sb ?f ?o n @ file_bytes d sb ?f (?o + n) (unat sz - n) = file_bytes d sb ?f ?o (unat sz)"
    by (rule file_bytes_split [OF n])
  finally show ?thesis using first q by (simp add: unat_udiv_bsize [OF wf])
qed

lemma truncate_size_eq:
  assumes "unat offset < 9223372036854775808" "unat sz \<le> MAX_RW_COUNT"
  shows "unat (truncate_size inode sz offset) = read_count inode (unat sz) (unat offset)"
proof -
  have "unat (offset + sz) = unat offset + unat sz"
    using assms by (subst unat_add_nowrap) (simp_all add: MAX_RW_COUNT_def)
  then show ?thesis
    by (auto simp: truncate_size_def read_count_def word_le_nat_alt unat_sub_nowrap)
qed

theorem read_ok:
  assumes wf: "wf_mount st" and on: "inode_on_disk d st (ucast fh)"
    and v: "valid g d (super_block st) (inode_at d st (ucast fh))"
    and off: "unat offset < 9223372036854775808" and sz: "unat sz \<le> MAX_RW_COUNT"
    and n: "n = read_count (inode_at d st (ucast fh)) (unat sz) (unat offset)"
    and st: "0 < n \<Longrightarrow> start_ok (super_block st) (bm g d (super_block st) (inode_at d st (ucast fh))) (unat offset) n"
  shows "op_read (Some d) st stack sz offset fh =
    Inr (of_nat n, file_bytes d (super_block st) (bm g d (super_block st) (inode_at d st (ucast fh))) (unat offset) n)"
proof -
  let ?i = "inode_at d st (ucast fh)" and ?sb = "super_block st"
  let ?t = "truncate_size ?i sz offset"
  obtain buf where buf: "inode_get_by_number (Some d) st (ucast fh) stack = Inr (0, buf)" "inode_of buf = ?i"
    using inode_get_by_number_in [OF wf on] by blast
  have t: "unat ?t = n" using truncate_size_eq [OF off sz] n by simp
  have n': "n \<le> MAX_RW_COUNT" "0 < n \<Longrightarrow> unat offset + n \<le> unat (inode_get_size ?i)"
    using sz by (auto simp: n read_count_def)
  have body: "rbind (first_read (Some d) ?sb ?i ?t offset) (\<lambda>(ret, p).
      rbind (udiv (offset + ret) (ucast (super_block_size ?sb))) (\<lambda>q.
      read_loop (Some d) ?sb ?i ?t ret (ucast q) p)) =
    Inr (?t, file_bytes d ?sb (bm g d ?sb ?i) (unat offset) n)"
    using truncated_read_ok [OF v, of ?t offset] t n' off st by simp
  have tw: "?t = of_nat n" using t by (rule eq_of_nat)
  have "ucast (of_nat n :: u64) = (of_nat n :: u32)"
    using n'(1) by (simp add: word_unat_eq_iff unat_of_nat MAX_RW_COUNT_def unsigned_ucast_eq take_bit_nat_eq_self)
  moreover have "sint offset \<ge> 0" using off by (simp add: sint_ge_0_u64)
  moreover have "rbind (first_read (Some d) ?sb ?i ?t offset) (\<lambda>(ret, p).
      rbind (udiv (offset + ret) (ucast (super_block_size ?sb))) (\<lambda>q.
      rbind (read_loop (Some d) ?sb ?i ?t ret (ucast q) p) (\<lambda>(ret, out).
      ASSERT (?t = ret) (Inr (ucast ret, out))))) =
    rbind (rbind (first_read (Some d) ?sb ?i ?t offset) (\<lambda>(ret, p).
      rbind (udiv (offset + ret) (ucast (super_block_size ?sb))) (\<lambda>q.
      read_loop (Some d) ?sb ?i ?t ret (ucast q) p))) (\<lambda>(ret, out).
      ASSERT (?t = ret) (Inr (ucast ret :: u32, out)))"
    by (simp add: rbind_assoc split_def)
  ultimately show ?thesis using buf body tw by (simp add: op_read_def Let_def)
qed

end

section \<open>The two block maps\<close>

text \<open>
  Files with extents: every block below the end of the file lies in an extent or past all of
  them, and the extents lie on the device.
\<close>

definition ext_block :: "ext4_extent list \<Rightarrow> nat \<Rightarrow> nat" where
  "ext_block es l =
     (case find (\<lambda>e. unat (ee_block e) \<le> l \<and> l < ee_end e) es of
        None \<Rightarrow> 0
      | Some e \<Rightarrow> unat (ee_start_lo e) + (l - unat (ee_block e)))"

definition ext_on_disk :: "device \<Rightarrow> ext4_super_block \<Rightarrow> ext4_extent \<Rightarrow> bool" where
  "ext_on_disk d sb e \<longleftrightarrow> ee_start_lo e \<noteq> 0 \<and> unat (ee_start_lo e) + unat (ee_len e) < 4294967296 \<and>
     (unat (ee_start_lo e) + unat (ee_len e)) * bsize sb \<le> dev_size d"

definition ext_valid :: "nat \<times> ext4_extent list \<Rightarrow> device \<Rightarrow> ext4_super_block \<Rightarrow> ext4_inode \<Rightarrow> bool" where
  "ext_valid g d sb inode \<longleftrightarrow> wf_super sb \<and> i_flags inode AND EXT4_EXTENTS_FL \<noteq> 0 \<and>
     unat (inode_get_size inode) \<le> 4294967295 * bsize sb \<and>
     extent_tree (Some d) sb (i_block inode) (fst g) (snd g) \<and> fst g < EXTENT_FUEL \<and> wf_extents (snd g) \<and>
     (\<forall>e \<in> set (snd g). ext_on_disk d sb e) \<and>
     (\<forall>l. l * bsize sb < unat (inode_get_size inode) \<longrightarrow>
        (\<exists>e \<in> set (snd g). unat (ee_block e) \<le> l \<and> l < ee_end e) \<or> (\<forall>e \<in> set (snd g). ee_end e \<le> l))"

definition ext_bm :: "nat \<times> ext4_extent list \<Rightarrow> device \<Rightarrow> ext4_super_block \<Rightarrow> ext4_inode \<Rightarrow> nat \<Rightarrow> nat" where
  "ext_bm g d sb inode = ext_block (snd g)"

text \<open>Files with indirect blocks: the index blocks exist, and the data blocks lie on the device.\<close>

definition ind_bm :: "unit \<Rightarrow> device \<Rightarrow> ext4_super_block \<Rightarrow> ext4_inode \<Rightarrow> nat \<Rightarrow> nat" where
  "ind_bm g d sb inode l =
     (case ind_place sb l of
        None \<Rightarrow> 0
      | Some (slot, k, i) \<Rightarrow> unat (ind_lookup d sb k (le32 (i_block inode) (4 * slot)) i))"

definition ind_valid :: "unit \<Rightarrow> device \<Rightarrow> ext4_super_block \<Rightarrow> ext4_inode \<Rightarrow> bool" where
  "ind_valid g d sb inode \<longleftrightarrow> wf_super sb \<and> i_flags inode AND EXT4_EXTENTS_FL = 0 \<and>
     unat (inode_get_size inode) \<le> 4294967295 * bsize sb \<and>
     (\<forall>l. l * bsize sb < unat (inode_get_size inode) \<longrightarrow>
        (case ind_place sb l of
           None \<Rightarrow> False
         | Some (slot, k, i) \<Rightarrow> ind_ok d sb k (le32 (i_block inode) (4 * slot)) i) \<and>
        Suc (ind_bm g d sb inode l) * bsize sb \<le> dev_size d)"

lemma find_cover_nat:
  assumes "wf_extents es" "e \<in> set es" "unat (ee_block e) \<le> l" "l < ee_end e"
  shows "find (\<lambda>e. unat (ee_block e) \<le> l \<and> l < ee_end e) es = Some e"
  using assms
proof (induction es)
  case (Cons a es)
  show ?case
  proof (cases "e = a")
    case False
    with Cons.prems have "e \<in> set es" "ee_end a \<le> unat (ee_block e)" by (auto simp: wf_extents_def)
    then show ?thesis using Cons by (auto simp: wf_extents_def)
  qed (use Cons.prems in simp)
qed simp

lemma block_index:
  assumes "l * bsize sb < n" "n \<le> 4294967295 * bsize sb"
  shows "unat (of_nat l :: u32) = l"
proof -
  have "l * bsize sb < 4294967295 * bsize sb" using assms by linarith
  then have "l < 4294967295" by simp
  then show ?thesis by (simp add: unat_of_nat)
qed

lemma ext_run_past:
  assumes v: "ext_valid g d sb inode" and l: "unat (of_nat l :: u32) = l" and past: "\<forall>e \<in> set (snd g). ee_end e \<le> l"
  shows "inode_get_data_pblock (Some d) sb inode (of_nat l) = Inr (0, 1)" "run_ok d sb (ext_bm g d sb inode) l 0 1"
proof -
  have tree: "extent_tree (Some d) sb (i_block inode) (fst g) (snd g)" "wf_extents (snd g)" "fst g < EXTENT_FUEL"
    and fl: "i_flags inode AND EXT4_EXTENTS_FL \<noteq> 0" using v by (simp_all add: ext_valid_def)
  have "extent_get_pblock EXTENT_FUEL (Some d) sb (i_block inode) (of_nat l) = Inr (0, None)"
    using past l by (intro extent_past_end [OF tree(1,2) _ tree(3)]) simp
  then show "inode_get_data_pblock (Some d) sb inode (of_nat l) = Inr (0, 1)"
    using fl by (simp add: inode_get_data_pblock_def)
  have "find (\<lambda>e. unat (ee_block e) \<le> l \<and> l < ee_end e) (snd g) = None"
    using past by (auto simp: find_None_iff not_less)
  then show "run_ok d sb (ext_bm g d sb inode) l 0 1" by (simp add: ext_block_def run_ok_def ext_bm_def)
qed

lemma ext_run_covered:
  assumes v: "ext_valid g d sb inode" and l: "unat (of_nat l :: u32) = l"
    and cov: "e \<in> set (snd g)" "unat (ee_block e) \<le> l" "l < ee_end e"
  obtains p n where "inode_get_data_pblock (Some d) sb inode (of_nat l) = Inr (p, n)" "run_ok d sb (ext_bm g d sb inode) l p n"
proof -
  let ?es = "snd g"
  have tree: "extent_tree (Some d) sb (i_block inode) (fst g) ?es" "wf_extents ?es" "fst g < EXTENT_FUEL"
    and fl: "i_flags inode AND EXT4_EXTENTS_FL \<noteq> 0" and wf: "wf_super sb" and eo: "ext_on_disk d sb e"
    using v cov(1) by (simp_all add: ext_valid_def)
  have c: "covers e (of_nat l)" using cov l by (simp add: covers_def)
  have ee: "ee_end e < 4294967296" using tree(2) cov(1) by (simp add: wf_extents_def)
  obtain p n where pn: "found e (of_nat l) = (p, Some n)" "unat p = unat (ee_start_lo e) + (l - unat (ee_block e))"
      "unat n = ee_end e - l" "0 < unat n"
    using found_run [OF c ee] eo l by (auto simp: ext_on_disk_def)
  have "extent_get_pblock EXTENT_FUEL (Some d) sb (i_block inode) (of_nat l) = Inr (p, Some n)"
    using extent_covered [OF tree(1,2) cov(1) c tree(3)] pn(1) by simp
  then have "inode_get_data_pblock (Some d) sb inode (of_nat l) = Inr (p, n)"
    using fl by (simp add: inode_get_data_pblock_def)
  moreover have blk: "ext_block ?es (l + j) = unat p + j" if "j < unat n" for j
  proof -
    have "find (\<lambda>e. unat (ee_block e) \<le> l + j \<and> l + j < ee_end e) ?es = Some e"
      using that pn(3) cov by (intro find_cover_nat [OF tree(2)]) simp_all
    then show ?thesis using pn(2) cov(2) by (simp add: ext_block_def)
  qed
  have sum: "unat p + unat n = unat (ee_start_lo e) + unat (ee_len e)" using pn cov by (simp add: ee_end_def)
  have "(unat (ee_start_lo e) + unat (ee_len e)) * bsize sb \<le> 4294967296 * 65536"
    using eo bsize_bounds [OF wf] by (intro mult_le_mono) (simp_all add: ext_on_disk_def)
  moreover have "unat p \<noteq> 0" using pn(2) eo by (simp add: ext_on_disk_def unat_eq_zero)
  moreover have "ext_block ?es l = unat p" using blk [of 0] pn(4) by simp
  ultimately show thesis using that pn(4) eo blk sum by (simp add: run_ok_def ext_bm_def ext_on_disk_def)
qed

lemma ext_run:
  assumes v: "ext_valid g d sb inode" and l: "l * bsize sb < unat (inode_get_size inode)"
  shows "\<exists>p n. inode_get_data_pblock (Some d) sb inode (of_nat l) = Inr (p, n) \<and>
    run_ok d sb (ext_bm g d sb inode) l p n"
proof -
  have u: "unat (of_nat l :: u32) = l" using v by (intro block_index [OF l]) (simp add: ext_valid_def)
  have "(\<exists>e \<in> set (snd g). unat (ee_block e) \<le> l \<and> l < ee_end e) \<or> (\<forall>e \<in> set (snd g). ee_end e \<le> l)"
    using v l by (simp add: ext_valid_def)
  then show ?thesis using ext_run_past [OF v u] ext_run_covered [OF v u] by metis
qed

lemma ind_run:
  assumes v: "ind_valid g d sb inode" and l: "l * bsize sb < unat (inode_get_size inode)"
  shows "\<exists>p n. inode_get_data_pblock (Some d) sb inode (of_nat l) = Inr (p, n) \<and>
    run_ok d sb (ind_bm g d sb inode) l p n"
proof -
  have u: "unat (of_nat l :: u32) = l" using v by (intro block_index [OF l]) (simp add: ind_valid_def)
  have wf: "wf_super sb" and fl: "i_flags inode AND EXT4_EXTENTS_FL = 0" using v by (simp_all add: ind_valid_def)
  have body: "(case ind_place sb l of None \<Rightarrow> False
      | Some (slot, k, i) \<Rightarrow> ind_ok d sb k (le32 (i_block inode) (4 * slot)) i) \<and>
      Suc (ind_bm g d sb inode l) * bsize sb \<le> dev_size d" using v l by (simp add: ind_valid_def)
  then obtain slot k i where pl: "ind_place sb l = Some (slot, k, i)"
      and ok: "ind_ok d sb k (le32 (i_block inode) (4 * slot)) i" by (auto split: option.splits)
  let ?p = "ind_lookup d sb k (le32 (i_block inode) (4 * slot)) i"
  have bm: "ind_bm g d sb inode l = unat ?p" using pl by (simp add: ind_bm_def)
  have "unat (inode_get_size inode) \<le> align_up (unat (inode_get_size inode)) (bsize sb)"
    using dividend_less_div_times [OF bsize_pos [OF wf], of "unat (inode_get_size inode)"]
    by (simp add: align_up_cases bsize_pos [OF wf])
  then have "inode_get_data_pblock (Some d) sb inode (of_nat l) = Inr (ucast ?p, 1)"
    using l u pl ok by (intro ind_data_pblock [OF wf fl]) simp_all
  moreover have "Suc (unat ?p) * bsize sb \<le> 4294967296 * 65536"
    using unat_u32 [of ?p] bsize_bounds [OF wf] by (intro mult_le_mono) simp_all
  ultimately show ?thesis using body bm
    by (intro exI [of _ "ucast ?p"] exI [of _ 1]) (simp add: run_ok_def)
qed

interpretation extent_file: block_map ext_valid ext_bm
proof (unfold_locales, goal_cases)
  case (3 g d sb inode l)
  then show ?case by (rule ext_run)
qed (simp_all add: ext_valid_def)

interpretation indirect_file: block_map ind_valid ind_bm
proof (unfold_locales, goal_cases)
  case (3 g d sb inode l)
  then show ?case by (rule ind_run)
qed (simp_all add: ind_valid_def)

end
