(* ===== verification/Dcache.thy ===== *)
theory Dcache
  imports Prelude
begin

text \<open>
  Model of \<^verbatim>\<open>fuse/dcache.c\<close> and \<^verbatim>\<open>fuse/types/e4f_dcache.h\<close>: the tree of cached directory
  entries, with its circular sibling lists, in an explicit heap. Address 0 is the static
  \<^verbatim>\<open>root\<close>; \<^verbatim>\<open>calloc\<close> hands out the next address. A null pointer is \<open>None\<close>.
\<close>

section \<open>Data\<close>

definition DCACHE_ENTRY_NAME_LEN :: nat where
  "DCACHE_ENTRY_NAME_LEN = 40"

type_synonym ptr = "nat option"

record dcache_entry =
  childs :: ptr
  siblings :: ptr
  de_inode :: u32
  lru_count :: u16
  user_count :: u8
  de_name :: bytes

type_synonym dcache = "dcache_entry list"

definition zero_entry :: dcache_entry where
  "zero_entry = \<lparr>childs = None, siblings = None, de_inode = 0, lru_count = 0, user_count = 0,
     de_name = replicate DCACHE_ENTRY_NAME_LEN 0\<rparr>"

text \<open>The heap at start-up: the static root, zero-initialised.\<close>

definition dcache_start :: dcache where
  "dcache_start = [zero_entry]"

section \<open>dcache.c\<close>

definition dcache_init_root :: "u32 \<Rightarrow> dcache \<Rightarrow> int \<times> dcache" where
  "dcache_init_root n dc =
     (if de_inode (dc ! 0) \<noteq> 0 then (- 1, dc)
      else (0, dc[0 := (dc ! 0)\<lparr>de_inode := n, childs := None\<rparr>]))"

definition dcache_insert :: "dcache \<Rightarrow> ptr \<Rightarrow> bytes \<Rightarrow> nat \<Rightarrow> u32 \<Rightarrow> (ptr \<times> dcache) res" where
  "dcache_insert dc parent nm namelen n =
     (if namelen + 1 > DCACHE_ENTRY_NAME_LEN then Inr (None, dc)
      else
        ASSERT (parent = None \<longrightarrow> de_inode (dc ! 0) \<noteq> 0)
          (let p = (case parent of None \<Rightarrow> 0 | Some a \<Rightarrow> a);
               new = length dc;
               e = zero_entry\<lparr>de_name := (strncpy (de_name zero_entry) nm namelen)[namelen := 0],
                              de_inode := n\<rparr>
           in case childs (dc ! p) of
                None \<Rightarrow>
                  Inr (Some new,
                       dc[p := (dc ! p)\<lparr>childs := Some new\<rparr>] @ [e\<lparr>siblings := Some new\<rparr>])
              | Some c \<Rightarrow>
                  let dc1 = dc[c := (dc ! c)\<lparr>siblings := Some new\<rparr>] in
                  Inr (Some new,
                       dc1[p := (dc1 ! p)\<lparr>childs := Some new\<rparr>] @ [e\<lparr>siblings := siblings (dc ! c)\<rparr>])))"

text \<open>The test in the loop of \<^verbatim>\<open>dcache_lookup\<close>.\<close>

definition dcache_match :: "dcache_entry \<Rightarrow> bytes \<Rightarrow> nat \<Rightarrow> bool res" where
  "dcache_match e nm namelen =
     rbind (strncmp_eq (de_name e) nm namelen 0) (\<lambda>eq.
     if eq then rbind (rd 1 (!) (de_name e) namelen) (\<lambda>z. Inr (z = 0)) else Inr False)"

text \<open>
  The loop over the siblings, from \<open>iter\<close>, until \<open>first\<close> is met again. After as many turns as
  there are entries, a pointer has been seen twice and the loop never ends.
\<close>

fun dcache_scan :: "dcache \<Rightarrow> nat \<Rightarrow> bytes \<Rightarrow> nat \<Rightarrow> nat \<Rightarrow> nat \<Rightarrow> ptr res" where
  "dcache_scan dc first nm namelen 0 iter = Inl NoReturn"
| "dcache_scan dc first nm namelen (Suc fuel) iter =
     (if iter < length dc
      then rbind (dcache_match (dc ! iter) nm namelen) (\<lambda>m.
           if m then Inr (Some iter)
           else case siblings (dc ! iter) of
                  None \<Rightarrow> Inl OutOfBounds
                | Some next \<Rightarrow>
                    if next = first then Inr None
                    else dcache_scan dc first nm namelen fuel next)
      else Inl OutOfBounds)"

definition dcache_lookup :: "dcache \<Rightarrow> ptr \<Rightarrow> bytes \<Rightarrow> nat \<Rightarrow> (ptr \<times> dcache) res" where
  "dcache_lookup dc parent nm namelen =
     (let p = (case parent of None \<Rightarrow> 0 | Some a \<Rightarrow> a) in
      case childs (dc ! p) of
        None \<Rightarrow> Inr (None, dc)
      | Some c \<Rightarrow>
          rbind (dcache_scan dc c nm namelen (length dc) c) (\<lambda>r.
          case r of
            None \<Rightarrow> Inr (None, dc)
          | Some iter \<Rightarrow> Inr (Some iter, dc[p := (dc ! p)\<lparr>childs := Some iter\<rparr>])))"

definition dcache_get_inode :: "dcache \<Rightarrow> ptr \<Rightarrow> u32" where
  "dcache_get_inode dc entry = (case entry of None \<Rightarrow> de_inode (dc ! 0) | Some a \<Rightarrow> de_inode (dc ! a))"

section \<open>The invariant\<close>

text \<open>The name stored in an entry.\<close>

definition ename :: "dcache_entry \<Rightarrow> bytes" where
  "ename e = takeWhile (\<lambda>b. b \<noteq> 0) (de_name e)"

text \<open>A circular list: each element's sibling is the next one, the last one's the first.\<close>

definition circular :: "dcache \<Rightarrow> nat list \<Rightarrow> bool" where
  "circular dc ks \<longleftrightarrow>
     (\<forall>i < length ks. siblings (dc ! (ks ! i)) = Some (ks ! (Suc i mod length ks)))"

text \<open>
  \<open>kids p\<close> lists the children of \<open>p\<close> in sibling order from \<^verbatim>\<open>p->childs\<close>. Every entry but the
  root is the child of one entry at most.
\<close>

definition dc_inv :: "dcache \<Rightarrow> (nat \<Rightarrow> nat list) \<Rightarrow> bool" where
  "dc_inv dc kids \<longleftrightarrow>
     dc \<noteq> [] \<and> de_inode (dc ! 0) \<noteq> 0 \<and>
     (\<forall>p. kids p \<noteq> [] \<longrightarrow> p < length dc) \<and>
     (\<forall>p < length dc. childs (dc ! p) = (case kids p of [] \<Rightarrow> None | c # _ \<Rightarrow> Some c)) \<and>
     (\<forall>p. circular dc (kids p)) \<and>
     (\<forall>p. distinct (kids p) \<and> set (kids p) \<subseteq> {1 ..< length dc}) \<and>
     (\<forall>p q. p \<noteq> q \<longrightarrow> set (kids p) \<inter> set (kids q) = {}) \<and>
     (\<forall>k < length dc. length (de_name (dc ! k)) = DCACHE_ENTRY_NAME_LEN \<and> 0 \<in> set (de_name (dc ! k)))"

text \<open>What the cache says: the children of an entry with their names.\<close>

definition children :: "dcache \<Rightarrow> (nat \<Rightarrow> nat list) \<Rightarrow> nat \<Rightarrow> (bytes \<times> nat) set" where
  "children dc kids p = (\<lambda>k. (ename (dc ! k), k)) ` set (kids p)"

definition addr :: "ptr \<Rightarrow> nat" where
  "addr q = (case q of None \<Rightarrow> 0 | Some a \<Rightarrow> a)"

text \<open>
  The heap after an insertion under \<open>p\<close>, whose children are \<open>ks\<close>: the new entry, with the name
  and inode given, is the head of the sibling list and the old head goes to its end.
\<close>

definition inserted :: "dcache \<Rightarrow> nat \<Rightarrow> nat list \<Rightarrow> bytes \<Rightarrow> nat \<Rightarrow> u32 \<Rightarrow> dcache" where
  "inserted dc p ks nm n ino =
     (let new = length dc;
          d1 = (case ks of [] \<Rightarrow> dc | c # _ \<Rightarrow> dc[c := (dc ! c)\<lparr>siblings := Some new\<rparr>])
      in d1[p := (d1 ! p)\<lparr>childs := Some new\<rparr>] @
           [zero_entry\<lparr>de_name := (strncpy (de_name zero_entry) nm n)[n := 0], de_inode := ino,
              siblings := (case ks of [] \<Rightarrow> Some new | c # _ \<Rightarrow> siblings (dc ! c))\<rparr>])"

text \<open>The allocated entries, and the children of an entry under a name.\<close>

definition dc_has :: "dcache \<Rightarrow> ptr \<Rightarrow> bool" where
  "dc_has dc q \<longleftrightarrow> addr q < length dc"

definition dc_named :: "dcache \<Rightarrow> (nat \<Rightarrow> nat list) \<Rightarrow> ptr \<Rightarrow> bytes \<Rightarrow> ptr set" where
  "dc_named dc kids p nm = Some ` {k \<in> set (kids (addr p)). ename (dc ! k) = nm}"

section \<open>String comparison\<close>

lemma dcache_match_iff:
  assumes e: "0 \<in> set (de_name e)" and nm: "n \<le> length nm" "0 \<notin> set (take n nm)"
  shows "dcache_match e nm n = Inr (ename e = take n nm)"
proof -
  have eq: "strncmp_eq (de_name e) nm n 0 = Inr (take n nm = take n (ename e))"
    using strncmp_eq_prefix [of "de_name e" 0 n nm] e nm by (simp add: ename_def)
  have wl: "length (ename e) < length (de_name e)" and w0: "de_name e ! length (ename e) = 0"
    using terminator [OF e] by (simp_all add: ename_def)
  show ?thesis
  proof (cases "take n nm = take n (ename e)")
    case True
    then have n: "n \<le> length (ename e)"
      using nm(1) arg_cong [OF True, of length] unfolding length_take by linarith
    have "de_name e ! n = 0 \<longleftrightarrow> n = length (ename e)"
    proof
      assume z: "de_name e ! n = 0"
      show "n = length (ename e)"
      proof (rule ccontr)
        assume "n \<noteq> length (ename e)"
        with n have lt: "n < length (ename e)" by simp
        then have "ename e ! n \<in> set (ename e)" by (rule nth_mem)
        moreover have "ename e ! n = de_name e ! n" using lt by (simp add: ename_def takeWhile_nth)
        ultimately show False using z by (auto simp: ename_def dest: set_takeWhileD)
      qed
    qed (simp add: w0)
    moreover have "n < length (de_name e)" using n wl by simp
    moreover have "n = length (ename e) \<longleftrightarrow> ename e = take n nm"
      using True n nm(1) length_take [of n nm] by (metis min.absorb2 take_all_iff order_refl)
    ultimately show ?thesis using True by (simp add: dcache_match_def eq rd_in)
  next
    case False
    then have "ename e \<noteq> take n nm" by auto
    with False show ?thesis by (simp add: dcache_match_def eq)
  qed
qed

section \<open>Lookup\<close>

lemma upd_childs [simp]:
  "p < length dc \<Longrightarrow> siblings (dc[p := (dc ! p)\<lparr>childs := c\<rparr>] ! k) = siblings (dc ! k)"
  "p < length dc \<Longrightarrow> de_name (dc[p := (dc ! p)\<lparr>childs := c\<rparr>] ! k) = de_name (dc ! k)"
  "p < length dc \<Longrightarrow> de_inode (dc[p := (dc ! p)\<lparr>childs := c\<rparr>] ! k) = de_inode (dc ! k)"
  "p < length dc \<Longrightarrow> childs (dc[p := (dc ! p)\<lparr>childs := c\<rparr>] ! k) = (if k = p then c else childs (dc ! k))"
  by (cases "k = p"; simp)+

lemma dcache_scan_find:
  assumes circ: "circular dc ks" and dist: "distinct ks"
    and ok: "\<forall>k \<in> set ks. k < length dc \<and> 0 \<in> set (de_name (dc ! k))"
    and nm: "n \<le> length nm" "0 \<notin> set (take n nm)"
    and i: "i < length ks" "length ks - i \<le> fuel"
  shows "dcache_scan dc (ks ! 0) nm n fuel (ks ! i) =
    Inr (find (\<lambda>k. ename (dc ! k) = take n nm) (drop i ks))"
  using i
proof (induction fuel arbitrary: i)
  case 0
  then show ?case by simp
next
  case (Suc fuel)
  have k: "ks ! i < length dc" and m: "dcache_match (dc ! (ks ! i)) nm n = Inr (ename (dc ! (ks ! i)) = take n nm)"
    using ok Suc.prems(1) nm by (simp_all add: dcache_match_iff)
  have sib: "siblings (dc ! (ks ! i)) = Some (ks ! (Suc i mod length ks))"
    using circ Suc.prems(1) by (simp add: circular_def)
  have split: "drop i ks = ks ! i # drop (Suc i) ks"
    using Suc.prems(1) by (simp add: Cons_nth_drop_Suc)
  show ?case
  proof (cases "Suc i = length ks")
    case True
    then show ?thesis using k m sib split by simp
  next
    case False
    then have lt: "Suc i < length ks" using Suc.prems(1) by simp
    then have "ks ! Suc i \<noteq> ks ! 0" using dist nth_eq_iff_index_eq [of ks "Suc i" 0] by force
    moreover have "dcache_scan dc (ks ! 0) nm n fuel (ks ! Suc i) =
        Inr (find (\<lambda>k. ename (dc ! k) = take n nm) (drop (Suc i) ks))"
      using lt Suc.prems(2) by (intro Suc.IH) simp_all
    ultimately show ?thesis using k m sib split lt by simp
  qed
qed

lemma circular_rotate: "circular dc ks \<Longrightarrow> circular dc (rotate m ks)"
  unfolding circular_def
proof (intro allI impI)
  fix i assume c: "\<forall>i < length ks. siblings (dc ! (ks ! i)) = Some (ks ! (Suc i mod length ks))"
    and "i < length (rotate m ks)"
  then have i: "i < length ks" by simp
  then have pos: "0 < length ks" by linarith
  have "siblings (dc ! (rotate m ks ! i)) = Some (ks ! (Suc ((m + i) mod length ks) mod length ks))"
    using c i pos by (simp add: nth_rotate)
  also have "Suc ((m + i) mod length ks) mod length ks = (m + Suc i mod length ks) mod length ks"
    by (simp add: mod_Suc_eq mod_add_right_eq)
  also have "ks ! \<dots> = rotate m ks ! (Suc i mod length ks)"
    using pos by (simp add: nth_rotate)
  finally show "siblings (dc ! (rotate m ks ! i)) = Some (rotate m ks ! (Suc i mod length (rotate m ks)))"
    by simp
qed

lemma dc_invD:
  assumes "dc_inv dc kids"
  shows "dc \<noteq> []" "de_inode (dc ! 0) \<noteq> 0" "circular dc (kids p)" "distinct (kids p)"
    "k \<in> set (kids p) \<Longrightarrow> 0 < k \<and> k < length dc"
    "p < length dc \<Longrightarrow> childs (dc ! p) = (case kids p of [] \<Rightarrow> None | c # _ \<Rightarrow> Some c)"
    "k < length dc \<Longrightarrow> length (de_name (dc ! k)) = DCACHE_ENTRY_NAME_LEN \<and> 0 \<in> set (de_name (dc ! k))"
    "kids p \<noteq> [] \<Longrightarrow> p < length dc"
    "p \<noteq> q \<Longrightarrow> set (kids p) \<inter> set (kids q) = {}"
proof -
  show "dc \<noteq> []" "de_inode (dc ! 0) \<noteq> 0" "circular dc (kids p)" "distinct (kids p)"
    "p < length dc \<Longrightarrow> childs (dc ! p) = (case kids p of [] \<Rightarrow> None | c # _ \<Rightarrow> Some c)"
    "k < length dc \<Longrightarrow> length (de_name (dc ! k)) = DCACHE_ENTRY_NAME_LEN \<and> 0 \<in> set (de_name (dc ! k))"
    "kids p \<noteq> [] \<Longrightarrow> p < length dc"
    "p \<noteq> q \<Longrightarrow> set (kids p) \<inter> set (kids q) = {}"
    using assms by (simp_all add: dc_inv_def)
  have "set (kids p) \<subseteq> {1 ..< length dc}" using assms by (simp add: dc_inv_def)
  then show "k \<in> set (kids p) \<Longrightarrow> 0 < k \<and> k < length dc" by force
qed

lemma kids_length: "dc_inv dc kids \<Longrightarrow> length (kids p) \<le> length dc"
proof -
  assume inv: "dc_inv dc kids"
  have "set (kids p) \<subseteq> {..< length dc}" using dc_invD(5) [OF inv] by blast
  then have "card (set (kids p)) \<le> length dc" using card_mono [of "{..< length dc}"] by simp
  then show ?thesis using dc_invD(4) [OF inv] by (simp add: distinct_card)
qed

text \<open>Moving \<^verbatim>\<open>p->childs\<close> along the sibling list.\<close>

lemma dc_inv_rotate:
  assumes inv: "dc_inv dc kids" and i: "i < length (kids p)"
  shows "dc_inv (dc[p := (dc ! p)\<lparr>childs := Some (kids p ! i)\<rparr>]) (kids(p := rotate i (kids p)))"
proof -
  have p: "p < length dc" using dc_invD(8) [OF inv, of p] i by fastforce
  have hd: "rotate i (kids p) \<noteq> []" "hd (rotate i (kids p)) = kids p ! i"
    using i hd_rotate_conv_nth [of "kids p" i] by fastforce+
  then have first: "(case rotate i (kids p) of [] \<Rightarrow> None | c # _ \<Rightarrow> Some c) = Some (kids p ! i)"
    by (cases "rotate i (kids p)") simp_all
  have circ: "circular (dc[p := (dc ! p)\<lparr>childs := Some (kids p ! i)\<rparr>]) ((kids(p := rotate i (kids p))) q)" for q
    using circular_rotate [OF dc_invD(3) [OF inv]] dc_invD(3) [OF inv] p by (simp add: circular_def)
  show ?thesis
    using inv p first circ unfolding dc_inv_def by (auto simp: split: if_splits)
qed

text \<open>A look-up finds the first child with the name, if any, and moves the list head to it.\<close>

lemma dcache_lookup_find:
  assumes inv: "dc_inv dc kids" and p: "addr parent < length dc"
    and nm: "n \<le> length nm" "0 \<notin> set (take n nm)"
  shows "dcache_lookup dc parent nm n =
    (case find (\<lambda>k. ename (dc ! k) = take n nm) (kids (addr parent)) of
       None \<Rightarrow> Inr (None, dc)
     | Some k \<Rightarrow> Inr (Some k, dc[addr parent := (dc ! addr parent)\<lparr>childs := Some k\<rparr>]))"
proof (cases "kids (addr parent)")
  case Nil
  then show ?thesis using dc_invD(6) [OF inv p] by (simp add: dcache_lookup_def flip: addr_def)
next
  case (Cons c cs)
  have "\<forall>k \<in> set (kids (addr parent)). k < length dc \<and> 0 \<in> set (de_name (dc ! k))"
    using dc_invD(5,7) [OF inv] by blast
  then have "dcache_scan dc c nm n (length dc) c =
      Inr (find (\<lambda>k. ename (dc ! k) = take n nm) (kids (addr parent)))"
    using dcache_scan_find [of dc "kids (addr parent)" n nm 0 "length dc"] nm
      dc_invD(3,4) [OF inv, of "addr parent"] kids_length [OF inv, of "addr parent"] Cons by simp
  then show ?thesis using dc_invD(6) [OF inv p] Cons
    by (simp add: dcache_lookup_def Let_def split: option.split flip: addr_def)
qed

section \<open>Insertion\<close>

lemma circular_insert:
  assumes c: "circular dc ks" and ne: "ks \<noteq> []" and d: "distinct ks"
    and new: "siblings (dc' ! new) = siblings (dc ! hd ks)"
    and hd: "siblings (dc' ! hd ks) = Some new"
    and rest: "\<forall>k \<in> set ks. k \<noteq> hd ks \<longrightarrow> siblings (dc' ! k) = siblings (dc ! k)"
  shows "circular dc' (new # rotate1 ks)"
  unfolding circular_def
proof (intro allI impI)
  let ?n = "length ks"
  fix i assume i: "i < length (new # rotate1 ks)"
  have pos: "0 < ?n" using ne by simp
  have old: "j < ?n \<Longrightarrow> siblings (dc ! (ks ! j)) = Some (ks ! (Suc j mod ?n))" for j
    using c by (simp add: circular_def)
  have nth: "j < ?n \<Longrightarrow> rotate1 ks ! j = ks ! (Suc j mod ?n)" for j
    by (simp add: nth_rotate1)
  show "siblings (dc' ! ((new # rotate1 ks) ! i)) =
      Some ((new # rotate1 ks) ! (Suc i mod length (new # rotate1 ks)))"
  proof (cases i)
    case 0
    then show ?thesis using new old [OF pos] nth [OF pos] ne by (simp add: hd_conv_nth)
  next
    case (Suc j)
    then have j: "j < ?n" using i by simp
    show ?thesis
    proof (cases "Suc j = ?n")
      case True
      then show ?thesis using Suc j nth hd ne by (simp add: hd_conv_nth)
    next
      case False
      then have sj: "Suc j < ?n" using j by simp
      have "ks ! Suc j \<noteq> hd ks"
        using d sj ne nth_eq_iff_index_eq [of ks "Suc j" 0] by (force simp: hd_conv_nth)
      then show ?thesis using Suc j sj nth [OF j] nth [OF sj] old [OF sj] rest by simp
    qed
  qed
qed

lemma ename_stored:
  assumes "n < DCACHE_ENTRY_NAME_LEN" "n \<le> length nm" "0 \<notin> set (take n nm)"
  shows "length ((strncpy (de_name zero_entry) nm n)[n := 0]) = DCACHE_ENTRY_NAME_LEN"
    and "0 \<in> set ((strncpy (de_name zero_entry) nm n)[n := 0])"
    and "takeWhile (\<lambda>b. b \<noteq> 0) ((strncpy (de_name zero_entry) nm n)[n := 0]) = take n nm"
proof -
  have "take n (takeWhile (\<lambda>b. b \<noteq> 0) nm) = take n nm"
  proof -
    have "takeWhile (\<lambda>b. b \<noteq> 0) (take n nm @ drop n nm) = take n nm @ takeWhile (\<lambda>b. b \<noteq> 0) (drop n nm)"
      using assms(3) by (intro takeWhile_append2) auto
    then show ?thesis using assms(2) by simp
  qed
  then have s: "(strncpy (de_name zero_entry) nm n)[n := 0] =
      take n nm @ replicate (DCACHE_ENTRY_NAME_LEN - n) 0"
    using assms by (auto simp: strncpy_def zero_entry_def list_update_append list_update_same_conv)
  show "length ((strncpy (de_name zero_entry) nm n)[n := 0]) = DCACHE_ENTRY_NAME_LEN"
    using assms by (simp add: s)
  show "0 \<in> set ((strncpy (de_name zero_entry) nm n)[n := 0])"
    using assms by (simp add: s)
  have "takeWhile (\<lambda>b. b \<noteq> 0) (take n nm) = take n nm"
    using assms(3) by (simp add: takeWhile_eq_all_conv) metis
  then show "takeWhile (\<lambda>b. b \<noteq> 0) ((strncpy (de_name zero_entry) nm n)[n := 0]) = take n nm"
    using assms(3) by (subst s, subst takeWhile_append2) auto
qed

lemma dcache_insert_eq:
  assumes inv: "dc_inv dc kids" and p: "addr parent < length dc" and n: "n < DCACHE_ENTRY_NAME_LEN"
  shows "dcache_insert dc parent nm n ino =
    Inr (Some (length dc), inserted dc (addr parent) (kids (addr parent)) nm n ino)"
  using dc_invD(6) [OF inv p] dc_invD(2) [OF inv] n
  by (simp add: dcache_insert_def inserted_def Let_def split: list.split flip: addr_def)

lemma inserted_nth:
  assumes p: "p < length dc" and ks: "set ks \<subseteq> {..< length dc}"
  shows "length (inserted dc p ks nm n ino) = Suc (length dc)"
    and "k < length dc \<Longrightarrow> de_name (inserted dc p ks nm n ino ! k) = de_name (dc ! k)"
    and "k < length dc \<Longrightarrow> de_inode (inserted dc p ks nm n ino ! k) = de_inode (dc ! k)"
    and "k < length dc \<Longrightarrow> childs (inserted dc p ks nm n ino ! k) =
      (if k = p then Some (length dc) else childs (dc ! k))"
    and "k < length dc \<Longrightarrow> siblings (inserted dc p ks nm n ino ! k) =
      (if ks \<noteq> [] \<and> k = hd ks then Some (length dc) else siblings (dc ! k))"
    and "inserted dc p ks nm n ino ! length dc =
      zero_entry\<lparr>de_name := (strncpy (de_name zero_entry) nm n)[n := 0], de_inode := ino,
        siblings := (if ks = [] then Some (length dc) else siblings (dc ! hd ks))\<rparr>"
  using assms by (cases ks; auto simp: inserted_def Let_def nth_append nth_list_update)+

lemma circular_inserted:
  assumes inv: "dc_inv dc kids" and p: "p < length dc"
  shows "circular (inserted dc p (kids p) nm n ino) ((kids(p := length dc # rotate1 (kids p))) q)"
    (is "circular ?dc (?kids q)")
proof -
  have sub: "set (kids q) \<subseteq> {..< length dc}" for q using dc_invD(5) [OF inv] by blast
  note nth = inserted_nth [OF p sub [of p], where nm = nm and n = n and ino = ino]
  show ?thesis
  proof (cases "q = p")
    case True
    show ?thesis
    proof (cases "kids p = []")
      case True
      then show ?thesis using \<open>q = p\<close> nth(6) by (simp add: circular_def)
    next
      case False
      have "hd (kids p) < length dc" using False sub [of p] hd_in_set by blast
      moreover have "k \<in> set (kids p) \<Longrightarrow> k < length dc" for k using sub [of p] by blast
      ultimately have "circular ?dc (length dc # rotate1 (kids p))"
        using False nth(5,6) by (intro circular_insert [OF dc_invD(3) [OF inv] False dc_invD(4) [OF inv]]) auto
      then show ?thesis using \<open>q = p\<close> by simp
    qed
  next
    case False
    have "i < length (kids q) \<Longrightarrow> kids q ! i < length dc \<and> kids q ! i \<notin> set (kids p)" for i
      using sub [of q] dc_invD(9) [OF inv False] nth_mem by blast
    then have "i < length (kids q) \<Longrightarrow> siblings (?dc ! (kids q ! i)) = siblings (dc ! (kids q ! i))" for i
      using nth(5) [of "kids q ! i"] hd_in_set [of "kids p"] by metis
    then show ?thesis using False dc_invD(3) [OF inv, of q] by (simp add: circular_def)
  qed
qed

lemma dc_inv_inserted:
  assumes inv: "dc_inv dc kids" and p: "p < length dc"
    and nm: "n < DCACHE_ENTRY_NAME_LEN" "n \<le> length nm" "0 \<notin> set (take n nm)"
  shows "dc_inv (inserted dc p (kids p) nm n ino) (kids(p := length dc # rotate1 (kids p)))"
    (is "dc_inv ?dc ?kids")
proof -
  have sub: "set (kids q) \<subseteq> {..< length dc}" for q using dc_invD(5) [OF inv] by blast
  note nth = inserted_nth [OF p sub [of p], where nm = nm and n = n and ino = ino]
  have kids0: "kids (length dc) = []" using dc_invD(8) [OF inv, of "length dc"] by auto
  have old: "kids q \<noteq> [] \<Longrightarrow> q < length dc" for q by (rule dc_invD(8) [OF inv])
  have circ: "circular ?dc (?kids q)" for q by (rule circular_inserted [OF inv p])
  have ch: "q < length ?dc \<Longrightarrow> childs (?dc ! q) = (case ?kids q of [] \<Rightarrow> None | c # _ \<Rightarrow> Some c)" for q
    using nth(1,4,6) dc_invD(6) [OF inv, of q] kids0 p
    by (cases "q = length dc") (auto simp: zero_entry_def)
  have names: "k < length ?dc \<Longrightarrow> length (de_name (?dc ! k)) = DCACHE_ENTRY_NAME_LEN \<and> 0 \<in> set (de_name (?dc ! k))" for k
    using nth(1,2,6) dc_invD(7) [OF inv, of k] ename_stored [OF nm]
    by (cases "k = length dc") auto
  have root: "?dc \<noteq> []" "de_inode (?dc ! 0) \<noteq> 0"
    using nth(1,3) dc_invD(1,2) [OF inv] by auto
  have kidset: "distinct (?kids q) \<and> set (?kids q) \<subseteq> {1 ..< length ?dc}" for q
  proof -
    have pos: "0 < length dc" using dc_invD(1) [OF inv] by simp
    have "set (kids q) \<subseteq> {1 ..< length dc}" using dc_invD(5) [OF inv, of _ q] by force
    then show ?thesis using dc_invD(4) [OF inv, of q] pos unfolding nth(1)
      by (auto simp: Suc_le_eq subset_iff)
  qed
  have disj: "q \<noteq> r \<Longrightarrow> set (?kids q) \<inter> set (?kids r) = {}" for q r
    using dc_invD(9) [OF inv, of q r] sub [of q] sub [of r] by auto
  have dom: "?kids q \<noteq> [] \<Longrightarrow> q < length ?dc" for q
    using old [of q] p nth(1) by (auto split: if_splits)
  show ?thesis
    unfolding dc_inv_def using circ ch names root kidset disj dom by blast
qed

lemma dcache_insert_too_long:
  "DCACHE_ENTRY_NAME_LEN \<le> n \<Longrightarrow> dcache_insert dc parent nm n ino = Inr (None, dc)"
  by (simp add: dcache_insert_def)

lemma dc_inv_init:
  assumes "n \<noteq> 0"
  shows "dcache_init_root n dcache_start = (0, [zero_entry\<lparr>de_inode := n\<rparr>])"
    and "dc_inv [zero_entry\<lparr>de_inode := n\<rparr>] (\<lambda>p. [])"
  using assms by (auto simp: dcache_init_root_def dcache_start_def zero_entry_def dc_inv_def circular_def
      DCACHE_ENTRY_NAME_LEN_def)

section \<open>The contract of the cache\<close>

text \<open>
  What \<^verbatim>\<open>inode.c\<close> relies on: a look-up changes nothing that can be observed and returns a child
  with the name asked for, or a null pointer when there is none; an insertion adds exactly one
  child, and does nothing for a name of \<open>limit\<close> bytes or more. \<open>named c g p nm\<close> is the set of
  the children of \<open>p\<close> with the name \<open>nm\<close>; \<open>g\<close> is the shape of the sibling lists.
\<close>

locale name_cache =
  fixes inv :: "'c \<Rightarrow> 'g \<Rightarrow> bool"
    and entry :: "'c \<Rightarrow> ptr \<Rightarrow> bool"
    and named :: "'c \<Rightarrow> 'g \<Rightarrow> ptr \<Rightarrow> bytes \<Rightarrow> ptr set"
    and ino :: "'c \<Rightarrow> ptr \<Rightarrow> u32"
    and look :: "'c \<Rightarrow> ptr \<Rightarrow> bytes \<Rightarrow> nat \<Rightarrow> (ptr \<times> 'c) res"
    and ins :: "'c \<Rightarrow> ptr \<Rightarrow> bytes \<Rightarrow> nat \<Rightarrow> u32 \<Rightarrow> (ptr \<times> 'c) res"
    and limit :: nat
  assumes entry_named: "inv c g \<Longrightarrow> k \<in> named c g p nm \<Longrightarrow> entry c k \<and> entry c p \<and> k \<noteq> None"
    and ino_addr: "addr p = addr q \<Longrightarrow> ino c p = ino c q"
    and look_law: "inv c g \<Longrightarrow> entry c p \<Longrightarrow> n \<le> length nm \<Longrightarrow> 0 \<notin> set (take n nm) \<Longrightarrow>
      \<exists>r c' g'. look c p nm n = Inr (r, c') \<and> inv c' g' \<and> entry c' = entry c \<and> ino c' = ino c \<and>
        named c' g' = named c g \<and>
        (if r = None then named c g p (take n nm) = {} else r \<in> named c g p (take n nm))"
    and ins_law: "inv c g \<Longrightarrow> entry c p \<Longrightarrow> n < limit \<Longrightarrow> n \<le> length nm \<Longrightarrow> 0 \<notin> set (take n nm) \<Longrightarrow>
      \<exists>r c' g'. ins c p nm n i = Inr (r, c') \<and> inv c' g' \<and> r \<noteq> None \<and> entry c' r \<and> ino c' r = i \<and>
        (\<forall>q. entry c q \<longrightarrow> entry c' q \<and> ino c' q = ino c q) \<and>
        (\<forall>q m. named c' g' q m =
           named c g q m \<union> (if addr q = addr p \<and> m = take n nm then {r} else {}))"
    and ins_long: "limit \<le> n \<Longrightarrow> ins c p nm n i = Inr (None, c)"
begin

text \<open>
  A cache is sound for a directory look-up \<open>fs\<close> when every cached child is what \<open>fs\<close> finds under
  its name.
\<close>

definition sound :: "(u32 \<Rightarrow> bytes \<Rightarrow> u32 option) \<Rightarrow> 'c \<Rightarrow> 'g \<Rightarrow> bool" where
  "sound fs c g \<longleftrightarrow> (\<forall>p nm. \<forall>k \<in> named c g p nm. fs (ino c p) nm = Some (ino c k))"

lemma look_sound:
  assumes "inv c g" "sound fs c g" "entry c p" "n \<le> length nm" "0 \<notin> set (take n nm)"
  shows "\<exists>r c' g'. look c p nm n = Inr (r, c') \<and> inv c' g' \<and> sound fs c' g' \<and>
    entry c' = entry c \<and> ino c' = ino c \<and>
    (r \<noteq> None \<longrightarrow> entry c' r \<and> fs (ino c p) (take n nm) = Some (ino c' r))"
proof -
  obtain r c' g' where r: "look c p nm n = Inr (r, c')" "inv c' g'" "entry c' = entry c" "ino c' = ino c"
      "named c' g' = named c g"
      "if r = None then named c g p (take n nm) = {} else r \<in> named c g p (take n nm)"
    using look_law [OF assms(1,3-5)] by blast
  moreover have "sound fs c' g'" using assms(2) r(4,5) by (simp add: sound_def)
  moreover have "r \<noteq> None \<Longrightarrow> entry c' r \<and> fs (ino c p) (take n nm) = Some (ino c' r)"
    using r assms(1,2) entry_named [OF assms(1)] by (auto simp: sound_def)
  ultimately show ?thesis by blast
qed

lemma ins_sound:
  assumes "inv c g" "sound fs c g" "entry c p" "n < limit" "n \<le> length nm" "0 \<notin> set (take n nm)"
    and fs: "fs (ino c p) (take n nm) = Some i"
  shows "\<exists>r c' g'. ins c p nm n i = Inr (r, c') \<and> inv c' g' \<and> sound fs c' g' \<and>
    entry c' r \<and> ino c' r = i \<and> (\<forall>q. entry c q \<longrightarrow> entry c' q \<and> ino c' q = ino c q)"
proof -
  obtain r c' g' where r: "ins c p nm n i = Inr (r, c')" "inv c' g'" "entry c' r" "ino c' r = i"
      "\<forall>q. entry c q \<longrightarrow> entry c' q \<and> ino c' q = ino c q"
      "\<forall>q m. named c' g' q m =
           named c g q m \<union> (if addr q = addr p \<and> m = take n nm then {r} else {})"
    using ins_law [OF assms(1,3-6)] by blast
  have "sound fs c' g'"
    unfolding sound_def
  proof (intro allI ballI)
    fix q m k assume k: "k \<in> named c' g' q m"
    show "fs (ino c' q) m = Some (ino c' k)"
    proof (cases "k \<in> named c g q m")
      case True
      then show ?thesis using assms(2) r(5) entry_named [OF assms(1) True] by (auto simp: sound_def)
    next
      case False
      then have "addr q = addr p" "m = take n nm" "k = r" using k r(6) by (auto split: if_splits)
      then show ?thesis
        using fs r(4,5) assms(3) ino_addr [of q p c'] by simp
    qed
  qed
  then show ?thesis using r by blast
qed

end

lemma get_inode_addr: "dcache_get_inode dc p = de_inode (dc ! addr p)"
  by (simp add: dcache_get_inode_def addr_def split: option.split)

lemma dcache_look_law:
  assumes inv: "dc_inv dc kids" and p: "dc_has dc p"
    and nm: "n \<le> length nm" "0 \<notin> set (take n nm)"
  shows "\<exists>r dc' kids'. dcache_lookup dc p nm n = Inr (r, dc') \<and> dc_inv dc' kids' \<and>
    dc_has dc' = dc_has dc \<and> dcache_get_inode dc' = dcache_get_inode dc \<and>
    dc_named dc' kids' = dc_named dc kids \<and>
    (if r = None then dc_named dc kids p (take n nm) = {} else r \<in> dc_named dc kids p (take n nm))"
proof (cases "find (\<lambda>k. ename (dc ! k) = take n nm) (kids (addr p))")
  case None
  then have "dcache_lookup dc p nm n = Inr (None, dc)"
    using dcache_lookup_find [OF inv _ nm, of p] p by (simp add: dc_has_def)
  moreover have "dc_named dc kids p (take n nm) = {}"
    using None by (auto simp: dc_named_def find_None_iff)
  ultimately show ?thesis using inv by (intro exI [of _ None] exI [of _ dc] exI [of _ kids]) simp
next
  case (Some k)
  then obtain i where i: "i < length (kids (addr p))" "k = kids (addr p) ! i" "ename (dc ! k) = take n nm"
    by (auto simp: find_Some_iff)
  let ?dc = "dc[addr p := (dc ! addr p)\<lparr>childs := Some k\<rparr>]" and ?kids = "kids(addr p := rotate i (kids (addr p)))"
  have pl: "addr p < length dc" using p by (simp add: dc_has_def)
  have "dcache_lookup dc p nm n = Inr (Some k, ?dc)"
    using dcache_lookup_find [OF inv _ nm, of p] pl Some by simp
  moreover have "dc_inv ?dc ?kids" using dc_inv_rotate [OF inv i(1)] i(2) by simp
  moreover have "dc_named ?dc ?kids = dc_named dc kids"
    using pl by (simp add: fun_eq_iff dc_named_def ename_def)
  moreover have "dc_has ?dc = dc_has dc" "dcache_get_inode ?dc = dcache_get_inode dc"
    using pl by (simp_all add: fun_eq_iff dc_has_def get_inode_addr)
  moreover have "Some k \<in> dc_named dc kids p (take n nm)" using i by (auto simp: dc_named_def)
  ultimately show ?thesis by (intro exI [of _ "Some k"] exI [of _ ?dc] exI [of _ ?kids]) simp
qed

lemma dcache_ins_law:
  assumes inv: "dc_inv dc kids" and p: "dc_has dc p"
    and nm: "n < DCACHE_ENTRY_NAME_LEN" "n \<le> length nm" "0 \<notin> set (take n nm)"
  shows "\<exists>r dc' kids'. dcache_insert dc p nm n i = Inr (r, dc') \<and> dc_inv dc' kids' \<and> r \<noteq> None \<and>
    dc_has dc' r \<and> dcache_get_inode dc' r = i \<and>
    (\<forall>q. dc_has dc q \<longrightarrow> dc_has dc' q \<and> dcache_get_inode dc' q = dcache_get_inode dc q) \<and>
    (\<forall>q m. dc_named dc' kids' q m =
       dc_named dc kids q m \<union> (if addr q = addr p \<and> m = take n nm then {r} else {}))"
proof -
  let ?dc = "inserted dc (addr p) (kids (addr p)) nm n i"
    and ?kids = "kids(addr p := length dc # rotate1 (kids (addr p)))"
  have pl: "addr p < length dc" using p by (simp add: dc_has_def)
  have sub: "set (kids q) \<subseteq> {..< length dc}" for q using dc_invD(5) [OF inv] by blast
  note nth = inserted_nth [OF pl sub [of "addr p"], where nm = nm and n = n and ino = i]
  have new: "ename (?dc ! length dc) = take n nm"
    using nth(6) ename_stored(3) [OF nm] by (simp add: ename_def)
  have old: "k \<in> set (kids q) \<Longrightarrow> ename (?dc ! k) = ename (dc ! k)" for k q
    using nth(2) sub [of q] by (auto simp: ename_def)
  have "dc_named ?dc ?kids q m =
       dc_named dc kids q m \<union> (if addr q = addr p \<and> m = take n nm then {Some (length dc)} else {})" for q m
    using new old by (auto simp: dc_named_def)
  moreover have "dc_inv ?dc ?kids" by (rule dc_inv_inserted [OF inv pl nm])
  moreover have "dcache_get_inode ?dc (Some (length dc)) = i" "dc_has ?dc (Some (length dc))"
    using nth(1,6) by (simp_all add: get_inode_addr addr_def dc_has_def)
  moreover have "dc_has dc q \<Longrightarrow> dc_has ?dc q \<and> dcache_get_inode ?dc q = dcache_get_inode dc q" for q
    using nth(1,3) by (simp add: get_inode_addr dc_has_def)
  ultimately show ?thesis
    using dcache_insert_eq [OF inv pl nm(1)]
    by (intro exI [of _ "Some (length dc)"] exI [of _ ?dc] exI [of _ ?kids]) simp
qed

interpretation dcache: name_cache dc_inv dc_has dc_named dcache_get_inode dcache_lookup
  dcache_insert DCACHE_ENTRY_NAME_LEN
proof (unfold_locales, goal_cases)
  case (1 c g k p nm)
  then obtain x where x: "k = Some x" "x \<in> set (g (addr p))" by (auto simp: dc_named_def)
  then have "g (addr p) \<noteq> []" by auto
  then show ?case using x dc_invD(5,8) [OF 1(1)] by (auto simp: dc_has_def addr_def)
next
  case (2 p q c)
  then show ?case by (simp add: get_inode_addr)
next
  case (3 c g p n nm)
  then show ?case by (rule dcache_look_law)
next
  case (4 c g p n nm i)
  then show ?case by (rule dcache_ins_law)
next
  case (5 n c p nm i)
  then show ?case by (rule dcache_insert_too_long)
qed


section \<open>Properties of the directory cache\<close>

text \<open>The states of the cache that the calls of \<^verbatim>\<open>inode.c\<close> lead to.\<close>

inductive dc_reach :: "dcache \<Rightarrow> bool" where
  start: "dc_reach dc" if "n \<noteq> 0" "dcache_init_root n dcache_start = (0, dc)"
| insert: "dc_reach dc'"
    if "dc_reach dc" "dc_has dc p" "n \<le> length nm" "0 \<notin> set (take n nm)"
      "dcache_insert dc p nm n i = Inr (r, dc')"
| lookup: "dc_reach dc'"
    if "dc_reach dc" "dc_has dc p" "n \<le> length nm" "0 \<notin> set (take n nm)"
      "dcache_lookup dc p nm n = Inr (r, dc')"

lemma dc_reach_inv: "dc_reach dc \<Longrightarrow> \<exists>kids. dc_inv dc kids"
proof (induction rule: dc_reach.induct)
  case (start n dc)
  then show ?case using dc_inv_init [of n] by auto
next
  case (insert dc p n nm i r dc')
  then obtain kids where inv: "dc_inv dc kids" by blast
  show ?case
  proof (cases "n < DCACHE_ENTRY_NAME_LEN")
    case True
    from dcache_ins_law [OF inv insert.hyps(2) True insert.hyps(3,4), of i] insert.hyps(5)
    show ?thesis by auto
  next
    case False
    then show ?thesis using dcache_insert_too_long [of n dc p nm i] insert.hyps(5) inv by auto
  qed
next
  case (lookup dc p n nm r dc')
  then obtain kids where inv: "dc_inv dc kids" by blast
  from dcache_look_law [OF inv lookup.hyps(2-4)] lookup.hyps(5) show ?case by auto
qed

text \<open>
  (C8) In every state that initialisation, insertions and lookups lead to, the cache is a tree whose
  sibling lists are closed rings without repetition, so that a lookup returns (the loop over
  the ring ends), reads no name out of bounds, and finds an entry exactly when the parent has a
  child of that name.
\<close>

theorem dcache_lookup_reachable:
  assumes "dc_reach dc" "dc_has dc p" "n \<le> length nm" "0 \<notin> set (take n nm)"
  shows "\<exists>kids r dc'. dc_inv dc kids \<and> dcache_lookup dc p nm n = Inr (r, dc') \<and>
    (if r = None then dc_named dc kids p (take n nm) = {} else r \<in> dc_named dc kids p (take n nm))"
  using dc_reach_inv [OF assms(1)] dcache_look_law [OF _ assms(2-4)] by blast

theorem dcache_lookup_reachable_witness:
  "\<exists>r dc'. dcache_lookup [zero_entry\<lparr>de_inode := 2\<rparr>] None [97] 1 = Inr (r, dc')"
  using dcache_lookup_reachable [OF dc_reach.start [OF _ dc_inv_init(1)], of 2 None 1 "[97]"]
  by (auto simp: dc_has_def addr_def)

lemma inserted_found:
  assumes inv: "dc_inv dc kids" and p: "dc_has dc p"
    and nm: "n < DCACHE_ENTRY_NAME_LEN" "n \<le> length nm" "0 \<notin> set (take n nm)"
  shows "\<exists>dc' dc''. dcache_insert dc p nm n i = Inr (Some (length dc), dc') \<and>
    dcache_lookup dc' p nm n = Inr (Some (length dc), dc'') \<and>
    dcache_get_inode dc'' (Some (length dc)) = i"
proof -
  let ?p = "addr p"
  let ?dc = "inserted dc ?p (kids ?p) nm n i" and ?kids = "kids(?p := length dc # rotate1 (kids ?p))"
  have lt: "?p < length dc" using p by (simp add: dc_has_def)
  have ks: "set (kids ?p) \<subseteq> {..< length dc}" using dc_invD(5) [OF inv] by auto
  note ins = inserted_nth [OF lt ks, where nm = nm and n = n and ino = i]
  have inv': "dc_inv ?dc ?kids" by (rule dc_inv_inserted [OF inv lt nm])
  have name: "ename (?dc ! length dc) = take n nm"
    using ename_stored(3) [OF nm] by (simp add: ins(6) ename_def)
  have "dcache_lookup ?dc p nm n = Inr (Some (length dc), ?dc[?p := (?dc ! ?p)\<lparr>childs := Some (length dc)\<rparr>])"
    using dcache_lookup_find [OF inv' _ nm(2,3), of p] lt name by (simp add: ins(1))
  moreover have "dcache_get_inode (?dc[?p := (?dc ! ?p)\<lparr>childs := Some (length dc)\<rparr>]) (Some (length dc)) = i"
    using lt by (simp add: dcache_get_inode_def ins(1,6))
  ultimately show ?thesis using dcache_insert_eq [OF inv lt nm(1)] by blast
qed

text \<open>
  An inserted entry is found: right after \<^verbatim>\<open>dcache_insert\<close> of a name of fewer than 40 bytes, the
  lookup of that name under the same parent returns the new entry with its inode number, also when
  the parent had an entry of that name before.
\<close>

theorem dcache_insert_lookup:
  assumes inv: "dc_inv dc kids" and p: "dc_has dc p"
    and nm: "n < DCACHE_ENTRY_NAME_LEN" "n \<le> length nm" "0 \<notin> set (take n nm)"
  shows "\<exists>dc' dc''. dcache_insert dc p nm n i = Inr (Some (length dc), dc') \<and>
    dcache_lookup dc' p nm n = Inr (Some (length dc), dc'') \<and>
    dcache_get_inode dc'' (Some (length dc)) = i"
  by (rule inserted_found [OF assms])

theorem dcache_insert_lookup_witness:
  "\<exists>dc' dc''. dcache_insert [zero_entry\<lparr>de_inode := 2\<rparr>] None [97] 1 7 = Inr (Some 1, dc') \<and>
    dcache_lookup dc' None [97] 1 = Inr (Some 1, dc'') \<and> dcache_get_inode dc'' (Some 1) = 7"
  using dcache_insert_lookup [OF dc_inv_init(2), of 2 None 1 "[97]" 7]
  by (simp add: dc_has_def addr_def DCACHE_ENTRY_NAME_LEN_def)

text \<open>
  (C38) A name of 40 bytes or more is not inserted and the null pointer is returned, which the caller
  uses as the parent of the next component: that component is then cached as a child of the root
  and found there, whatever directory it is in.
\<close>

theorem long_name_poisons_root:
  assumes inv: "dc_inv dc kids" and long: "DCACHE_ENTRY_NAME_LEN \<le> n"
    and nm: "m < DCACHE_ENTRY_NAME_LEN" "m \<le> length nm" "0 \<notin> set (take m nm)"
  shows "\<exists>r dc1 dc2 k dc3. dcache_insert dc p long n i = Inr (r, dc1) \<and>
    dcache_insert dc1 r nm m j = Inr (k, dc2) \<and>
    dcache_lookup dc2 None nm m = Inr (k, dc3) \<and> dcache_get_inode dc3 k = j"
proof -
  have "dc_has dc None" using dc_invD(1) [OF inv] by (simp add: dc_has_def addr_def)
  from inserted_found [OF inv this nm, of j] show ?thesis
    using dcache_insert_too_long [OF long] by blast
qed

theorem long_name_poisons_root_witness:
  "\<exists>r dc1 dc2 k dc3. dcache_insert [zero_entry\<lparr>de_inode := 2\<rparr>] None (replicate 40 97) 40 5 = Inr (r, dc1) \<and>
    dcache_insert dc1 r [98] 1 7 = Inr (k, dc2) \<and>
    dcache_lookup dc2 None [98] 1 = Inr (k, dc3) \<and> dcache_get_inode dc3 k = 7"
  by (rule long_name_poisons_root [OF dc_inv_init(2)]) (simp_all add: DCACHE_ENTRY_NAME_LEN_def)

end
