(* ===== verification/Refinement.thy ===== *)
theory Refinement
  imports Prelude
begin

text \<open>
  Components as machines: a step takes a state and a request and returns an answer and the next state, or faults. This
  theory holds what the developments of the file system and of the key-value store share: sequences of steps, a
  postcondition for values that are returned, and the contracts of a machine that refines another one and of a
  machine whose answers need no state.
\<close>

section \<open>Sequences of steps\<close>

fun run_steps :: "('t \<Rightarrow> 'p \<Rightarrow> ('o \<times> 't) res) \<Rightarrow> 't \<Rightarrow> 'p list \<Rightarrow> ('o list \<times> 't) res" where
  "run_steps step d [] = Inr ([], d)"
| "run_steps step d (p # ps) =
     rbind (step d p) (\<lambda>(r, d'). rbind (run_steps step d' ps) (\<lambda>(rs, d''). Inr (r # rs, d'')))"

text \<open>The same without a state.\<close>

fun answers :: "('q \<Rightarrow> 'r res) \<Rightarrow> 'q list \<Rightarrow> 'r list res" where
  "answers f [] = Inr []"
| "answers f (q # qs) = rbind (f q) (\<lambda>r. rbind (answers f qs) (\<lambda>rs. Inr (r # rs)))"

lemma answers_append:
  "answers f (qs @ ps) = rbind (answers f qs) (\<lambda>rs. rbind (answers f ps) (\<lambda>rs'. Inr (rs @ rs')))"
  by (induction qs) (simp_all add: rbind_assoc, simp add: rbind_def split: sum.split)

definition stateless :: "('q \<Rightarrow> 'r res) \<Rightarrow> unit \<Rightarrow> 'q \<Rightarrow> ('r \<times> unit) res" where
  "stateless f u q = rbind (f q) (\<lambda>r. Inr (r, ()))"

lemma run_stateless: "run_steps (stateless f) u qs = rbind (answers f qs) (\<lambda>rs. Inr (rs, ()))"
  by (induction qs) (simp_all add: stateless_def rbind_assoc)

section \<open>Values that are returned\<close>

definition ensures :: "'a res \<Rightarrow> ('a \<Rightarrow> bool) \<Rightarrow> bool" where
  "ensures m P \<longleftrightarrow> (case m of Inl f \<Rightarrow> True | Inr x \<Rightarrow> P x)"

lemma ensures_simps [simp]: "ensures (Inl f) P" "ensures (Inr x) P = P x"
  by (simp_all add: ensures_def)

lemma ensures_bind: "(\<And>x. m = Inr x \<Longrightarrow> ensures (f x) P) \<Longrightarrow> ensures (rbind m f) P"
  by (cases m) (simp_all add: ensures_def)

lemma ensures_mono: "ensures m P \<Longrightarrow> (\<And>x. P x \<Longrightarrow> Q x) \<Longrightarrow> ensures m Q"
  by (cases m) (simp_all add: ensures_def)

section \<open>Refinement\<close>

text \<open>A step simulates an abstract one: the same fault, or the same answer and states that are related again.\<close>

definition simulates :: "('s \<Rightarrow> 'a \<Rightarrow> bool) \<Rightarrow> ('r \<times> 'a) res \<Rightarrow> ('r \<times> 's) res \<Rightarrow> bool" where
  "simulates rel spec m \<longleftrightarrow>
     (case spec of Inl f \<Rightarrow> m = Inl f | Inr (r, a) \<Rightarrow> \<exists>s. m = Inr (r, s) \<and> rel s a)"

lemma simulates_Inr [simp]: "simulates rel (Inr (r, a)) m \<longleftrightarrow> (\<exists>s. m = Inr (r, s) \<and> rel s a)"
  by (simp add: simulates_def)

lemma simulates_Inl [simp]: "simulates rel (Inl f) m \<longleftrightarrow> m = Inl f"
  by (simp add: simulates_def)

lemma simulates_bind:
  assumes "simulates rel spec m" "\<And>r a s. spec = Inr (r, a) \<Longrightarrow> rel s a \<Longrightarrow> simulates rel' (f (r, a)) (g (r, s))"
  shows "simulates rel' (rbind spec f) (rbind m g)"
proof (cases spec)
  case (Inr ra)
  then obtain r a s where s: "ra = (r, a)" "m = Inr (r, s)" "rel s a" using assms(1) by (cases ra) auto
  then show ?thesis using assms(2) [of r a s] Inr by simp
qed (use assms(1) in simp)

locale refinement =
  fixes step :: "'s \<Rightarrow> 'q \<Rightarrow> ('r \<times> 's) res" and spec :: "'a \<Rightarrow> 'q \<Rightarrow> ('r \<times> 'a) res"
    and rel :: "'s \<Rightarrow> 'a \<Rightarrow> bool" and pre :: "'q \<Rightarrow> bool"
  assumes step_ok: "rel s a \<Longrightarrow> pre q \<Longrightarrow> simulates rel (spec a q) (step s q)"
begin

lemma run_ok: "rel s a \<Longrightarrow> list_all pre qs \<Longrightarrow> simulates rel (run_steps spec a qs) (run_steps step s qs)"
proof (induction qs arbitrary: s a)
  case (Cons q qs)
  have rest: "simulates rel (rbind (run_steps spec a' qs) (\<lambda>(rs, a''). Inr (r # rs, a'')))
      (rbind (run_steps step s' qs) (\<lambda>(rs, s''). Inr (r # rs, s'')))" if "rel s' a'" for r s' a'
    using Cons.IH [OF that] Cons.prems by (intro simulates_bind [where rel = rel]) auto
  have "simulates rel (spec a q) (step s q)" using step_ok Cons.prems by simp
  then show ?case unfolding run_steps.simps by (rule simulates_bind) (simp add: rest)
qed simp

text \<open>A run of the abstract machine that does not fault is one of the machine.\<close>

lemma run_answers:
  assumes "rel s a" "list_all pre qs" "run_steps spec a qs = Inr (rs, a')"
  obtains s' where "run_steps step s qs = Inr (rs, s')" "rel s' a'"
  using run_ok [OF assms(1,2)] assms(3) by auto

end

text \<open>
  A machine whose answers are those of a function: its state is a cache. \<open>good\<close> is the invariant of the state.
\<close>

definition implements :: "('s \<Rightarrow> bool) \<Rightarrow> 'r res \<Rightarrow> ('r \<times> 's) res \<Rightarrow> bool" where
  "implements good spec m \<longleftrightarrow> simulates (\<lambda>s _. good s) (rbind spec (\<lambda>r. Inr (r, ()))) m"

lemma implements_simps [simp]:
  "implements good (Inl f) m \<longleftrightarrow> m = Inl f" "implements good (Inr r) m \<longleftrightarrow> (\<exists>s. m = Inr (r, s) \<and> good s)"
  by (simp_all add: implements_def)

lemma implements_bind:
  assumes "implements good spec m"
  shows "implements good (rbind spec f) (rbind m (\<lambda>(r, s). rbind (f r) (\<lambda>x. Inr (x, s))))"
proof (cases spec)
  case (Inr r)
  then obtain s where "m = Inr (r, s)" "good s" using assms by auto
  then show ?thesis by (cases "f r") (simp_all add: Inr)
qed (use assms in simp)

lemma implements_same_bind:
  "(\<And>x. spec = Inr x \<Longrightarrow> implements good (f x) (g x)) \<Longrightarrow> implements good (rbind spec f) (rbind spec g)"
  by (cases spec) simp_all

lemma implements_mono: "implements good spec m \<Longrightarrow> (\<And>s. good s \<Longrightarrow> good' s) \<Longrightarrow> implements good' spec m"
  by (cases spec) auto

lemma implements_return: "good s \<Longrightarrow> implements good spec (rbind spec (\<lambda>r. Inr (r, s)))"
  by (cases spec) simp_all

locale service =
  fixes step :: "'s \<Rightarrow> 'q \<Rightarrow> ('r \<times> 's) res" and ans :: "'q \<Rightarrow> 'r res"
    and good :: "'s \<Rightarrow> bool" and pre :: "'q \<Rightarrow> bool"
  assumes ans_ok: "good s \<Longrightarrow> pre q \<Longrightarrow> implements good (ans q) (step s q)"
begin

sublocale refinement step "stateless ans" "\<lambda>s _. good s" pre
  by unfold_locales (use ans_ok in \<open>simp add: implements_def stateless_def\<close>)

lemma run_implements: "good s \<Longrightarrow> list_all pre qs \<Longrightarrow> implements good (answers ans qs) (run_steps step s qs)"
  using run_ok [of s qs "()"] by (simp add: implements_def run_stateless)

end

end
