(* ===== verification/Path.thy ===== *)
theory Path
  imports Inode Dcache Refinement
begin

text \<open>
  Model of the path look-up of \<^verbatim>\<open>fuse/inode.c\<close>: the splitting of a path into tokens, the walk
  through the entry cache, the scan of a directory and the walk over the remaining tokens.
  A \<^verbatim>\<open>char *\<close> into a path is the rest of the string, without its terminator.
\<close>

section \<open>inode.c\<close>

definition SLASH :: u8 where
  "SLASH = 47"

definition ROOT_INODE_N :: u32 where
  "ROOT_INODE_N = 2"

definition S_ISDIR :: "u16 \<Rightarrow> bool" where
  "S_ISDIR m \<longleftrightarrow> m AND 0xF000 = 0x4000"

text \<open>
  The loop of \<^verbatim>\<open>get_path_token_len\<close>. The counter has 8 bits: after 256 turns it is back at a
  position that was tested before, and the loop never ends.
\<close>

fun token_len :: "nat \<Rightarrow> bytes \<Rightarrow> u8 \<Rightarrow> u8 res" where
  "token_len 0 path len = Inl NoReturn"
| "token_len (Suc fuel) path len =
     (if cstr_at path (unat len) \<noteq> SLASH \<and> cstr_at path (unat len) \<noteq> 0
      then token_len fuel path (len + 1)
      else Inr len)"

definition get_path_token_len :: "bytes \<Rightarrow> u8 res" where
  "get_path_token_len path = token_len 256 path 0"

lemma get_path_token_len_Nil [simp]: "get_path_token_len [] = Inr 0"
  by (simp add: get_path_token_len_def cstr_at_def eval_nat_numeral)

text \<open>\<^verbatim>\<open>get_cached_inode_num\<close>: the entry, the rest of the path and the cache.\<close>

function cached_walk :: "dcache \<Rightarrow> ptr \<Rightarrow> bytes \<Rightarrow> (ptr \<times> bytes \<times> dcache) res" where
  "cached_walk dc next path =
     (let path = (if cstr_at path 0 = SLASH then drop 1 path else path) in
      rbind (get_path_token_len path) (\<lambda>path_len.
      if path_len = 0 then Inr (next, path, dc)
      else rbind (dcache_lookup dc next path (unat path_len)) (\<lambda>(nx, dc').
           if nx = None then Inr (next, path, dc')
           else cached_walk dc' nx (drop (unat path_len) path))))"
  by pat_completeness auto
termination
proof (relation "measure (\<lambda>(dc, next, path). length path)")
  show "wf (measure (\<lambda>(dc, next, path). length path))" by simp
next
  fix dc :: dcache and nx :: ptr and path q :: bytes and n :: u8
  assume q: "q = (if cstr_at path 0 = SLASH then drop 1 path else path)"
    and n: "get_path_token_len q = Inr n" "n \<noteq> 0"
  then have "q \<noteq> []" by auto
  moreover have "length q \<le> length path" by (simp add: q)
  moreover have "0 < unat n" using n(2) by (simp add: unat_gt_0)
  ultimately have "length (drop (unat n) q) < length path" by (cases q) auto
  then show "((dc', nx', drop (unat n) q), dc, nx, path) \<in> measure (\<lambda>(dc, next, path). length path)"
    for dc' nx' by simp
qed

declare cached_walk.simps [simp del]

definition get_cached_inode_num :: "dcache \<Rightarrow> bytes \<Rightarrow> (ptr \<times> bytes \<times> dcache) res" where
  "get_cached_inode_num dc path = cached_walk dc None path"

definition skip_trailing_backslash :: "bytes \<Rightarrow> bytes" where
  "skip_trailing_backslash path = dropWhile (\<lambda>c. c = SLASH) path"

text \<open>
  The loop over the entries of a directory, from \<open>offset\<close>. The offset has 32 bits and the state
  of the loop depends on it alone, so more than \<open>2^32\<close> turns meet an offset twice.
\<close>

definition DIR_FUEL :: nat where
  "DIR_FUEL = 4294967297"

fun dir_scan :: "nat \<Rightarrow> disk \<Rightarrow> ext4_super_block \<Rightarrow> ext4_inode \<Rightarrow> bytes \<Rightarrow> u8 \<Rightarrow> u32 \<Rightarrow> inode_dir_ctx \<Rightarrow>
    u32 option res" where
  "dir_scan 0 dk sb inode path path_len offset ctx = Inl NoReturn"
| "dir_scan (Suc fuel) dk sb inode path path_len offset ctx =
     rbind (inode_dentry_get dk sb inode (ucast offset) ctx) (\<lambda>(dentry, ctx).
     case dentry of
       None \<Rightarrow> Inr None
     | Some p \<Rightarrow>
         rbind (dentry_rec_len (ctx_buf ctx) p) (\<lambda>rec_len.
         let offset = offset + ucast rec_len in
         rbind (dentry_inode (ctx_buf ctx) p) (\<lambda>i.
         if i = 0 then dir_scan fuel dk sb inode path path_len offset ctx
         else
           rbind (dentry_name_len (ctx_buf ctx) p) (\<lambda>name_len.
           if path_len \<noteq> name_len then dir_scan fuel dk sb inode path path_len offset ctx
           else
             rbind (dentry_name (ctx_buf ctx) p (unat name_len)) (\<lambda>nm.
             if take (unat name_len) path \<noteq> nm
             then dir_scan fuel dk sb inode path path_len offset ctx
             else Inr (Some i))))))"

text \<open>\<^verbatim>\<open>strchr\<close>: the rest of the string from the first occurrence.\<close>

definition strchr :: "bytes \<Rightarrow> u8 \<Rightarrow> bytes option" where
  "strchr s c = (case dropWhile (\<lambda>b. b \<noteq> c) s of [] \<Rightarrow> None | b # bs \<Rightarrow> Some (b # bs))"

lemma rest_shorter:
  assumes "q = skip_trailing_backslash path" "get_path_token_len q = Inr n" "n \<noteq> 0"
    "strchr q SLASH = Some r"
  shows "length r < length path"
proof -
  have q: "q = dropWhile (\<lambda>c. c = SLASH) path" using assms by (simp add: skip_trailing_backslash_def)
  then have "length q \<le> length path" by (simp add: length_dropWhile_le)
  have "q \<noteq> []" using assms(2,3) by auto
  then have "hd q \<noteq> SLASH" using q hd_dropWhile [of "\<lambda>c. c = SLASH" path] by simp
  then obtain c cs where cs: "q = c # cs" "c \<noteq> SLASH" using \<open>q \<noteq> []\<close> by (cases q) simp_all
  have "r = dropWhile (\<lambda>b. b \<noteq> SLASH) q"
    using assms(4) by (simp add: strchr_def split: list.splits)
  then have "length r < length q"
    using cs length_dropWhile_le [of "\<lambda>b. b \<noteq> SLASH" cs] by (simp add: less_Suc_eq_le)
  with \<open>length q \<le> length path\<close> show ?thesis by simp
qed

text \<open>
  The loop of \<^verbatim>\<open>inode_get_idx_by_path\<close>. \<open>buf\<close> holds the bytes of the local \<^verbatim>\<open>inode\<close>, which is
  not initialised before the first read.
\<close>

function path_walk :: "disk \<Rightarrow> super \<Rightarrow> bytes \<Rightarrow> u32 \<Rightarrow> ptr \<Rightarrow> dcache \<Rightarrow> bytes \<Rightarrow> (u32 \<times> dcache) res" where
  "path_walk dk st path inode_idx dc_entry dc buf =
     (let path = skip_trailing_backslash path in
      rbind (get_path_token_len path) (\<lambda>path_len.
      if path_len = 0 then Inr (inode_idx, dc)
      else
        rbind (inode_get_by_number dk st inode_idx buf) (\<lambda>(_, buf).
        let inode = inode_of buf in
        rbind (inode_dir_ctx_reset dk (super_block st) inode) (\<lambda>dctx.
        rbind (dir_scan DIR_FUEL dk (super_block st) inode path path_len 0 dctx) (\<lambda>dentry.
        case dentry of
          None \<Rightarrow> Inr (0, dc)
        | Some i \<Rightarrow>
            rbind (if S_ISDIR (i_mode inode) then dcache_insert dc dc_entry path (unat path_len) i
                   else Inr (dc_entry, dc)) (\<lambda>(dc_entry, dc).
            case strchr path SLASH of
              None \<Rightarrow> Inr (i, dc)
            | Some path \<Rightarrow> path_walk dk st path i dc_entry dc buf))))))"
  by pat_completeness auto
termination
  by (relation "measure (\<lambda>(dk, st, path, inode_idx, dc_entry, dc, buf). length path)")
    (simp_all add: rest_shorter)

declare path_walk.simps [simp del]

definition inode_get_idx_by_path :: "disk \<Rightarrow> super \<Rightarrow> bytes \<Rightarrow> dcache \<Rightarrow> bytes \<Rightarrow> (u32 \<times> dcache) res" where
  "inode_get_idx_by_path dk st path dc stack =
     ASSERT (cstr_at path 0 = SLASH)
       (rbind (get_cached_inode_num dc path) (\<lambda>(dc_entry, path, dc).
        path_walk dk st path (dcache_get_inode dc dc_entry) dc_entry dc stack))"

text \<open>\<^verbatim>\<open>inode_get_by_path\<close>: the result, the caller's inode at \<open>old\<close> and the cache.\<close>

definition inode_get_by_path ::
    "disk \<Rightarrow> super \<Rightarrow> bytes \<Rightarrow> dcache \<Rightarrow> bytes \<Rightarrow> bytes \<Rightarrow> (int \<times> bytes \<times> dcache) res" where
  "inode_get_by_path dk st path dc stack old =
     rbind (inode_get_idx_by_path dk st path dc stack) (\<lambda>(n, dc).
     rbind (inode_get_by_number dk st n old) (\<lambda>(r, buf). Inr (r, buf, dc)))"

definition inode_init :: "dcache \<Rightarrow> int \<times> dcache" where
  "inode_init dc = dcache_init_root ROOT_INODE_N dc"

section \<open>What a look-up should return\<close>

text \<open>The tokens of a path: the non-empty parts between slashes.\<close>

function tokens :: "bytes \<Rightarrow> bytes list" where
  "tokens path =
     (case dropWhile (\<lambda>c. c = SLASH) path of
        [] \<Rightarrow> []
      | c # cs \<Rightarrow> takeWhile (\<lambda>b. b \<noteq> SLASH) (c # cs) # tokens (dropWhile (\<lambda>b. b \<noteq> SLASH) (c # cs)))"
  by pat_completeness auto
termination
proof (relation "measure length", simp)
  fix path c cs assume p: "dropWhile (\<lambda>c. c = SLASH) path = c # cs"
  then have "c \<noteq> SLASH" using hd_dropWhile [of "\<lambda>c. c = SLASH" path] by simp
  moreover have "length (c # cs) \<le> length path" unfolding p [symmetric] by (rule length_dropWhile_le)
  ultimately show "(dropWhile (\<lambda>b. b \<noteq> SLASH) (c # cs), path) \<in> measure length"
    using length_dropWhile_le [of "\<lambda>b. b \<noteq> SLASH" cs] by simp
qed

declare tokens.simps [simp del]

text \<open>One directory look-up without the cache.\<close>

definition dir_child :: "disk \<Rightarrow> super \<Rightarrow> u32 \<Rightarrow> bytes \<Rightarrow> u32 option res" where
  "dir_child dk st ino nm =
     rbind (inode_get_by_number dk st ino (replicate 156 0)) (\<lambda>(_, buf).
     let inode = inode_of buf in
     rbind (inode_dir_ctx_reset dk (super_block st) inode) (\<lambda>dctx.
     dir_scan DIR_FUEL dk (super_block st) inode nm (of_nat (length nm)) 0 dctx))"

text \<open>The look-up of a list of tokens from a directory; 0 when an entry is missing.\<close>

fun resolve :: "disk \<Rightarrow> super \<Rightarrow> u32 \<Rightarrow> bytes list \<Rightarrow> u32 res" where
  "resolve dk st ino [] = Inr ino"
| "resolve dk st ino (t # ts) =
     rbind (dir_child dk st ino t) (\<lambda>r. case r of None \<Rightarrow> Inr 0 | Some i \<Rightarrow> resolve dk st i ts)"

text \<open>A cache all of whose entries are what the directories hold.\<close>

definition cache_sound :: "disk \<Rightarrow> super \<Rightarrow> dcache \<Rightarrow> (nat \<Rightarrow> nat list) \<Rightarrow> bool" where
  "cache_sound dk st dc kids \<longleftrightarrow>
     (\<forall>p nm. \<forall>k \<in> dc_named dc kids p nm.
        dir_child dk st (dcache_get_inode dc p) nm = Inr (Some (dcache_get_inode dc k)))"

text \<open>
  The inodes in which the components of a path are found are directories.
\<close>

fun dirs_on_path :: "disk \<Rightarrow> super \<Rightarrow> u32 \<Rightarrow> bytes list \<Rightarrow> bool" where
  "dirs_on_path dk st ino [] \<longleftrightarrow> True"
| "dirs_on_path dk st ino (t # ts) \<longleftrightarrow>
     (case dir_child dk st ino t of
        Inr (Some i) \<Rightarrow>
          (case inode_get_by_number dk st ino (replicate 156 0) of
             Inl f \<Rightarrow> False | Inr (r, buf) \<Rightarrow> S_ISDIR (i_mode (inode_of buf))) \<and>
          dirs_on_path dk st i ts
      | _ \<Rightarrow> True)"

section \<open>Tokens\<close>

definition tok_len :: "bytes \<Rightarrow> nat" where
  "tok_len path = length (takeWhile (\<lambda>c. c \<noteq> SLASH \<and> c \<noteq> 0) path)"

lemma cstr_in_token: "i < tok_len path \<Longrightarrow> cstr_at path i \<noteq> SLASH \<and> cstr_at path i \<noteq> 0"
proof -
  assume i: "i < tok_len path"
  then have "i < length path"
    using length_takeWhile_le [of "\<lambda>c. c \<noteq> SLASH \<and> c \<noteq> 0" path] by (simp add: tok_len_def)
  moreover have "path ! i = takeWhile (\<lambda>c. c \<noteq> SLASH \<and> c \<noteq> 0) path ! i"
    using i by (simp add: tok_len_def takeWhile_nth)
  moreover have "takeWhile (\<lambda>c. c \<noteq> SLASH \<and> c \<noteq> 0) path ! i \<in> set (takeWhile (\<lambda>c. c \<noteq> SLASH \<and> c \<noteq> 0) path)"
    using i by (simp add: tok_len_def)
  ultimately show ?thesis using set_takeWhileD by (fastforce simp: cstr_at_def)
qed

lemma cstr_after_token: "cstr_at path (tok_len path) = SLASH \<or> cstr_at path (tok_len path) = 0"
  using nth_length_takeWhile [of "\<lambda>c. c \<noteq> SLASH \<and> c \<noteq> 0" path] by (auto simp: cstr_at_def tok_len_def)

lemma token_len_count:
  assumes "k \<le> tok_len path" "tok_len path < 256" "tok_len path - k < fuel"
  shows "token_len fuel path (of_nat k) = Inr (of_nat (tok_len path))"
  using assms
proof (induction fuel arbitrary: k)
  case 0
  then show ?case by simp
next
  case (Suc fuel)
  have u: "unat (of_nat k :: u8) = k" using Suc.prems by (simp add: unat_of_nat)
  show ?case
  proof (cases "k = tok_len path")
    case True
    then show ?thesis using cstr_after_token [of path] u by auto
  next
    case False
    then have "k < tok_len path" using Suc.prems(1) by simp
    then show ?thesis
      using cstr_in_token [of k path] u Suc.IH [of "Suc k"] Suc.prems by (simp add: add.commute)
  qed
qed

lemma token_len_loops: "256 \<le> tok_len path \<Longrightarrow> token_len fuel path len = Inl NoReturn"
proof (induction fuel arbitrary: len)
  case (Suc fuel)
  then show ?case using cstr_in_token [of "unat len" path] unat_u8 [of len] by simp
qed simp

lemma get_path_token_len_eq:
  "get_path_token_len path = (if tok_len path < 256 then Inr (of_nat (tok_len path)) else Inl NoReturn)"
  using token_len_count [of 0 path 256] token_len_loops [of path 256 0] by (simp add: get_path_token_len_def)

text \<open>On a C string the token ends at a slash.\<close>

lemma takeWhile_cstring:
  "0 \<notin> set path \<Longrightarrow> takeWhile (\<lambda>c. c \<noteq> SLASH \<and> c \<noteq> 0) path = takeWhile (\<lambda>c. c \<noteq> SLASH) path"
  by (induction path) auto

lemma tok_split:
  assumes "0 \<notin> set path"
  shows "take (tok_len path) path = takeWhile (\<lambda>c. c \<noteq> SLASH) path"
    "drop (tok_len path) path = dropWhile (\<lambda>c. c \<noteq> SLASH) path" "tok_len path \<le> length path"
proof -
  show le: "tok_len path \<le> length path" by (simp add: tok_len_def length_takeWhile_le)
  have l: "tok_len path = length (takeWhile (\<lambda>c. c \<noteq> SLASH) path)"
    by (simp add: tok_len_def takeWhile_cstring [OF assms])
  show "take (tok_len path) path = takeWhile (\<lambda>c. c \<noteq> SLASH) path"
    unfolding l by (rule takeWhile_eq_take [symmetric])
  show "drop (tok_len path) path = dropWhile (\<lambda>c. c \<noteq> SLASH) path"
    unfolding l by (rule dropWhile_eq_drop [symmetric])
qed

lemma tokens_skip: "tokens (dropWhile (\<lambda>c. c = SLASH) path) = tokens path"
proof -
  have "dropWhile (\<lambda>c. c = SLASH) (dropWhile (\<lambda>c. c = SLASH) path) = dropWhile (\<lambda>c. c = SLASH) path"
    using hd_dropWhile [of "\<lambda>c. c = SLASH" path] by (simp add: dropWhile_eq_self_iff)
  then show ?thesis by (subst (1 2) tokens.simps) simp
qed

lemma tokens_slash: "tokens (SLASH # path) = tokens path"
  using tokens_skip [of "SLASH # path"] tokens_skip [of path] by simp

lemma tokens_token:
  assumes "0 \<notin> set path" and "tok_len path \<noteq> 0"
  shows "tokens path = take (tok_len path) path # tokens (drop (tok_len path) path)"
proof -
  obtain c cs where p: "path = c # cs" "c \<noteq> SLASH"
    using assms(2) by (cases path) (auto simp: tok_len_def split: if_splits)
  then have "dropWhile (\<lambda>c. c = SLASH) path = path" by simp
  then show ?thesis using p tok_split [OF assms(1)] by (subst tokens.simps) simp
qed

lemma tokens_Nil: "tok_len path = 0 \<Longrightarrow> 0 \<notin> set path \<Longrightarrow> path = [] \<or> (\<exists>cs. path = SLASH # cs)"
  by (cases path) (auto simp: tok_len_def split: if_splits)

section \<open>The scan of a directory depends on the token only\<close>

lemma dir_scan_token:
  assumes "n \<le> length path" "n < 256"
  shows "dir_scan fuel dk sb inode path (of_nat n) off ctx =
    dir_scan fuel dk sb inode (take n path) (of_nat n) off ctx"
proof (induction fuel arbitrary: off ctx)
  case (Suc fuel)
  have u: "unat (of_nat n :: u8) = n" using assms(2) by (simp add: unat_of_nat)
  have t: "of_nat n = nl \<Longrightarrow> take (unat nl) (take n path) = take (unat nl) path" for nl :: u8
    using u by auto
  show ?case unfolding dir_scan.simps Suc.IH
    by (auto simp: t u Let_def split: option.split intro!: rbind_cong)
qed simp

text \<open>In a well-formed directory the scan returns the first live entry with the name.\<close>

lemma dir_scan_find:
  assumes wf: "wf_super sb" and sz: "unat (inode_get_size inode) < 4294967296"
    and n: "n \<le> length path" "n < 256"
    and es: "dir_list dk sb inode (unat off) es" and ctx: "ctx_ok dk sb inode ctx" and fuel: "length es < fuel"
  shows "dir_scan fuel dk sb inode path (of_nat n) off ctx =
    Inr (map_option fst (find (\<lambda>(i, nm, _). i \<noteq> 0 \<and> nm = take n path) es))"
  using es ctx fuel
proof (induction es arbitrary: off ctx fuel rule: list.induct)
  case Nil
  then obtain f where f: "fuel = Suc f" by (cases fuel) simp_all
  have "inode_dentry_get dk sb inode (ucast off) ctx = Inr (None, ctx)"
    using Nil unat_u32 [of off] by (intro dentry_get_end [OF wf]) simp_all
  then show ?case by (simp add: f)
next
  case (Cons e es)
  obtain f where f: "fuel = Suc f" "length es < f" using Cons.prems(3) by (cases fuel) simp_all
  obtain i nm o' where e: "e = (i, nm, o')" by (cases e)
  have "unat (ucast off :: u64) < 9223372036854775808" using unat_u32 [of off] by simp
  moreover have "dir_list dk sb inode (unat (ucast off :: u64)) ((i, nm, o') # es)"
    using Cons.prems(1) e by simp
  ultimately obtain c p r nl where g: "inode_dentry_get dk sb inode (ucast off) ctx = Inr (Some p, c)"
      "ctx_ok dk sb inode c" "dentry_rec_len (ctx_buf c) p = Inr r" "dentry_inode (ctx_buf c) p = Inr i"
      "dentry_name_len (ctx_buf c) p = Inr nl" "dentry_name (ctx_buf c) p (unat nl) = Inr nm"
      "length nm = unat nl" "o' = unat (ucast off :: u64) + unat r" "dir_list dk sb inode o' es"
    using dentry_get_entry [OF wf Cons.prems(2)] by metis
  have "unat off + unat r \<le> unat (inode_get_size inode)" using dir_list_bound [OF g(9)] g(8) by simp
  then have o': "unat (off + ucast r) = o'" using sz g(8) by (subst unat_add_nowrap) simp_all
  have rest: "dir_scan f dk sb inode path (of_nat n) (off + ucast r) c =
      Inr (map_option fst (find (\<lambda>(i, nm, _). i \<noteq> 0 \<and> nm = take n path) es))"
    using Cons.IH [of "off + ucast r" c f] g(2,9) o' f(2) by simp
  have len: "of_nat n = nl \<longleftrightarrow> n = unat nl"
    using n(2) by (auto simp: word_unat_eq_iff unat_of_nat)
  have take: "nm = take n path \<Longrightarrow> n = unat nl" using g(7) n(1) by simp
  have step: "dir_scan fuel dk sb inode path (of_nat n) off ctx =
      (if i \<noteq> 0 \<and> n = unat nl \<and> nm = take n path then Inr (Some i)
       else dir_scan f dk sb inode path (of_nat n) (off + ucast r) c)"
    unfolding f(1) dir_scan.simps g(1) rbind_Inr prod.case option.case g(3-5) Let_def
    by (simp add: len g(6))
  have hit: "(i \<noteq> 0 \<and> n = unat nl \<and> nm = take n path) = (i \<noteq> 0 \<and> nm = take n path)"
    using take by blast
  show ?case unfolding step hit rest e by simp
qed

lemma inode_buffer:
  assumes "n \<noteq> 0" "128 \<le> unat (s_inode_size (super_block st))"
  obtains (fault) f where "\<And>old. inode_get_by_number dk st n old = Inl f"
  | (read) i where "\<And>old. \<exists>buf. inode_get_by_number dk st n old = Inr (0, buf) \<and> inode_of buf = i"
proof -
  let ?sb = "super_block st"
  let ?s = "min (ucast (super_inode_size ?sb)) (of_nat (sizeof ext4_inode_fields)) :: u64"
  let ?m = "rbind (super_group_inode_table_offset st (n - 1)) (\<lambda>off.
        rbind (umod (n - 1) (super_inodes_per_group ?sb)) (\<lambda>r.
        disk_read dk (off + ucast (r * super_inode_size ?sb)) ?s))"
  have eq: "inode_get_by_number dk st n old = rbind ?m (\<lambda>bs. Inr (0, bs @ drop (length bs) old))" for old
    using assms(1) by (simp add: inode_get_by_number_def Let_def rbind_assoc)
  have s: "unat ?s = min (unat (s_inode_size ?sb)) 156"
    by (simp add: min_def word_le_nat_alt super_inode_size_def sizeof_structs)
  show thesis
  proof (cases ?m)
    case (Inl f)
    then show thesis using eq by (intro fault) simp
  next
    case (Inr bs)
    then obtain w where "disk_read dk w ?s = Inr bs" by (auto simp: rbind_eq_Inr)
    moreover have "?s \<noteq> - 1"
    proof
      assume "?s = - 1"
      then have "unat ?s = 18446744073709551615" by (simp add: unsigned_minus_1_eq_mask mask_eq_exp_minus_1)
      then show False using s by simp
    qed
    ultimately have "112 \<le> length bs" using disk_read_len s assms(2) by fastforce
    then have "inode_of (bs @ drop (length bs) old) = inode_of bs" for old by (rule inode_of_prefix)
    then show thesis using eq Inr by (intro read [of "inode_of bs"]) simp
  qed
qed

lemma dir_child_eq:
  assumes "n \<noteq> 0" "128 \<le> unat (s_inode_size (super_block st))"
    and path: "tok_len path < 256" "tok_len path \<le> length path"
  shows "rbind (inode_get_by_number dk st n buf) (\<lambda>(_, b).
      rbind (inode_dir_ctx_reset dk (super_block st) (inode_of b)) (\<lambda>dctx.
      dir_scan DIR_FUEL dk (super_block st) (inode_of b) path (of_nat (tok_len path)) 0 dctx)) =
    dir_child dk st n (take (tok_len path) path)"
proof -
  have scan: "dir_scan DIR_FUEL dk (super_block st) i path (of_nat (tok_len path)) 0 c =
      dir_scan DIR_FUEL dk (super_block st) i (take (tok_len path) path) (of_nat (length (take (tok_len path) path))) 0 c" for i c
    using dir_scan_token [OF path(2,1)] path(2) by simp
  show ?thesis using assms(1,2)
  proof (cases rule: inode_buffer [where dk = dk])
    case (fault f)
    then show ?thesis by (simp add: dir_child_def)
  next
    case (read i)
    then obtain b b0 where "inode_get_by_number dk st n buf = Inr (0, b)" "inode_of b = i"
        "inode_get_by_number dk st n (replicate 156 0) = Inr (0, b0)" "inode_of b0 = i" by meson
    then show ?thesis by (simp add: dir_child_def scan)
  qed
qed

text \<open>Every entry a directory look-up returns has a number that is not zero.\<close>

lemma dir_scan_nonzero: "dir_scan fuel dk sb inode path n off ctx = Inr (Some i) \<Longrightarrow> i \<noteq> 0"
  by (induction fuel arbitrary: off ctx)
    (auto simp: rbind_eq_Inr Let_def split: option.splits if_splits)

lemma dir_child_nonzero: "dir_child dk st ino nm = Inr (Some i) \<Longrightarrow> i \<noteq> 0"
  by (auto simp: dir_child_def rbind_eq_Inr Let_def dest: dir_scan_nonzero)

section \<open>The cached walk\<close>

lemma cache_sound_iff:
  "cache_sound dk st dc kids \<longleftrightarrow>
   dcache.sound (\<lambda>i nm. case dir_child dk st i nm of Inl f \<Rightarrow> None | Inr r \<Rightarrow> r) dc kids"
proof -
  have "dir_child dk st i nm = Inr (Some k) \<longleftrightarrow>
      (case dir_child dk st i nm of Inl f \<Rightarrow> None | Inr r \<Rightarrow> r) = Some k" for i nm k
    by (cases "dir_child dk st i nm") simp_all
  then show ?thesis by (simp add: cache_sound_def dcache.sound_def)
qed

lemma lookup_step:
  assumes "dc_inv dc kids" "cache_sound dk st dc kids" "dc_has dc p" "n \<le> length nm" "0 \<notin> set (take n nm)"
  obtains r dc' kids' where "dcache_lookup dc p nm n = Inr (r, dc')" "dc_inv dc' kids'"
    "cache_sound dk st dc' kids'" "dc_has dc' = dc_has dc" "dcache_get_inode dc' = dcache_get_inode dc"
    "r \<noteq> None \<longrightarrow> dc_has dc' r \<and>
      dir_child dk st (dcache_get_inode dc p) (take n nm) = Inr (Some (dcache_get_inode dc' r))"
proof -
  let ?fs = "\<lambda>i nm. case dir_child dk st i nm of Inl f \<Rightarrow> None | Inr r \<Rightarrow> r"
  have fs: "?fs i m = Some k \<Longrightarrow> dir_child dk st i m = Inr (Some k)" for i m k
    by (cases "dir_child dk st i m") simp_all
  obtain r dc' kids' where r: "dcache_lookup dc p nm n = Inr (r, dc')" "dc_inv dc' kids'"
      "dcache.sound ?fs dc' kids'" "dc_has dc' = dc_has dc" "dcache_get_inode dc' = dcache_get_inode dc"
      "r \<noteq> None \<longrightarrow> dc_has dc' r \<and>
        ?fs (dcache_get_inode dc p) (take n nm) = Some (dcache_get_inode dc' r)"
    using dcache.look_sound [OF assms(1) assms(2) [unfolded cache_sound_iff] assms(3-5)] by blast
  have "cache_sound dk st dc' kids'" using r(3) by (simp only: cache_sound_iff)
  then show thesis using that [OF r(1,2) _ r(4,5)] r(6) fs by blast
qed

lemma insert_step:
  assumes "dc_inv dc kids" "cache_sound dk st dc kids" "dc_has dc p" "n < DCACHE_ENTRY_NAME_LEN"
    "n \<le> length nm" "0 \<notin> set (take n nm)"
    and "dir_child dk st (dcache_get_inode dc p) (take n nm) = Inr (Some i)"
  obtains r dc' kids' where "dcache_insert dc p nm n i = Inr (r, dc')" "dc_inv dc' kids'"
    "cache_sound dk st dc' kids'" "dc_has dc' r" "dcache_get_inode dc' r = i"
proof -
  let ?fs = "\<lambda>i nm. case dir_child dk st i nm of Inl f \<Rightarrow> None | Inr r \<Rightarrow> r"
  have "?fs (dcache_get_inode dc p) (take n nm) = Some i" using assms(7) by simp
  then obtain r dc' kids' where "dcache_insert dc p nm n i = Inr (r, dc')" "dc_inv dc' kids'"
      "dcache.sound ?fs dc' kids'" "dc_has dc' r" "dcache_get_inode dc' r = i"
    using dcache.ins_sound [OF assms(1) assms(2) [unfolded cache_sound_iff] assms(3-6)] by blast
  then show thesis using that by (simp only: cache_sound_iff)
qed

text \<open>Paths whose tokens fit a cache entry.\<close>

definition short_tokens :: "bytes \<Rightarrow> bool" where
  "short_tokens path \<longleftrightarrow> 0 \<notin> set path \<and> (\<forall>t \<in> set (tokens path). length t < DCACHE_ENTRY_NAME_LEN)"

lemma short_token:
  assumes "short_tokens path" "tok_len path \<noteq> 0"
  shows "tok_len path < DCACHE_ENTRY_NAME_LEN" "tok_len path < 256" "tok_len path \<le> length path"
    "0 \<notin> set (take (tok_len path) path)" "short_tokens (drop (tok_len path) path)"
    "get_path_token_len path = Inr (of_nat (tok_len path))" "unat (of_nat (tok_len path) :: u8) = tok_len path"
    "(of_nat (tok_len path) :: u8) \<noteq> 0"
proof -
  have z: "0 \<notin> set path" using assms(1) by (simp add: short_tokens_def)
  note t = tokens_token [OF z assms(2)]
  show le: "tok_len path \<le> length path" using tok_split(3) [OF z] .
  show lt: "tok_len path < DCACHE_ENTRY_NAME_LEN" using assms(1) t le by (simp add: short_tokens_def)
  then show lt': "tok_len path < 256" by (simp add: DCACHE_ENTRY_NAME_LEN_def)
  show "0 \<notin> set (take (tok_len path) path)" "short_tokens (drop (tok_len path) path)"
    using assms(1) t z by (auto simp: short_tokens_def dest: in_set_takeD in_set_dropD)
  show "get_path_token_len path = Inr (of_nat (tok_len path))" using lt' by (simp add: get_path_token_len_eq)
  show u: "unat (of_nat (tok_len path) :: u8) = tok_len path" using lt' by (simp add: unat_of_nat)
  show "(of_nat (tok_len path) :: u8) \<noteq> 0" using u assms(2) by auto
qed

lemma no_token: "short_tokens path \<Longrightarrow> tok_len path = 0 \<Longrightarrow> get_path_token_len path = Inr 0"
  by (simp add: get_path_token_len_eq)

lemma short_tokens_slash: "short_tokens (SLASH # path) \<longleftrightarrow> short_tokens path"
proof -
  have "SLASH \<noteq> 0" by (simp add: SLASH_def)
  then show ?thesis by (simp add: short_tokens_def tokens_slash)
qed

lemma drop_slash:
  assumes "short_tokens path"
  shows "short_tokens (if cstr_at path 0 = SLASH then drop 1 path else path)"
    "tokens (if cstr_at path 0 = SLASH then drop 1 path else path) = tokens path"
  using assms by (cases path; auto simp: cstr_at_def short_tokens_slash tokens_slash)+

lemma cached_walk_sound:
  assumes "dc_inv dc kids" "cache_sound dk st dc kids" "dc_has dc e" "short_tokens path"
  shows "\<exists>e' path' dc' kids'. cached_walk dc e path = Inr (e', path', dc') \<and> dc_inv dc' kids' \<and>
    cache_sound dk st dc' kids' \<and> dc_has dc' e' \<and> short_tokens path' \<and>
    (dcache_get_inode dc e \<noteq> 0 \<longrightarrow> dcache_get_inode dc' e' \<noteq> 0) \<and>
    (dirs_on_path dk st (dcache_get_inode dc e) (tokens path) \<longrightarrow>
      dirs_on_path dk st (dcache_get_inode dc' e') (tokens path')) \<and>
    resolve dk st (dcache_get_inode dc e) (tokens path) =
      resolve dk st (dcache_get_inode dc' e') (tokens path')"
  using assms
proof (induction dc e path arbitrary: kids rule: cached_walk.induct)
  case (1 dc e path)
  let ?q = "if cstr_at path 0 = SLASH then drop 1 path else path"
  have q: "short_tokens ?q" "tokens ?q = tokens path" using drop_slash [OF "1.prems"(4)] by simp_all
  show ?case
  proof (cases "tok_len ?q = 0")
    case True
    then have "cached_walk dc e path = Inr (e, ?q, dc)"
      using no_token [OF q(1)] by (subst cached_walk.simps) (simp add: Let_def)
    then show ?thesis using "1.prems" q by (intro exI [of _ e] exI [of _ ?q] exI [of _ dc] exI [of _ kids]) simp
  next
    case False
    note tk = short_token [OF q(1) False]
    obtain r dc' kids' where r: "dcache_lookup dc e ?q (tok_len ?q) = Inr (r, dc')" "dc_inv dc' kids'"
      "cache_sound dk st dc' kids'" "dc_has dc' = dc_has dc" "dcache_get_inode dc' = dcache_get_inode dc"
      "r \<noteq> None \<longrightarrow> dc_has dc' r \<and>
        dir_child dk st (dcache_get_inode dc e) (take (tok_len ?q) ?q) = Inr (Some (dcache_get_inode dc' r))"
      using lookup_step [OF "1.prems"(1-3) tk(3,4)] .
    have eq: "cached_walk dc e path = (if r = None then Inr (e, ?q, dc') else cached_walk dc' r (drop (tok_len ?q) ?q))"
      using tk(6-8) r(1) by (subst cached_walk.simps) (simp add: Let_def)
    show ?thesis
    proof (cases "r = None")
      case True
      then show ?thesis using eq r q "1.prems"
        by (intro exI [of _ e] exI [of _ ?q] exI [of _ dc'] exI [of _ kids']) simp
    next
      case some: False
      have toks: "tokens path = take (tok_len ?q) ?q # tokens (drop (tok_len ?q) ?q)"
        using tokens_token [of ?q] q False by (simp add: short_tokens_def)
      have step: "resolve dk st (dcache_get_inode dc e) (tokens path) =
          resolve dk st (dcache_get_inode dc' r) (tokens (drop (tok_len ?q) ?q))"
        using mp [OF r(6) some] toks by simp
      have "dirs_on_path dk st (dcache_get_inode dc e) (tokens path) \<longrightarrow>
          dirs_on_path dk st (dcache_get_inode dc' r) (tokens (drop (tok_len ?q) ?q))"
        using mp [OF r(6) some] toks by simp
      moreover have "dcache_get_inode dc' r \<noteq> 0" using mp [OF r(6) some] dir_child_nonzero by blast
      moreover note "1.IH" [OF refl tk(6) tk(8), unfolded tk(7), OF r(1) refl some r(2,3) _ tk(5)]
      ultimately show ?thesis using eq some step mp [OF r(6) some] by auto
    qed
  qed
qed

section \<open>The walk over the remaining tokens\<close>

lemma strchr_rest:
  assumes "0 \<notin> set q"
  shows "strchr q SLASH = (if drop (tok_len q) q = [] then None else Some (drop (tok_len q) q))"
  unfolding tok_split(2) [OF assms] strchr_def
  by (cases "dropWhile (\<lambda>c. c \<noteq> SLASH) q") (simp_all del: dropWhile_eq_Nil_conv)

text \<open>One turn of the loop, for a path with a token.\<close>

lemma path_walk_step:
  assumes q: "short_tokens q" "tok_len q \<noteq> 0" "q = skip_trailing_backslash path"
    and i: "idx \<noteq> 0" "128 \<le> unat (s_inode_size (super_block st))"
  shows "\<exists>buf'. path_walk dk st path idx e dc buf =
    rbind (dir_child dk st idx (take (tok_len q) q)) (\<lambda>r. case r of
       None \<Rightarrow> Inr (0, dc)
     | Some i \<Rightarrow> rbind (if S_ISDIR (i_mode (inode_of buf')) then dcache_insert dc e q (tok_len q) i
                      else Inr (e, dc)) (\<lambda>(e, dc).
         if drop (tok_len q) q = [] then Inr (i, dc)
         else path_walk dk st (drop (tok_len q) q) i e dc buf')) \<and>
    (\<forall>r. dir_child dk st idx (take (tok_len q) q) = Inr r \<longrightarrow>
       (\<exists>x. inode_get_by_number dk st idx buf = Inr (x, buf')))"
proof -
  note tk = short_token [OF q(1,2)]
  have z: "0 \<notin> set q" using q(1) by (simp add: short_tokens_def)
  note child = dir_child_eq [OF i tk(2,3), of dk buf]
  show ?thesis
  proof (cases "inode_get_by_number dk st idx buf")
    case (Inl f)
    then have "dir_child dk st idx (take (tok_len q) q) = Inl f" using child by simp
    then show ?thesis using Inl tk(6-8) q(3) by (subst path_walk.simps) (simp add: Let_def)
  next
    case (Inr rb)
    obtain x buf' where rb: "rb = (x, buf')" by (cases rb)
    have "dir_child dk st idx (take (tok_len q) q) =
        rbind (inode_dir_ctx_reset dk (super_block st) (inode_of buf')) (\<lambda>dctx.
        dir_scan DIR_FUEL dk (super_block st) (inode_of buf') q (of_nat (tok_len q)) 0 dctx)"
      using child Inr rb by simp
    then show ?thesis using Inr rb tk(6-8) q(3) strchr_rest [OF z]
      by (intro exI [of _ buf'], subst path_walk.simps)
        (auto simp: Let_def rbind_assoc split: option.split intro!: rbind_cong)
  qed
qed

text \<open>A cache that is well-formed and true of the disk.\<close>

definition true_cache :: "disk \<Rightarrow> super \<Rightarrow> dcache \<Rightarrow> bool" where
  "true_cache dk st dc \<longleftrightarrow> (\<exists>kids. dc_inv dc kids \<and> cache_sound dk st dc kids)"

lemma dirs_step:
  assumes "dirs_on_path dk st ino ts" "ts = t # ts'" "dir_child dk st ino t = Inr (Some i)"
    and "ino \<noteq> 0" "128 \<le> unat (s_inode_size (super_block st))"
  shows "dirs_on_path dk st i ts'"
    and "inode_get_by_number dk st ino old = Inr (r, buf) \<Longrightarrow> S_ISDIR (i_mode (inode_of buf))"
proof -
  show "dirs_on_path dk st i ts'" using assms(1-3) by simp
  assume old: "inode_get_by_number dk st ino old = Inr (r, buf)"
  show "S_ISDIR (i_mode (inode_of buf))"
  proof (rule inode_buffer [OF assms(4,5), of dk])
    fix f
    assume "\<And>old. inode_get_by_number dk st ino old = Inl f"
    then show ?thesis using old by simp
  next
    fix inode
    assume all: "\<And>old. \<exists>buf. inode_get_by_number dk st ino old = Inr (0, buf) \<and> inode_of buf = inode"
    obtain b where "inode_get_by_number dk st ino (replicate 156 0) = Inr (0, b)" "inode_of b = inode"
      using all by blast
    moreover have "inode_of buf = inode" using all [of old] old by auto
    ultimately show ?thesis using assms(1-3) by simp
  qed
qed

text \<open>A path with nothing but slashes left.\<close>

lemma path_walk_end:
  assumes q: "short_tokens (skip_trailing_backslash path)" and n: "tok_len (skip_trailing_backslash path) = 0"
  shows "tokens path = []" "path_walk dk st path idx e dc buf = Inr (idx, dc)"
proof -
  let ?q = "skip_trailing_backslash path"
  have "?q = SLASH # cs \<Longrightarrow> False" for cs
    using hd_dropWhile [of "\<lambda>c. c = SLASH" path] by (simp add: skip_trailing_backslash_def del: dropWhile_eq_Nil_conv)
  moreover have "0 \<notin> set ?q" using q by (simp add: short_tokens_def)
  ultimately have "?q = []" using tokens_Nil [OF n] by blast
  moreover have "tokens ?q = tokens path" by (simp add: skip_trailing_backslash_def tokens_skip)
  ultimately show "tokens path = []" by (simp add: tokens.simps)
  show "path_walk dk st path idx e dc buf = Inr (idx, dc)"
    using no_token [OF q n] by (subst path_walk.simps) (simp add: Let_def)
qed

text \<open>A directory that was found is entered into the cache, and the walk goes on below it.\<close>

lemma path_walk_found:
  assumes inv: "dc_inv dc kids" "cache_sound dk st dc kids" "dc_has dc e"
    and q: "short_tokens q" "tok_len q \<noteq> 0" and i: "dir_child dk st (dcache_get_inode dc e) (take (tok_len q) q) = Inr (Some i)"
    and rest: "\<And>e' dc' kids'. drop (tok_len q) q \<noteq> [] \<Longrightarrow> dc_inv dc' kids' \<Longrightarrow> cache_sound dk st dc' kids' \<Longrightarrow>
      dc_has dc' e' \<Longrightarrow> dcache_get_inode dc' e' = i \<Longrightarrow>
      implements (true_cache dk st) (resolve dk st i (tokens (drop (tok_len q) q))) (walk e' dc')"
  shows "implements (true_cache dk st) (resolve dk st i (tokens (drop (tok_len q) q)))
    (rbind (dcache_insert dc e q (tok_len q) i) (\<lambda>(e, dc). if drop (tok_len q) q = [] then Inr (i, dc) else walk e dc))"
proof -
  note tk = short_token [OF q]
  obtain e' dc' kids' where ins: "dcache_insert dc e q (tok_len q) i = Inr (e', dc')" "dc_inv dc' kids'"
      "cache_sound dk st dc' kids'" "dc_has dc' e'" "dcache_get_inode dc' e' = i"
    using insert_step [OF inv tk(1,3,4) i] .
  show ?thesis
  proof (cases "drop (tok_len q) q = []")
    case True
    then show ?thesis using ins by (auto simp: true_cache_def tokens.simps)
  next
    case False
    then show ?thesis using ins(1) rest [OF False ins(2-5)] by simp
  qed
qed

lemma path_walk_refines:
  assumes "dc_inv dc kids" "cache_sound dk st dc kids" "dc_has dc e" "short_tokens path"
    and "dcache_get_inode dc e \<noteq> 0" "dirs_on_path dk st (dcache_get_inode dc e) (tokens path)"
    and isz: "128 \<le> unat (s_inode_size (super_block st))"
  shows "implements (true_cache dk st) (resolve dk st (dcache_get_inode dc e) (tokens path))
    (path_walk dk st path (dcache_get_inode dc e) e dc buf)"
  using assms(1-6)
proof (induction "length path" arbitrary: path dc e kids buf rule: less_induct)
  case less
  let ?q = "skip_trailing_backslash path"
  let ?n = "tok_len ?q" and ?i = "dcache_get_inode dc e"
  have good: "true_cache dk st dc" using less.prems(1,2) by (auto simp: true_cache_def)
  have toks: "tokens ?q = tokens path" by (simp add: skip_trailing_backslash_def tokens_skip)
  have q: "short_tokens ?q"
    using less.prems(4) toks by (auto simp: short_tokens_def skip_trailing_backslash_def dest: set_dropWhileD)
  then have z: "0 \<notin> set ?q" by (simp add: short_tokens_def)
  show ?case
  proof (cases "?n = 0")
    case True
    then show ?thesis using path_walk_end [OF q] good by simp
  next
    case False
    note tk = short_token [OF q False] and tt = tokens_token [OF z False, unfolded toks]
    obtain buf' where step: "path_walk dk st path ?i e dc buf =
      rbind (dir_child dk st ?i (take ?n ?q)) (\<lambda>r. case r of
         None \<Rightarrow> Inr (0, dc)
       | Some i \<Rightarrow> rbind (if S_ISDIR (i_mode (inode_of buf')) then dcache_insert dc e ?q ?n i
                      else Inr (e, dc)) (\<lambda>(e, dc).
         if drop ?n ?q = [] then Inr (i, dc)
         else path_walk dk st (drop ?n ?q) i e dc buf'))"
      and rd: "\<forall>r. dir_child dk st ?i (take ?n ?q) = Inr r \<longrightarrow>
         (\<exists>x. inode_get_by_number dk st ?i buf = Inr (x, buf'))"
      using path_walk_step [OF q False refl less.prems(5) isz, of dk e dc buf] by blast
    show ?thesis unfolding step tt resolve.simps
    proof (rule implements_same_bind)
      fix r
      assume r: "dir_child dk st ?i (take ?n ?q) = Inr r"
      show "implements (true_cache dk st) (case r of None \<Rightarrow> Inr 0 | Some i \<Rightarrow> resolve dk st i (tokens (drop ?n ?q)))
          (case r of None \<Rightarrow> Inr (0, dc)
           | Some i \<Rightarrow> rbind (if S_ISDIR (i_mode (inode_of buf')) then dcache_insert dc e ?q ?n i else Inr (e, dc))
               (\<lambda>(e, dc). if drop ?n ?q = [] then Inr (i, dc) else path_walk dk st (drop ?n ?q) i e dc buf'))"
      proof (cases r)
        case (Some i)
        have dirs: "S_ISDIR (i_mode (inode_of buf'))" "dirs_on_path dk st i (tokens (drop ?n ?q))"
          using dirs_step [OF less.prems(6) tt r [unfolded Some] less.prems(5) isz] rd r by blast+
        have shorter: "drop ?n ?q \<noteq> [] \<Longrightarrow> length (drop ?n ?q) < length path"
          using rest_shorter [OF refl tk(6,8)] strchr_rest [OF z] by simp
        have i0: "i \<noteq> 0" using dir_child_nonzero r Some by blast
        have "implements (true_cache dk st) (resolve dk st i (tokens (drop ?n ?q)))
            (rbind (dcache_insert dc e ?q ?n i)
              (\<lambda>(e, dc). if drop ?n ?q = [] then Inr (i, dc) else path_walk dk st (drop ?n ?q) i e dc buf'))"
          using less.hyps [OF shorter _ _ _ tk(5)] i0 dirs(2)
          by (intro path_walk_found [OF less.prems(1-3) q False r [unfolded Some]]) blast
        then show ?thesis using Some dirs(1) by simp
      qed (use good in simp)
    qed
  qed
qed

lemma idx_by_path_refines:
  assumes "dc_inv dc kids" "cache_sound dk st dc kids" "short_tokens path" "cstr_at path 0 = SLASH"
    and "dirs_on_path dk st (dcache_get_inode dc None) (tokens path)"
    and "128 \<le> unat (s_inode_size (super_block st))"
  shows "implements (true_cache dk st) (resolve dk st (dcache_get_inode dc None) (tokens path))
    (inode_get_idx_by_path dk st path dc stack)"
proof -
  have root: "dc_has dc None" "dcache_get_inode dc None \<noteq> 0"
    using dc_invD(1,2) [OF assms(1)] by (simp_all add: dc_has_def addr_def dcache_get_inode_def)
  obtain e path' dc' kids' where w: "cached_walk dc None path = Inr (e, path', dc')" "dc_inv dc' kids'"
      "cache_sound dk st dc' kids'" "dc_has dc' e" "short_tokens path'" "dcache_get_inode dc' e \<noteq> 0"
      "dirs_on_path dk st (dcache_get_inode dc' e) (tokens path')"
      "resolve dk st (dcache_get_inode dc None) (tokens path) =
        resolve dk st (dcache_get_inode dc' e) (tokens path')"
    using cached_walk_sound [OF assms(1,2) root(1) assms(3)] root(2) assms(5) by blast
  show ?thesis
    using path_walk_refines [OF w(2-7) assms(6), of stack] w(1,8) assms(4)
    by (simp add: inode_get_idx_by_path_def get_cached_inode_num_def)
qed


section \<open>Property of the path scanner\<close>

text \<open>
  (C32) \<^verbatim>\<open>get_path_token_len\<close> returns exactly for components of fewer than 256 bytes: its 8-bit counter wraps
  around on a longer one and the loop never ends, however many turns it is given.
\<close>

theorem token_len_returns_iff:
  "(\<exists>fuel len. token_len fuel path 0 = Inr len) \<longleftrightarrow> tok_len path < 256"
  using token_len_count [of 0 path 256] token_len_loops [of path] by (fastforce simp: not_less)

end
