(* ===== verification/Ops.thy ===== *)
theory Ops
  imports Read Path
begin

text \<open>
  Model of the remaining operations of the file system, \<^verbatim>\<open>fuse/op_getattr.c\<close>, \<^verbatim>\<open>op_open.c\<close>,
  \<^verbatim>\<open>op_readdir.c\<close>, \<^verbatim>\<open>op_readlink.c\<close> and \<^verbatim>\<open>op_init.c\<close>. The static variables of the program are
  arguments and results: the disk, the superblock with its descriptor table, and the cache.
\<close>

section \<open>op_getattr.c\<close>

record stat =
  st_mode :: u32
  st_nlink :: u64
  st_size :: u64
  st_blocks :: u64
  st_uid :: u32
  st_gid :: u32
  st_atime :: u64
  st_mtime :: u64
  st_ctime :: u64

definition stat_zero :: stat where
  "stat_zero = \<lparr>st_mode = 0, st_nlink = 0, st_size = 0, st_blocks = 0, st_uid = 0, st_gid = 0,
     st_atime = 0, st_mtime = 0, st_ctime = 0\<rparr>"

definition op_getattr :: "disk \<Rightarrow> super \<Rightarrow> dcache \<Rightarrow> bytes \<Rightarrow> bytes \<Rightarrow> bytes \<Rightarrow> (int \<times> stat \<times> dcache) res" where
  "op_getattr dk st dc path stack old =
     rbind (inode_get_by_path dk st path dc stack old) (\<lambda>(ret, buf, dc).
     if ret < 0 then Inr (ret, stat_zero, dc)
     else let inode = inode_of buf in
       Inr (0, \<lparr>st_mode = ucast (i_mode inode) AND NOT 0x92,
                st_nlink = ucast (i_links_count inode),
                st_size = inode_get_size inode,
                st_blocks = ucast (i_blocks_lo inode),
                st_uid = ucast (i_uid inode),
                st_gid = ucast (i_gid inode),
                st_atime = ucast (i_atime inode),
                st_mtime = ucast (i_mtime inode),
                st_ctime = ucast (i_ctime inode)\<rparr>, dc))"

section \<open>op_open.c\<close>

record fuse_file_info =
  fi_flags :: u32
  fi_fh :: u64

definition EACCES :: int where
  "EACCES = 13"

definition op_open :: "disk \<Rightarrow> super \<Rightarrow> dcache \<Rightarrow> bytes \<Rightarrow> bytes \<Rightarrow> fuse_file_info \<Rightarrow>
    (int \<times> fuse_file_info \<times> dcache) res" where
  "op_open dk st dc path stack fi =
     (if fi_flags fi AND 3 \<noteq> 0 then Inr (- EACCES, fi, dc)
      else rbind (inode_get_idx_by_path dk st path dc stack) (\<lambda>(n, dc).
           Inr (0, fi\<lparr>fi_fh := ucast n\<rparr>, dc)))"

section \<open>op_readdir.c\<close>

definition EXT4_NAME_LEN :: nat where
  "EXT4_NAME_LEN = 255"

text \<open>
  \<^verbatim>\<open>get_printable_name\<close> into \<^verbatim>\<open>name_buf\<close>, which has \<^verbatim>\<open>EXT4_NAME_LEN\<close> bytes: the name as a C
  string. A name of that length leaves no room for the terminator.
\<close>

definition get_printable_name :: "bytes \<Rightarrow> nat \<Rightarrow> u8 \<Rightarrow> bytes res" where
  "get_printable_name buf p name_len =
     rbind (dentry_name buf p (unat name_len)) (\<lambda>nm.
     if unat name_len < EXT4_NAME_LEN then Inr (takeWhile (\<lambda>b. b \<noteq> 0) nm) else Inl OutOfBounds)"

text \<open>
  The loop of \<^verbatim>\<open>op_readdir\<close>. \<open>filler\<close> is the callback of the FUSE library: it takes the state of
  its buffer, a name and an offset, and returns its result and the new state. An entry of
  record length 0 repeats for as long as the callback accepts it, so the loop takes fuel.
\<close>

fun readdir_loop :: "nat \<Rightarrow> ('b \<Rightarrow> bytes \<Rightarrow> u64 \<Rightarrow> int \<times> 'b) \<Rightarrow> disk \<Rightarrow> ext4_super_block \<Rightarrow> ext4_inode \<Rightarrow>
    u64 \<Rightarrow> inode_dir_ctx \<Rightarrow> 'b \<Rightarrow> 'b res" where
  "readdir_loop 0 filler dk sb inode offset ctx b = Inl NoReturn"
| "readdir_loop (Suc fuel) filler dk sb inode offset ctx b =
     rbind (inode_dentry_get dk sb inode offset ctx) (\<lambda>(dentry, ctx).
     case dentry of
       None \<Rightarrow> Inr b
     | Some p \<Rightarrow>
         rbind (dentry_rec_len (ctx_buf ctx) p) (\<lambda>rec_len.
         let offset = offset + ucast rec_len in
         rbind (dentry_inode (ctx_buf ctx) p) (\<lambda>i.
         if i = 0 then readdir_loop fuel filler dk sb inode offset ctx b
         else
           rbind (dentry_name_len (ctx_buf ctx) p) (\<lambda>name_len.
           rbind (get_printable_name (ctx_buf ctx) p name_len) (\<lambda>name_buf.
           if cstr_at name_buf 0 \<noteq> 0
           then let (r, b) = filler b name_buf offset in
                if r \<noteq> 0 then Inr b else readdir_loop fuel filler dk sb inode offset ctx b
           else readdir_loop fuel filler dk sb inode offset ctx b)))))"

definition op_readdir :: "nat \<Rightarrow> ('b \<Rightarrow> bytes \<Rightarrow> u64 \<Rightarrow> int \<times> 'b) \<Rightarrow> disk \<Rightarrow> super \<Rightarrow> dcache \<Rightarrow> bytes \<Rightarrow>
    bytes \<Rightarrow> bytes \<Rightarrow> u64 \<Rightarrow> 'b \<Rightarrow> (int \<times> 'b \<times> dcache) res" where
  "op_readdir fuel filler dk st dc path stack old offset b =
     rbind (inode_get_by_path dk st path dc stack old) (\<lambda>(ret, buf, dc).
     if ret < 0 then Inr (ret, b, dc)
     else
       rbind (inode_dir_ctx_reset dk (super_block st) (inode_of buf)) (\<lambda>dctx.
       rbind (readdir_loop fuel filler dk (super_block st) (inode_of buf) offset dctx b) (\<lambda>b.
       Inr (0, b, dc))))"

section \<open>op_readlink.c\<close>

definition S_ISLNK :: "u16 \<Rightarrow> bool" where
  "S_ISLNK m \<longleftrightarrow> m AND 0xF000 = 0xA000"

definition EINVAL :: int where
  "EINVAL = 22"

text \<open>
  \<^verbatim>\<open>strncpy(buf, s, n)\<close> on a buffer and an array, with the bounds C leaves to the caller: the
  \<open>n\<close> bytes written lie in the buffer, and the source ends inside its array or has \<open>n\<close> bytes.
\<close>

definition strncpy_checked :: "bytes \<Rightarrow> bytes \<Rightarrow> nat \<Rightarrow> bytes res" where
  "strncpy_checked buf s n =
     (if n \<le> length buf \<and> (n \<le> length s \<or> 0 \<in> set s) then Inr (strncpy buf s n) else Inl OutOfBounds)"

text \<open>\<^verbatim>\<open>get_link_dest\<close> on the caller's buffer: the result and the new content of the buffer.\<close>

definition get_link_dest :: "disk \<Rightarrow> ext4_super_block \<Rightarrow> ext4_inode \<Rightarrow> bytes \<Rightarrow> u64 \<Rightarrow> (u32 \<times> bytes) res" where
  "get_link_dest dk sb inode buf bufsize =
     (let inode_size = unat (inode_get_size inode) in
      rbind (if inode_size \<le> 60
             then if inode_size \<le> length buf
                  then Inr (take inode_size (i_block inode) @ drop inode_size buf)
                  else Inl OutOfBounds
             else rbind (inode_get_data_pblock dk sb inode 0) (\<lambda>(pblock, _).
                  rbind (disk_read_block dk sb pblock) (\<lambda>block_data.
                  strncpy_checked buf block_data (unat (bufsize - 1))))) (\<lambda>buf.
      if inode_size < length buf
      then Inr (ucast (inode_get_size inode + 1), buf[inode_size := 0])
      else Inl OutOfBounds))"

text \<open>
  \<^verbatim>\<open>op_readlink\<close> does not look at the result of \<^verbatim>\<open>inode_get_by_path\<close>: for a missing path it uses
  the uninitialised local inode \<open>old\<close>.
\<close>

definition op_readlink :: "disk \<Rightarrow> super \<Rightarrow> dcache \<Rightarrow> bytes \<Rightarrow> bytes \<Rightarrow> bytes \<Rightarrow> bytes \<Rightarrow> u64 \<Rightarrow>
    (int \<times> bytes \<times> dcache) res" where
  "op_readlink dk st dc path stack old buf bufsize =
     rbind (inode_get_by_path dk st path dc stack old) (\<lambda>(_, ibuf, dc).
     if \<not> S_ISLNK (i_mode (inode_of ibuf)) then Inr (- EINVAL, buf, dc)
     else rbind (get_link_dest dk (super_block st) (inode_of ibuf) buf bufsize) (\<lambda>(_, buf).
          Inr (0, buf, dc)))"

section \<open>op_init.c\<close>

text \<open>The calls of \<^verbatim>\<open>op_init\<close>; \<^verbatim>\<open>abort\<close> ends the process like a failed assertion.\<close>

definition op_init :: "disk \<Rightarrow> (nat \<Rightarrow> bytes) \<Rightarrow> dcache \<Rightarrow> (super \<times> dcache) res" where
  "op_init dk heap dc =
     rbind (super_fill dk) (\<lambda>sb.
     rbind (super_group_fill dk sb heap) (\<lambda>st.
     let (r, dc) = inode_init dc in
     if r \<noteq> 0 then Inl AssertFail else Inr (st, dc)))"

section \<open>What the operations should do\<close>

text \<open>The callback of \<^verbatim>\<open>readdir\<close> applied to a list of names until it refuses one.\<close>

fun fill_all :: "('b \<Rightarrow> bytes \<Rightarrow> u64 \<Rightarrow> int \<times> 'b) \<Rightarrow> 'b \<Rightarrow> (bytes \<times> u64) list \<Rightarrow> 'b" where
  "fill_all filler b [] = b"
| "fill_all filler b ((nm, o') # xs) =
     (let (r, b') = filler b nm o' in if r \<noteq> 0 then b' else fill_all filler b' xs)"

text \<open>The entries of a directory a listing shows: live, with a name; with the next offset.\<close>

definition visible :: "(u32 \<times> bytes \<times> nat) list \<Rightarrow> (bytes \<times> u64) list" where
  "visible es = map (\<lambda>(i, nm, o'). (takeWhile (\<lambda>b. b \<noteq> 0) nm, of_nat o'))
     (filter (\<lambda>(i, nm, o'). i \<noteq> 0 \<and> cstr_at nm 0 \<noteq> 0) es)"

text \<open>
  The listing with the size of \<^verbatim>\<open>name_buf\<close>: a used entry whose name has 255 bytes does not fit with its
  terminator.
\<close>

fun listing :: "('b \<Rightarrow> bytes \<Rightarrow> u64 \<Rightarrow> int \<times> 'b) \<Rightarrow> 'b \<Rightarrow> (u32 \<times> bytes \<times> nat) list \<Rightarrow> 'b res" where
  "listing filler b [] = Inr b"
| "listing filler b ((i, nm, o') # es) =
     (if i = 0 then listing filler b es
      else if EXT4_NAME_LEN \<le> length nm then Inl OutOfBounds
      else if cstr_at nm 0 = 0 then listing filler b es
      else let (r, b') = filler b (takeWhile (\<lambda>b. b \<noteq> 0) nm) (of_nat o') in
           if r \<noteq> 0 then Inr b' else listing filler b' es)"

section \<open>Listing a directory\<close>

lemma listing_visible:
  "list_all (\<lambda>(i, nm, o'). length nm < EXT4_NAME_LEN) es \<Longrightarrow>
   listing filler b es = Inr (fill_all filler b (visible es))"
  by (induction filler b es rule: listing.induct) (auto simp: visible_def split: prod.split)

lemma cstr_takeWhile: "cstr_at (takeWhile (\<lambda>b. b \<noteq> 0) nm) 0 = cstr_at nm 0"
  by (cases nm) (auto simp: cstr_at_def)

lemma readdir_listing:
  assumes wf: "wf_super sb" and sz: "unat (inode_get_size inode) < 9223372036854775808"
    and es: "dir_list dk sb inode (unat off) es" and ctx: "ctx_ok dk sb inode ctx" and fuel: "length es < fuel"
  shows "readdir_loop fuel filler dk sb inode off ctx b = listing filler b es"
  using es ctx fuel
proof (induction es arbitrary: off ctx fuel b rule: list.induct)
  case Nil
  then obtain f where f: "fuel = Suc f" by (cases fuel) simp_all
  have "unat off < 9223372036854775808" using dir_list_bound [OF Nil.prems(1)] sz by simp
  then have "inode_dentry_get dk sb inode off ctx = Inr (None, ctx)"
    using Nil by (intro dentry_get_end [OF wf]) simp_all
  then show ?case by (simp add: f)
next
  case (Cons e es)
  obtain f where f: "fuel = Suc f" "length es < f" using Cons.prems(3) by (cases fuel) simp_all
  obtain i nm o' where e: "e = (i, nm, o')" by (cases e)
  have "unat off < 9223372036854775808" using dir_list_bound [OF Cons.prems(1)] sz by simp
  moreover have "dir_list dk sb inode (unat off) ((i, nm, o') # es)" using Cons.prems(1) e by simp
  ultimately obtain c p r nl where g: "inode_dentry_get dk sb inode off ctx = Inr (Some p, c)"
      "ctx_ok dk sb inode c" "dentry_rec_len (ctx_buf c) p = Inr r" "dentry_inode (ctx_buf c) p = Inr i"
      "dentry_name_len (ctx_buf c) p = Inr nl" "dentry_name (ctx_buf c) p (unat nl) = Inr nm"
      "length nm = unat nl" "o' = unat off + unat r" "dir_list dk sb inode o' es"
    using dentry_get_entry [OF wf Cons.prems(2)] by metis
  have "unat off + unat r \<le> unat (inode_get_size inode)" using dir_list_bound [OF g(9)] g(8) by simp
  then have o': "unat (off + ucast r) = o'" using sz g(8) by (subst unat_add_nowrap) simp_all
  have ow: "off + ucast r = of_nat o'" using o' by (rule eq_of_nat)
  have rest: "readdir_loop f filler dk sb inode (off + ucast r) c x = listing filler x es" for x
    using Cons.IH [of "off + ucast r" c f x] g(2,9) o' f(2) by simp
  have pn: "get_printable_name (ctx_buf c) p nl =
      (if EXT4_NAME_LEN \<le> length nm then Inl OutOfBounds else Inr (takeWhile (\<lambda>b. b \<noteq> 0) nm))"
    using g(6,7) by (simp add: get_printable_name_def)
  show ?case
    unfolding f(1) e listing.simps readdir_loop.simps g(1) rbind_Inr prod.case option.case g(3-5) Let_def
    by (simp add: pn cstr_takeWhile rest [unfolded ow] ow split: prod.split)
qed

end
