(* ===== verification/Fuse_main.thy ===== *)
theory Fuse_main
  imports Ops
begin

text \<open>
  Model of \<^verbatim>\<open>fuse/logging.c\<close> and of the main program \<^verbatim>\<open>fuse/fuse-main.c\<close>. libfuse is not in the repository: its option
  parser and its event loop are parameters.
\<close>

section \<open>logging.c\<close>

text \<open>The static variables: the level, and what has been written to the log file when one is open.\<close>

record logging =
  loglevel :: int
  logfile :: "bytes option"

definition DEFAULT_LOG_LEVEL :: int where
  "DEFAULT_LOG_LEVEL = 7"

definition logging_start :: logging where
  "logging_start = \<lparr>loglevel = DEFAULT_LOG_LEVEL, logfile = None\<rparr>"

definition loglevel_str :: "bytes list" where
  "loglevel_str = [lit ''[emerg]'', lit ''[alert]'', lit ''[crit] '', lit ''[err]  '', lit ''[warn] '', lit ''[notic]'',
     lit ''[info] '', lit ''[debug]'']"

text \<open>One line of the log; \<open>msg\<close> is the message as \<^verbatim>\<open>vfprintf\<close> formats it.\<close>

definition log_line :: "int \<Rightarrow> bytes \<Rightarrow> int \<Rightarrow> bytes \<Rightarrow> bytes" where
  "log_line level func line msg =
     loglevel_str ! nat level @ lit ''['' @ func @ lit '':'' @ dec_int line @ lit ''] '' @ msg @ [10]"

definition LOG :: "int \<Rightarrow> bytes \<Rightarrow> int \<Rightarrow> bytes \<Rightarrow> logging \<Rightarrow> logging res" where
  "LOG level func line msg st =
     (case logfile st of
        None \<Rightarrow> Inr st
      | Some out \<Rightarrow>
          if level < 0 then Inr st
          else if level > loglevel st then Inr st
          else if nat level < length loglevel_str
               then Inr (st\<lparr>logfile := Some (out @ log_line level func line msg)\<rparr>)
               else Inl OutOfBounds)"

definition logging_setlevel :: "int \<Rightarrow> logging \<Rightarrow> logging" where
  "logging_setlevel new_level st = st\<lparr>loglevel := new_level\<rparr>"

text \<open>\<^verbatim>\<open>logging_open\<close>: \<open>fopen_w\<close> says whether the file can be opened, which empties it.\<close>

definition logging_open :: "(bytes \<Rightarrow> bool) \<Rightarrow> bytes option \<Rightarrow> logging \<Rightarrow> int \<times> logging" where
  "logging_open fopen_w path st =
     (case path of
        None \<Rightarrow> (0, st)
      | Some p \<Rightarrow> if fopen_w p then (0, st\<lparr>logfile := Some []\<rparr>) else (- 1, st\<lparr>logfile := None\<rparr>))"

section \<open>fuse-main.c\<close>

record e4f =
  e4f_disk :: "string option"
  e4f_logfile :: "bytes option"

datatype opt_key = FUSE_OPT_KEY_OPT | FUSE_OPT_KEY_NONOPT | OtherKey int

text \<open>\<^verbatim>\<open>e4f_opt_proc\<close>: the first argument that is no option is the disk; the others stay for libfuse.\<close>

definition e4f_opt_proc :: "string \<Rightarrow> opt_key \<Rightarrow> e4f \<Rightarrow> (int \<times> e4f) res" where
  "e4f_opt_proc arg key e =
     (case key of
        FUSE_OPT_KEY_OPT \<Rightarrow> Inr (1, e)
      | FUSE_OPT_KEY_NONOPT \<Rightarrow>
          (case e4f_disk e of None \<Rightarrow> Inr (0, e\<lparr>e4f_disk := Some arg\<rparr>) | Some _ \<Rightarrow> Inr (1, e))
      | OtherKey _ \<Rightarrow> Inl AssertFail)"

text \<open>
  \<^verbatim>\<open>e4f_opts\<close>: the one option of the program, \<^verbatim>\<open>logfile=%s\<close>, whose argument libfuse stores in the field \<^verbatim>\<open>logfile\<close>. A template
  is given by the text before \<^verbatim>\<open>%s\<close>.
\<close>

definition e4f_opts :: "string list" where
  "e4f_opts = [''logfile='']"

definition DEFAULT_LOG_FILE :: "bytes option" where
  "DEFAULT_LOG_FILE = None"

text \<open>
  \<^verbatim>\<open>signal_handle_sigsegv\<close>: the log when it aborts; \<open>strings\<close> is what \<^verbatim>\<open>backtrace_symbols\<close> gives for the at most 10
  addresses of \<^verbatim>\<open>backtrace\<close>. \<^verbatim>\<open>LOG_DEBUG\<close> is 7.
\<close>

definition signal_handle_sigsegv :: "bytes list \<Rightarrow> logging \<Rightarrow> logging res" where
  "signal_handle_sigsegv strings st =
     (let debug = (\<lambda>line. LOG 7 (lit ''signal_handle_sigsegv'') line); bar = replicate 40 61 in
      rbind (debug 86 bar st) (\<lambda>st.
      rbind (debug 87 (lit ''Segmentation Fault.  Starting backtrace:'') st) (\<lambda>st.
      rbind (foldl (\<lambda>m s. rbind m (debug 92 s)) (Inr st) (take 10 strings)) (\<lambda>st.
      debug 93 bar st))))"

definition EXIT_FAILURE :: int where
  "EXIT_FAILURE = 1"

text \<open>
  The environment of the program: whether the handler of \<^verbatim>\<open>SIGSEGV\<close> can be set, the parser of libfuse (its
  result, the arguments left and the options), the files, and the event loop of libfuse on a disk.
\<close>

record system =
  sys_signal :: bool
  sys_opt_parse :: "string list \<Rightarrow> (string \<Rightarrow> opt_key \<Rightarrow> e4f \<Rightarrow> (int \<times> e4f) res) \<Rightarrow> string list \<Rightarrow> e4f \<Rightarrow> (int \<times> string list \<times> e4f) res"
  sys_fopen_w :: "bytes \<Rightarrow> bool"
  sys_open_rdonly :: "string \<Rightarrow> int + device"
  sys_fuse_main :: "string list \<Rightarrow> disk \<Rightarrow> int"

definition disk_magic_offset :: u64 where
  "disk_magic_offset = BOOT_SECTOR_SIZE + of_nat (offsetof ext4_super_block_fields ''s_magic'')"

text \<open>\<^verbatim>\<open>main\<close>: the exit status, and the arguments and the disk that \<^verbatim>\<open>fuse_main\<close> is called with, if it is.\<close>

definition main_program :: "system \<Rightarrow> string list \<Rightarrow> logging \<Rightarrow> (int \<times> (string list \<times> disk) option) res" where
  "main_program sys argv st =
     (if \<not> sys_signal sys then Inr (EXIT_FAILURE, None)
      else
        rbind (sys_opt_parse sys e4f_opts e4f_opt_proc argv \<lparr>e4f_disk = None, e4f_logfile = DEFAULT_LOG_FILE\<rparr>) (\<lambda>(r, args, e).
        if r = - 1 then Inr (EXIT_FAILURE, None)
        else case e4f_disk e of
               None \<Rightarrow> Inr (1, None)
             | Some path \<Rightarrow>
                 let (r, st) = logging_open (sys_fopen_w sys) (e4f_logfile e) st in
                 if r < 0 then Inr (EXIT_FAILURE, None)
                 else let (r, dk) = disk_open (sys_open_rdonly sys) path in
                      if r < 0 then Inr (EXIT_FAILURE, None)
                      else rbind (disk_read_ret dk disk_magic_offset 2) (\<lambda>(r, bs).
                           if sint r < 0 then Inr (EXIT_FAILURE, None)
                           else if le16 bs 0 \<noteq> 0xEF53 then Inr (EXIT_FAILURE, None)
                           else Inr (sys_fuse_main sys args dk, Some (args, dk)))))"

section \<open>What fuse\_opt.h documents of the parser\<close>

text \<open>
  The arguments of a command line: one that is no option, options after \<^verbatim>\<open>-o\<close>, in the same word or, with \<open>True\<close>, in the next
  one, and another option. \<^verbatim>\<open>--\<close>, a single \<^verbatim>\<open>-\<close> and escapes with a backslash are left out.
\<close>

datatype cli_arg = Plain string | OptList bool "string list" | OtherOpt string

fun commas :: "string list \<Rightarrow> string" where
  "commas [] = []"
| "commas [a] = a"
| "commas (a # as) = a @ CHR '','' # commas as"

fun cli_words :: "cli_arg \<Rightarrow> string list" where
  "cli_words (Plain a) = [a]"
| "cli_words (OptList next as) = (if next then [''-o'', commas as] else [''-o'' @ commas as])"
| "cli_words (OtherOpt a) = [a]"

fun cli_ok :: "cli_arg \<Rightarrow> bool" where
  "cli_ok (Plain a) \<longleftrightarrow> take 1 a \<noteq> ''-''"
| "cli_ok (OptList _ as) \<longleftrightarrow> as \<noteq> [] \<and> list_all (\<lambda>a. a \<noteq> [] \<and> CHR '','' \<notin> set a \<and> CHR 0x5C \<notin> set a) as"
| "cli_ok (OtherOpt a) \<longleftrightarrow> take 1 a = ''-'' \<and> take 2 a \<noteq> ''-o'' \<and> a \<noteq> ''-'' \<and> a \<noteq> ''--''"

text \<open>
  What the procedure may be called with: the text, an option of \<^verbatim>\<open>-o\<close> without this prefix, its key, and whether it is an option
  of \<^verbatim>\<open>-o\<close>, which is first compared with the templates. The argument of one that matches is stored.
\<close>

fun cli_items :: "cli_arg \<Rightarrow> (string \<times> opt_key \<times> bool) list" where
  "cli_items (Plain a) = [(a, FUSE_OPT_KEY_NONOPT, False)]"
| "cli_items (OptList _ as) = map (\<lambda>a. (a, FUSE_OPT_KEY_OPT, True)) as"
| "cli_items (OtherOpt a) = [(a, FUSE_OPT_KEY_OPT, False)]"

definition opt_value :: "string list \<Rightarrow> string \<times> opt_key \<times> bool \<Rightarrow> string option" where
  "opt_value opts x =
     (case x of (a, _, o_opt) \<Rightarrow>
        if o_opt then map_option (\<lambda>t. drop (length t) a) (find (\<lambda>t. take (length t) a = t) opts) else None)"

text \<open>
  The calls of the procedure, in order: the result, the items that it keeps and the options. A result of \<open>-1\<close> ends the
  parser with \<open>-1\<close>, \<open>1\<close> keeps the argument, \<open>0\<close> discards it.
\<close>

fun opt_calls :: "string list \<Rightarrow> (string \<Rightarrow> opt_key \<Rightarrow> e4f \<Rightarrow> (int \<times> e4f) res) \<Rightarrow> (string \<times> opt_key \<times> bool) list \<Rightarrow> e4f \<Rightarrow>
    (int \<times> (string \<times> opt_key \<times> bool) list \<times> e4f) res" where
  "opt_calls opts proc [] e = Inr (0, [], e)"
| "opt_calls opts proc (x # xs) e =
     (case opt_value opts x of
        Some v \<Rightarrow> opt_calls opts proc xs (e\<lparr>e4f_logfile := Some (lit v)\<rparr>)
      | None \<Rightarrow>
          rbind (proc (fst x) (fst (snd x)) e) (\<lambda>(r, e).
          if r = - 1 then Inr (- 1, [], e)
          else rbind (opt_calls opts proc xs e) (\<lambda>(r', ks, e). Inr (r', if r = 1 then x # ks else ks, e))))"

text \<open>The words of a command line, read as arguments, and those of the words that are no options.\<close>

fun split_commas :: "string \<Rightarrow> string list" where
  "split_commas [] = [[]]"
| "split_commas (c # cs) =
     (if c = CHR '','' then [] # split_commas cs
      else case split_commas cs of [] \<Rightarrow> [[c]] | a # as \<Rightarrow> (c # a) # as)"

fun cli_parse :: "string list \<Rightarrow> cli_arg list" where
  "cli_parse [] = []"
| "cli_parse (w # ws) =
     (if w = ''-o'' then (case ws of [] \<Rightarrow> [] | v # vs \<Rightarrow> OptList True (split_commas v) # cli_parse vs)
      else if take 2 w = ''-o'' then OptList False (split_commas (drop 2 w)) # cli_parse ws
      else if take 1 w = ''-'' then OtherOpt w # cli_parse ws
      else Plain w # cli_parse ws)"

definition plains :: "cli_arg list \<Rightarrow> string list" where
  "plains cl = concat (map (\<lambda>c. case c of Plain a \<Rightarrow> [a] | _ \<Rightarrow> []) cl)"

definition nonopts :: "(string \<times> opt_key \<times> bool) list \<Rightarrow> string list" where
  "nonopts xs = map fst (filter (\<lambda>x. fst (snd x) = FUSE_OPT_KEY_NONOPT) xs)"

text \<open>
  The contract of \<^verbatim>\<open>fuse_opt_parse\<close>: it makes these calls and gives their result; in the arguments left, those that are no options
  are the ones kept, in order. Where the kept options go is not documented.
\<close>

definition fuse_opt_documented :: "(string list \<Rightarrow> (string \<Rightarrow> opt_key \<Rightarrow> e4f \<Rightarrow> (int \<times> e4f) res) \<Rightarrow> string list \<Rightarrow> e4f \<Rightarrow>
    (int \<times> string list \<times> e4f) res) \<Rightarrow> bool" where
  "fuse_opt_documented parse \<longleftrightarrow> (\<forall>opts proc prog cl e. list_all cli_ok cl \<longrightarrow>
     (case opt_calls opts proc (concat (map cli_items cl)) e of
        Inl f \<Rightarrow> parse opts proc (prog # concat (map cli_words cl)) e = Inl f
      | Inr (r, ks, e') \<Rightarrow> \<exists>rest. parse opts proc (prog # concat (map cli_words cl)) e = Inr (r, prog # rest, e') \<and>
          (r \<noteq> - 1 \<longrightarrow> plains (cli_parse rest) = nonopts ks)))"

text \<open>The log file that the last option for it names.\<close>

fun log_named :: "(string \<times> opt_key \<times> bool) list \<Rightarrow> bytes option \<Rightarrow> bytes option" where
  "log_named [] l = l"
| "log_named (x # xs) l = log_named xs (case opt_value e4f_opts x of None \<Rightarrow> l | Some v \<Rightarrow> Some (lit v))"

section \<open>A parser that keeps the contract\<close>

text \<open>It makes the calls for the arguments it reads in the words, and gives each kept option of \<^verbatim>\<open>-o\<close> an \<^verbatim>\<open>-o\<close> of its own.\<close>

definition item_words :: "string \<times> opt_key \<times> bool \<Rightarrow> string list" where
  "item_words x = (case x of (a, _, o_opt) \<Rightarrow> if o_opt then [''-o'', a] else [a])"

definition some_opt_parse :: "string list \<Rightarrow> (string \<Rightarrow> opt_key \<Rightarrow> e4f \<Rightarrow> (int \<times> e4f) res) \<Rightarrow> string list \<Rightarrow> e4f \<Rightarrow>
    (int \<times> string list \<times> e4f) res" where
  "some_opt_parse opts proc argv e =
     rbind (opt_calls opts proc (concat (map cli_items (cli_parse (tl argv)))) e) (\<lambda>(r, ks, e).
     Inr (r, hd argv # concat (map item_words ks), e))"

lemma split_commas_word: "CHR '','' \<notin> set a \<Longrightarrow> split_commas a = [a]"
  by (induction a) auto

lemma split_commas_append: "CHR '','' \<notin> set a \<Longrightarrow> split_commas (a @ CHR '','' # s) = a # split_commas s"
  by (induction a) auto

lemma split_commas_commas:
  "as \<noteq> [] \<Longrightarrow> list_all (\<lambda>a. a \<noteq> [] \<and> CHR '','' \<notin> set a \<and> CHR 0x5C \<notin> set a) as \<Longrightarrow> split_commas (commas as) = as"
  by (induction as rule: commas.induct) (simp_all add: split_commas_word split_commas_append)

lemma commas_nonempty: "cli_ok (OptList b as) \<Longrightarrow> commas as \<noteq> []"
  by (cases as rule: commas.cases) auto

lemma cli_parse_words: "list_all cli_ok cl \<Longrightarrow> cli_parse (concat (map cli_words cl)) = cl"
proof (induction cl)
  case (Cons c cl)
  show ?case
  proof (cases c)
    case (OptList b as)
    then have "commas as \<noteq> []" "split_commas (commas as) = as"
      using Cons.prems commas_nonempty [of b as] by (simp_all add: split_commas_commas)
    then show ?thesis using Cons OptList by simp
  next
    case (Plain a)
    then have "take 1 a \<noteq> ''-''" using Cons.prems by simp
    then have "a \<noteq> ''-o''" "take 2 a \<noteq> ''-o''" by (cases a; auto)+
    then show ?thesis using Cons Plain by simp
  next
    case (OtherOpt a)
    then have "take 1 a = ''-''" "take 2 a \<noteq> ''-o''" using Cons.prems by simp_all
    moreover from this have "a \<noteq> ''-o''" by auto
    ultimately show ?thesis using Cons OtherOpt by simp
  qed
qed simp

text \<open>The items of well-formed arguments, and what is kept of them.\<close>

definition item_ok :: "string \<times> opt_key \<times> bool \<Rightarrow> bool" where
  "item_ok x \<longleftrightarrow> (case x of (a, k, o_opt) \<Rightarrow>
     if o_opt then k \<noteq> FUSE_OPT_KEY_NONOPT else (k = FUSE_OPT_KEY_NONOPT \<longleftrightarrow> take 1 a \<noteq> ''-'') \<and> take 2 a \<noteq> ''-o'')"

lemma cli_items_ok: "cli_ok c \<Longrightarrow> list_all item_ok (cli_items c)"
proof (cases c)
  case (Plain a)
  assume "cli_ok c"
  then have "take 1 a \<noteq> ''-''" using Plain by simp
  then have "take 2 a \<noteq> ''-o''" by (cases a) auto
  then show ?thesis using \<open>take 1 a \<noteq> ''-''\<close> Plain by (simp add: item_ok_def)
qed (auto simp: item_ok_def list_all_iff)

lemma opt_calls_kept: "opt_calls opts proc xs e = Inr (r, ks, e') \<Longrightarrow> list_all item_ok xs \<Longrightarrow> list_all item_ok ks"
  by (induction xs arbitrary: e r ks) (auto simp: rbind_eq_Inr split: option.splits if_splits)

lemma plains_items:
  "list_all item_ok ks \<Longrightarrow>
   plains (cli_parse (concat (map item_words ks))) = nonopts ks"
proof (induction ks)
  case (Cons x ks)
  obtain a k b where x: "x = (a, k, b)" by (cases x)
  then have "item_ok (a, k, b)" using Cons.prems by simp
  moreover have "take 2 a \<noteq> ''-o'' \<Longrightarrow> a \<noteq> ''-o''" by auto
  ultimately show ?case using Cons by (auto simp: x item_ok_def item_words_def plains_def nonopts_def split: if_splits)
qed (simp add: plains_def nonopts_def)

lemma some_opt_parse_documented: "fuse_opt_documented some_opt_parse"
  unfolding fuse_opt_documented_def
proof (intro allI impI)
  fix opts proc prog cl e
  assume ok: "list_all cli_ok cl"
  let ?xs = "concat (map cli_items cl)"
  have xs: "list_all item_ok ?xs" using ok cli_items_ok by (induction cl) auto
  show "case opt_calls opts proc ?xs e of
        Inl f \<Rightarrow> some_opt_parse opts proc (prog # concat (map cli_words cl)) e = Inl f
      | Inr (r, ks, e') \<Rightarrow> \<exists>rest. some_opt_parse opts proc (prog # concat (map cli_words cl)) e = Inr (r, prog # rest, e') \<and>
          (r \<noteq> - 1 \<longrightarrow> plains (cli_parse rest) = nonopts ks)"
    using plains_items opt_calls_kept [OF _ xs]
    by (auto simp: some_opt_parse_def cli_parse_words [OF ok] split: sum.split prod.split)
qed

section \<open>The arguments of the program\<close>

lemma nonopts_items: "nonopts (concat (map cli_items cl)) = plains cl"
proof -
  have "nonopts (xs @ ys) = nonopts xs @ nonopts ys" for xs ys by (simp add: nonopts_def)
  moreover have "nonopts (cli_items c) = (case c of Plain a \<Rightarrow> [a] | _ \<Rightarrow> [])" for c
    by (cases c) (simp_all add: nonopts_def filter_map comp_def)
  ultimately show ?thesis by (induction cl) (simp_all add: plains_def nonopts_def)
qed

definition known_key :: "string \<times> opt_key \<times> bool \<Rightarrow> bool" where
  "known_key x \<longleftrightarrow> (case x of (a, k, o_opt) \<Rightarrow> k = FUSE_OPT_KEY_OPT \<or> k = FUSE_OPT_KEY_NONOPT \<and> \<not> o_opt)"

lemma cli_items_known: "list_all known_key (concat (map cli_items cl))"
proof (induction cl)
  case (Cons c cl)
  then show ?case by (cases c) (auto simp: known_key_def list_all_iff)
qed simp

text \<open>The procedure of the program takes the first argument that is no option and keeps the others.\<close>

lemma calls_after_disk:
  "e4f_disk e = Some p \<Longrightarrow> list_all known_key xs \<Longrightarrow>
   \<exists>ks. opt_calls e4f_opts e4f_opt_proc xs e = Inr (0, ks, e\<lparr>e4f_logfile := log_named xs (e4f_logfile e)\<rparr>) \<and>
     nonopts ks = nonopts xs"
proof (induction xs arbitrary: e)
  case (Cons x xs)
  obtain a k b where x: "x = (a, k, b)" by (cases x)
  have IH: "\<exists>ks. opt_calls e4f_opts e4f_opt_proc xs e' = Inr (0, ks, e'\<lparr>e4f_logfile := log_named xs (e4f_logfile e')\<rparr>) \<and>
      nonopts ks = nonopts xs" if "e4f_disk e' = Some p" for e'
    using Cons.IH [OF that] Cons.prems(2) by simp
  show ?case
  proof (cases "opt_value e4f_opts x")
    case None
    have "e4f_opt_proc a k e = Inr (1, e)" using Cons.prems by (auto simp: x known_key_def e4f_opt_proc_def)
    then show ?thesis using None IH [OF Cons.prems(1)] by (auto simp: x nonopts_def)
  next
    case (Some v)
    then have "k \<noteq> FUSE_OPT_KEY_NONOPT" using Cons.prems(2) by (auto simp: x known_key_def opt_value_def)
    then show ?thesis using Some IH [of "e\<lparr>e4f_logfile := Some (lit v)\<rparr>"] Cons.prems(1) by (auto simp: x nonopts_def)
  qed
qed (simp add: nonopts_def)

lemma calls_of_program:
  "e4f_disk e = None \<Longrightarrow> list_all known_key xs \<Longrightarrow>
   \<exists>ks. opt_calls e4f_opts e4f_opt_proc xs e = Inr (0, ks, e\<lparr>e4f_disk := (case nonopts xs of [] \<Rightarrow> None | p # _ \<Rightarrow> Some p),
       e4f_logfile := log_named xs (e4f_logfile e)\<rparr>) \<and> nonopts ks = tl (nonopts xs)"
proof (induction xs arbitrary: e)
  case (Cons x xs)
  obtain a k b where x: "x = (a, k, b)" by (cases x)
  show ?case
  proof (cases "k = FUSE_OPT_KEY_NONOPT")
    case True
    then have none: "opt_value e4f_opts x = None" using Cons.prems(2) by (simp add: x known_key_def opt_value_def)
    have "e4f_opt_proc a k e = Inr (0, e\<lparr>e4f_disk := Some a\<rparr>)" using True Cons.prems(1) by (simp add: e4f_opt_proc_def)
    then show ?thesis using none calls_after_disk [of "e\<lparr>e4f_disk := Some a\<rparr>" a xs] Cons.prems(2) True
      by (auto simp: x nonopts_def)
  next
    case False
    then have "e4f_opt_proc a k e = Inr (1, e)" using Cons.prems(2) by (simp add: x known_key_def e4f_opt_proc_def)
    then show ?thesis
      using Cons.IH [of e] Cons.IH [of "e\<lparr>e4f_logfile := Some v\<rparr>" for v] Cons.prems False
      by (cases "opt_value e4f_opts x") (auto simp: x nonopts_def)
  qed
qed (simp add: nonopts_def)

lemma parse_program:
  assumes "fuse_opt_documented parse" "list_all cli_ok cl"
  shows "\<exists>rest. parse e4f_opts e4f_opt_proc (prog # concat (map cli_words cl)) \<lparr>e4f_disk = None, e4f_logfile = l\<rparr> =
      Inr (0, prog # rest, \<lparr>e4f_disk = (case plains cl of [] \<Rightarrow> None | p # _ \<Rightarrow> Some p),
        e4f_logfile = log_named (concat (map cli_items cl)) l\<rparr>) \<and> plains (cli_parse rest) = tl (plains cl)"
proof -
  let ?e = "\<lparr>e4f_disk = None, e4f_logfile = l\<rparr>"
  obtain ks where ks: "opt_calls e4f_opts e4f_opt_proc (concat (map cli_items cl)) ?e =
      Inr (0, ks, \<lparr>e4f_disk = (case plains cl of [] \<Rightarrow> None | p # _ \<Rightarrow> Some p),
        e4f_logfile = log_named (concat (map cli_items cl)) l\<rparr>)" "nonopts ks = tl (plains cl)"
    using calls_of_program [OF _ cli_items_known, of ?e cl] by (auto simp: nonopts_items)
  have "case opt_calls e4f_opts e4f_opt_proc (concat (map cli_items cl)) ?e of
        Inl f \<Rightarrow> parse e4f_opts e4f_opt_proc (prog # concat (map cli_words cl)) ?e = Inl f
      | Inr (r, ks, e') \<Rightarrow> \<exists>rest. parse e4f_opts e4f_opt_proc (prog # concat (map cli_words cl)) ?e = Inr (r, prog # rest, e') \<and>
          (r \<noteq> - 1 \<longrightarrow> plains (cli_parse rest) = nonopts ks)"
    using assms unfolding fuse_opt_documented_def by blast
  then show ?thesis using ks(2) by (auto simp: ks(1))
qed

lemma magic_offset: "disk_magic_offset = 1080"
  by (simp add: disk_magic_offset_def BOOT_SECTOR_SIZE_def offsetof_def struct_defs align_up_def)

section \<open>Properties\<close>


definition some_system :: system where
  "some_system = \<lparr>sys_signal = True, sys_opt_parse = some_opt_parse,
     sys_fopen_w = (\<lambda>_. True), sys_open_rdonly = (\<lambda>_. Inr \<lparr>dev_size = 4096, dev_byte = (\<lambda>i. if i = 1080 then 0x53 else 0xEF)\<rparr>),
     sys_fuse_main = (\<lambda>_ _. 0)\<rparr>"


text \<open>
  The log file holds the lines of the messages whose level is at most the level set, in the order of the calls,
  and no others.
\<close>

theorem log_holds_levels:
  assumes "\<forall>(level, func, line, msg) \<in> set ms. level < 8"
  shows "foldl (\<lambda>st (level, func, line, msg). rbind st (LOG level func line msg))
      (Inr \<lparr>loglevel = l, logfile = Some out\<rparr>) ms =
    Inr \<lparr>loglevel = l, logfile = Some (out @ concat (map (\<lambda>(level, func, line, msg). log_line level func line msg)
      (filter (\<lambda>(level, _). 0 \<le> level \<and> level \<le> l) ms)))\<rparr>"
  using assms
proof (induction ms arbitrary: out)
  case (Cons m ms)
  obtain level func line msg where m: "m = (level, func, line, msg)" by (cases m)
  have "LOG level func line msg \<lparr>loglevel = l, logfile = Some out\<rparr> =
      Inr \<lparr>loglevel = l, logfile = Some (if 0 \<le> level \<and> level \<le> l then out @ log_line level func line msg else out)\<rparr>"
    using Cons.prems by (auto simp: LOG_def m loglevel_str_def)
  then show ?case using Cons by (simp add: m)
qed simp

theorem log_holds_levels_witness:
  "foldl (\<lambda>st (level, func, line, msg). rbind st (LOG level func line msg))
      (Inr \<lparr>loglevel = 3, logfile = Some []\<rparr>) [(7, [97], 1, [98]), (3, [99], 2, [100])] =
    Inr \<lparr>loglevel = 3, logfile = Some (log_line 3 [99] 2 [100])\<rparr>"
  using log_holds_levels [of "[(7, [97], 1, [98]), (3, [99], 2, [100])]" 3 "[]"] by simp

text \<open>
  The handler of \<^verbatim>\<open>SIGSEGV\<close> writes the backtrace between two bars, when the log file takes debug messages, and nothing
  otherwise; it does not fault itself.
\<close>

theorem sigsegv_logs_backtrace:
  "signal_handle_sigsegv strings \<lparr>loglevel = l, logfile = Some out\<rparr> = Inr \<lparr>loglevel = l, logfile = Some (if 7 \<le> l
     then out @ concat (map (\<lambda>(line, msg). log_line 7 (lit ''signal_handle_sigsegv'') line msg)
       ([(86, replicate 40 61), (87, lit ''Segmentation Fault.  Starting backtrace:'')] @
        map (Pair 92) (take 10 strings) @ [(93, replicate 40 61)]))
     else out)\<rparr>"
proof -
  let ?f = "lit ''signal_handle_sigsegv''"
  have log: "LOG 7 ?f line msg \<lparr>loglevel = l, logfile = Some out\<rparr> =
      Inr \<lparr>loglevel = l, logfile = Some (if 7 \<le> l then out @ log_line 7 ?f line msg else out)\<rparr>" for line msg out
    by (simp add: LOG_def loglevel_str_def)
  have "foldl (\<lambda>m s. rbind m (LOG 7 ?f 92 s)) (Inr \<lparr>loglevel = l, logfile = Some out\<rparr>) ss =
      Inr \<lparr>loglevel = l, logfile = Some (if 7 \<le> l then out @ concat (map (log_line 7 ?f 92) ss) else out)\<rparr>" for ss out
    by (induction ss arbitrary: out) (simp_all add: log)
  then show ?thesis by (simp add: signal_handle_sigsegv_def log Let_def comp_def)
qed

end
