(* ===== verification/Image.thy ===== *)
theory Image
  imports Ops
begin

text \<open>
  A small file system image, on which the theorems about the file system are applied to concrete
  inputs: 16 blocks of 1024 bytes, one block group, a root directory with two files, one with
  extents and one with block indexes.
\<close>

fun region_byte :: "(nat \<times> bytes) list \<Rightarrow> nat \<Rightarrow> u8" where
  "region_byte [] n = 0"
| "region_byte ((off, bs) # rs) n =
     (if off \<le> n \<and> n < off + length bs then bs ! (n - off) else region_byte rs n)"

definition img_super :: bytes where
  "img_super = [0, 0, 0, 0, 16, 0, 0, 0, 0, 0, 0, 0, 0, 0, 0, 0, 0, 0, 0, 0, 0, 0, 0, 0, 0, 0, 0, 0,
     0, 0, 0, 0, 0, 32, 0, 0, 0, 0, 0, 0, 8, 0, 0, 0, 0, 0, 0, 0, 0, 0, 0, 0, 0, 0, 0, 0, 0x53, 0xEF]"

definition img_root_inode :: bytes where
  "img_root_inode = [0xED, 0x41, 0, 0, 0, 4, 0, 0]"

definition img_file_inode :: bytes where
  "img_file_inode = [0xA4, 0x81, 0, 0, 0xDC, 5, 0, 0, 0, 0, 0, 0, 0, 0, 0, 0, 0, 0, 0, 0, 0, 0, 0, 0,
     0, 0, 1, 0, 0, 0, 0, 0, 0, 0, 8, 0, 0, 0, 0, 0, 0x0A, 0xF3, 1, 0, 4, 0, 0, 0, 0, 0, 0, 0,
     0, 0, 0, 0, 2, 0, 0, 0, 6, 0, 0, 0]"

definition img_ind_inode :: bytes where
  "img_ind_inode = [0xA4, 0x81, 0, 0, 5, 0x34, 0, 0, 0, 0, 0, 0, 0, 0, 0, 0, 0, 0, 0, 0, 0, 0, 0, 0,
     0, 0, 1, 0, 0, 0, 0, 0, 0, 0, 0, 0, 0, 0, 0, 0, 9, 0, 0, 0]"

definition img_dir :: bytes where
  "img_dir = [2, 0, 0, 0, 12, 0, 1, 2, 46, 0, 0, 0, 3, 0, 0, 0, 12, 0, 1, 1, 97, 0, 0, 0,
     4, 0, 0, 0, 0xE8, 3, 1, 1, 98]"

definition img :: device where
  "img = \<lparr>dev_size = 16384, dev_byte = region_byte
     [(1024, img_super), (1112, [128, 0]), (2056, [3, 0, 0, 0]), (3200, img_root_inode), (3240, [5]),
      (3328, img_file_inode), (3456, img_ind_inode), (3544, [8]), (5120, img_dir),
      (7164, [104, 101, 108, 108, 111]), (8192, [10, 0, 0, 0, 11])]\<rparr>"

lemmas img_defs = img_super_def img_root_inode_def img_file_inode_def img_ind_inode_def img_dir_def

lemma img_size [simp]: "dev_size img = 16384"
  by (simp add: img_def)

lemma img_byte:
  "dev_byte img n = region_byte
     [(1024, img_super), (1112, [128, 0]), (2056, [3, 0, 0, 0]), (3200, img_root_inode), (3240, [5]),
      (3328, img_file_inode), (3456, img_ind_inode), (3544, [8]), (5120, img_dir),
      (7164, [104, 101, 108, 108, 111]), (8192, [10, 0, 0, 0, 11])] n"
  by (simp add: img_def)

text \<open>The state after mounting the image.\<close>

definition img_sb :: ext4_super_block where
  "img_sb = \<lparr>s_blocks_count_lo = 16, s_log_block_size = 0, s_blocks_per_group = 8192,
     s_inodes_per_group = 8, s_magic = 0xEF53, s_inode_size = 128, s_desc_size = 0\<rparr>"

definition img_state :: super where
  "img_state = \<lparr>super_block = img_sb, gdesc_table = [\<lparr>bg_inode_table_lo = 3\<rparr>]\<rparr>"

lemma le16_dev_bytes: "i + 2 \<le> n \<Longrightarrow> le16 (dev_bytes d off n) i = le16 (dev_bytes d (off + i) 2) 0"
  by (simp add: le16_def drop_dev_bytes take_dev_bytes)

lemma le8_dev_bytes: "i < n \<Longrightarrow> le8 (dev_bytes d off n) i = dev_byte d (off + i)"
  by (simp add: le8_def drop_dev_bytes take_dev_bytes min_def Suc_le_eq) (simp add: dev_bytes_def)

lemma dev_bytes_2: "dev_bytes d off 2 = [dev_byte d off, dev_byte d (off + 1)]"
  by (simp add: dev_bytes_def upt_rec)

lemma dev_bytes_4:
  "dev_bytes d off 4 = [dev_byte d off, dev_byte d (off + 1), dev_byte d (off + 2), dev_byte d (off + 3)]"
  by (simp add: dev_bytes_def upt_rec numeral_eq_Suc)

lemmas dev_word = le16_dev_bytes le32_dev_bytes le8_dev_bytes dev_bytes_2 dev_bytes_4

lemma le_words:
  "le16 [a, b] 0 = of_nat (unat a + 256 * unat b)"
  "le32 [a, b, c, e] 0 = of_nat (unat a + 256 * (unat b + 256 * (unat c + 256 * unat e)))"
  by (simp_all add: le16_def le32_def)

lemma img_block_size [simp]: "super_block_size img_sb = 1024"
  by (simp add: super_block_size_def img_sb_def push_bit_eq_mult)

lemma img_bsize [simp]: "bsize img_sb = 1024"
  by (simp add: bsize_def)

lemma wf_img [simp]: "wf_super img_sb"
  by (simp add: wf_super_def img_sb_def)

lemma img_groups: "super_n_block_groups img_sb = Inr 1"
  by (simp add: super_n_block_groups_def img_sb_def udiv_def) 

lemma wf_img_state [simp]: "wf_mount img_state"
  by (simp add: wf_mount_def img_state_def img_groups) (simp add: img_sb_def)


lemma img_inode_pos [simp]:
  "inode_pos img_state 2 = 3200" "inode_pos img_state 3 = 3328" "inode_pos img_state 4 = 3456"
  by (simp_all add: inode_pos_def img_state_def) (simp_all add: img_sb_def)

lemma img_on_disk:
  "inode_on_disk img img_state 2" "inode_on_disk img img_state 3" "inode_on_disk img img_state 4"
  by (simp_all add: inode_on_disk_def) (simp_all add: img_state_def img_sb_def)

lemma img_root:
  "inode_at img img_state 2 = \<lparr>i_mode = 0x41ED, i_uid = 0, i_size_lo = 1024, i_atime = 0, i_ctime = 0,
     i_mtime = 0, i_gid = 0, i_links_count = 0, i_blocks_lo = 0, i_flags = 0,
     i_block = dev_bytes img 3240 60, i_size_high = 0\<rparr>"
  by (simp add: inode_at_def inode_of_eq dev_word drop_dev_bytes take_dev_bytes)
    (simp add: img_byte img_defs le_words)

lemma img_file:
  "inode_at img img_state 3 = \<lparr>i_mode = 0x81A4, i_uid = 0, i_size_lo = 1500, i_atime = 0, i_ctime = 0,
     i_mtime = 0, i_gid = 0, i_links_count = 1, i_blocks_lo = 0, i_flags = 0x80000,
     i_block = dev_bytes img 3368 60, i_size_high = 0\<rparr>"
  by (simp add: inode_at_def inode_of_eq dev_word drop_dev_bytes take_dev_bytes)
    (simp add: img_byte img_defs le_words)

lemma img_ind:
  "inode_at img img_state 4 = \<lparr>i_mode = 0x81A4, i_uid = 0, i_size_lo = 13317, i_atime = 0, i_ctime = 0,
     i_mtime = 0, i_gid = 0, i_links_count = 1, i_blocks_lo = 0, i_flags = 0,
     i_block = dev_bytes img 3496 60, i_size_high = 0\<rparr>"
  by (simp add: inode_at_def inode_of_eq dev_word drop_dev_bytes take_dev_bytes)
    (simp add: img_byte img_defs le_words)


text \<open>The extents of the first file.\<close>

definition img_extents :: "ext4_extent list" where
  "img_extents = [\<lparr>ee_block = 0, ee_len = 2, ee_start_hi = 0, ee_start_lo = 6\<rparr>]"

lemma img_sizes:
  "unat (inode_get_size (inode_at img img_state 2)) = 1024"
  "unat (inode_get_size (inode_at img img_state 3)) = 1500"
  "unat (inode_get_size (inode_at img img_state 4)) = 13317"
  by (simp_all add: inode_size_eq img_root img_file img_ind)

lemma img_tree: "extent_tree (Some img) img_sb (i_block (inode_at img img_state 3)) 0 img_extents"
proof -
  let ?b = "dev_bytes img 3368 60"
  have h: "extent_header_of ?b 0 = \<lparr>eh_magic = EXT4_EXT_MAGIC, eh_entries = 1, eh_depth = 0\<rparr>"
    by (simp add: extent_header_of_eq dev_word) (simp add: img_byte img_defs le_words EXT4_EXT_MAGIC_def)
  have e: "extents_at (drop 12 ?b) 1 = img_extents"
    by (simp add: extents_at_def extent_of_eq drop_dev_bytes dev_word)
      (simp add: img_byte img_defs le_words img_extents_def)
  show ?thesis using extent_tree.leaf [of ?b 1 "Some img" img_sb] h e by (simp add: img_file)
qed

lemma img_ext_valid: "ext_valid (0, img_extents) img img_sb (inode_at img img_state 3)"
proof -
  have flag: "i_flags (inode_at img img_state 3) AND EXT4_EXTENTS_FL \<noteq> 0"
    by (simp add: img_file EXT4_EXTENTS_FL_def)
  have "(0 \<le> l \<and> l < 2) \<or> 2 \<le> l" for l :: nat by auto
  then show ?thesis using flag img_tree
    by (simp add: ext_valid_def img_sizes EXTENT_FUEL_def)
      (simp add: img_extents_def wf_extents_def ext_on_disk_def ee_end_def)
qed

lemma img_addrs:
  "le32 (i_block (inode_at img img_state 4)) 0 = 9" "le32 (i_block (inode_at img img_state 4)) 48 = 8"
  "0 < i \<Longrightarrow> i < 12 \<Longrightarrow> le32 (i_block (inode_at img img_state 4)) (4 * i) = 0"
  "addr_in img img_sb 8 0 = 10" "addr_in img img_sb 8 (Suc 0) = 11"
proof -
  assume "0 < i" "i < 12"
  then show "le32 (i_block (inode_at img img_state 4)) (4 * i) = 0"
    by (simp add: img_ind dev_word) (simp add: img_byte img_defs le_words)
qed (simp_all add: img_ind addr_in_def dev_word, simp_all add: img_byte img_defs le_words)

lemma img_ind_bm:
  assumes "l < 14"
  shows "ind_bm g img img_sb (inode_at img img_state 4) l =
     (if l = 0 then 9 else if l = 12 then 10 else if l = 13 then 11 else 0)"
proof -
  consider "l = 0" | "0 < l" "l < 12" | "l = 12" | "l = 13" using assms by linarith
  then show ?thesis
    by cases (simp_all add: ind_bm_def ind_place_def naddr_def img_addrs)
qed

lemma img_ind_valid: "ind_valid () img img_sb (inode_at img img_state 4)"
proof -
  have flag: "i_flags (inode_at img img_state 4) AND EXT4_EXTENTS_FL = 0" by (simp add: img_ind)
  have "(case ind_place img_sb l of
           None \<Rightarrow> False
         | Some (slot, k, i) \<Rightarrow> ind_ok img img_sb k (le32 (i_block (inode_at img img_state 4)) (4 * slot)) i) \<and>
        Suc (ind_bm () img img_sb (inode_at img img_state 4) l) * bsize img_sb \<le> dev_size img"
    if "l * 1024 < 13317" for l
  proof -
    consider "l < 12" | "l = 12" | "l = 13" using \<open>l * 1024 < 13317\<close> by linarith
    then show ?thesis
      by cases (simp_all add: img_ind_bm ind_place_def naddr_def img_addrs)
  qed
  then show ?thesis using flag by (simp add: ind_valid_def img_sizes)
qed


text \<open>The entries of the root directory.\<close>

definition img_ctx :: inode_dir_ctx where
  "img_ctx = \<lparr>ctx_lblock = 0, ctx_buf = dev_bytes img 5120 1024\<rparr>"

definition img_entries :: "(u32 \<times> bytes \<times> nat) list" where
  "img_entries = [(2, [46], 12), (3, [97], 24), (4, [98], 1024)]"

lemma img_in_device: "unat whr + unat sz \<le> 16384 \<Longrightarrow> in_device img whr sz"
  by (simp add: in_device_def MAX_RW_COUNT_def)

lemma img_dir_ctx: "dir_ctx_update (Some img) img_sb (inode_at img img_state 2) 0 = Inr img_ctx"
proof -
  have "le32 (dev_bytes img 3240 60) 0 = 5" by (simp add: dev_word) (simp add: img_byte le_words img_defs)
  moreover have "align_up 1024 1024 = 1024" by (simp add: align_up_def)
  ultimately have "inode_get_data_pblock (Some img) img_sb (inode_at img img_state 2) 0 = Inr (5, 1)"
    using ind_data_pblock [OF wf_img, of "inode_at img img_state 2" 0 0 0 0 img] img_sizes(1)
    by (simp add: img_root ind_place_def)
  then show ?thesis
    using disk_read_in [OF img_in_device, of 5120 1024]
    by (simp add: dir_ctx_update_def disk_read_block_def BLOCKS2BYTES_def img_ctx_def)
qed

lemma dentry_offsets:
  "offsetof ext4_dir_entry_2_fields ''inode'' = 0" "offsetof ext4_dir_entry_2_fields ''rec_len'' = 4"
  "offsetof ext4_dir_entry_2_fields ''name_len'' = 6" "offsetof ext4_dir_entry_2_fields ''name'' = 8"
  by code_simp+

lemma img_dentries:
  "dentry_rec_len (ctx_buf img_ctx) 0 = Inr 12" "dentry_inode (ctx_buf img_ctx) 0 = Inr 2"
  "dentry_name_len (ctx_buf img_ctx) 0 = Inr 1" "dentry_name (ctx_buf img_ctx) 0 1 = Inr [46]"
  "dentry_rec_len (ctx_buf img_ctx) 12 = Inr 12" "dentry_inode (ctx_buf img_ctx) 12 = Inr 3"
  "dentry_name_len (ctx_buf img_ctx) 12 = Inr 1" "dentry_name (ctx_buf img_ctx) 12 1 = Inr [97]"
  "dentry_rec_len (ctx_buf img_ctx) 24 = Inr 1000" "dentry_inode (ctx_buf img_ctx) 24 = Inr 4"
  "dentry_name_len (ctx_buf img_ctx) 24 = Inr 1" "dentry_name (ctx_buf img_ctx) 24 1 = Inr [98]"
  by (simp_all add: img_ctx_def dentry_rec_len_def dentry_inode_def dentry_name_len_def dentry_name_def
      dentry_offsets rd_in dev_word drop_dev_bytes take_dev_bytes)
    (simp_all add: dev_bytes_def img_byte le_words img_defs)

lemma img_dir_list: "dir_list (Some img) img_sb (inode_at img img_state 2) 0 img_entries"
proof -
  let ?L = "dir_list (Some img) img_sb (inode_at img img_state 2)"
  note ent = dir_list.entry [where dk = "Some img" and sb = img_sb and inode = "inode_at img img_state 2"
      and c = img_ctx, simplified img_bsize img_sizes]
  have "?L 1024 []" by (rule dir_list.finish) (simp add: img_sizes)
  then have "?L 24 [(4, [98], 1024)]"
    using ent [of 24 1000 4 1 "[98]" "[]"] img_dir_ctx img_dentries by simp
  then have "?L 12 [(3, [97], 24), (4, [98], 1024)]"
    using ent [of 12 12 3 1 "[97]" "[(4, [98], 1024)]"] img_dir_ctx img_dentries by simp
  then show ?thesis
    using ent [of 0 12 2 1 "[46]" "[(3, [97], 24), (4, [98], 1024)]"] img_dir_ctx img_dentries
    by (simp add: img_entries_def)
qed

section \<open>An extent tree of depth 1\<close>

text \<open>
  Another device with the same superblock. The root \<open>tree_root\<close> has two index entries, for the logical
  blocks from 0 in the leaf of block 4 and for those from 4 in the leaf of block 5.
\<close>

definition tree_root :: bytes where
  "tree_root = [0x0A, 0xF3, 2, 0, 4, 0, 1, 0, 0, 0, 0, 0,
     0, 0, 0, 0, 4, 0, 0, 0, 0, 0, 0, 0,  4, 0, 0, 0, 5, 0, 0, 0, 0, 0, 0, 0]"

definition tree_leaf1 :: bytes where
  "tree_leaf1 = [0x0A, 0xF3, 1, 0, 4, 0, 0, 0, 0, 0, 0, 0, 0, 0, 0, 0, 4, 0, 0, 0, 11, 0, 0, 0]"

definition tree_leaf2 :: bytes where
  "tree_leaf2 = [0x0A, 0xF3, 1, 0, 4, 0, 0, 0, 0, 0, 0, 0, 4, 0, 0, 0, 3, 0, 0, 0, 7, 0, 0, 0]"

definition tree_dev :: device where
  "tree_dev = \<lparr>dev_size = 16384, dev_byte = region_byte [(4096, tree_leaf1), (5120, tree_leaf2)]\<rparr>"

definition tree_extents :: "ext4_extent list list" where
  "tree_extents = [[\<lparr>ee_block = 0, ee_len = 4, ee_start_hi = 0, ee_start_lo = 11\<rparr>],
     [\<lparr>ee_block = 4, ee_len = 3, ee_start_hi = 0, ee_start_lo = 7\<rparr>]]"

lemma tree_bytes:
  "dev_bytes tree_dev 4096 24 = tree_leaf1" "dev_bytes tree_dev 5120 24 = tree_leaf2"
proof -
  have len: "length tree_leaf1 = 24" "length tree_leaf2 = 24" by (simp_all add: tree_leaf1_def tree_leaf2_def)
  show "dev_bytes tree_dev 4096 24 = tree_leaf1" "dev_bytes tree_dev 5120 24 = tree_leaf2"
    by (rule nth_equalityI; simp add: len nth_dev_bytes tree_dev_def)+
qed

lemma tree_leaves:
  "extent_header_of tree_leaf1 0 = \<lparr>eh_magic = EXT4_EXT_MAGIC, eh_entries = 1, eh_depth = 0\<rparr>"
  "extent_header_of tree_leaf2 0 = \<lparr>eh_magic = EXT4_EXT_MAGIC, eh_entries = 1, eh_depth = 0\<rparr>"
  "extents_at (drop 12 tree_leaf1) 1 = tree_extents ! 0" "extents_at (drop 12 tree_leaf2) 1 = tree_extents ! 1"
  by (simp_all add: extent_header_of_eq extents_at_def extent_of_eq tree_leaf1_def tree_leaf2_def le16_def le32_def
      EXT4_EXT_MAGIC_def tree_extents_def)

lemma tree_nodes:
  "node_entries tree_dev img_sb 4 = 1" "node_bytes tree_dev img_sb 4 = tree_leaf1"
  "node_entries tree_dev img_sb 5 = 1" "node_bytes tree_dev img_sb 5 = tree_leaf2"
proof -
  have "dev_bytes tree_dev 4096 12 = take 12 tree_leaf1" "dev_bytes tree_dev 5120 12 = take 12 tree_leaf2"
    using take_dev_bytes [of 12 tree_dev 4096 24] take_dev_bytes [of 12 tree_dev 5120 24] by (simp_all add: tree_bytes)
  then show n: "node_entries tree_dev img_sb 4 = 1" "node_entries tree_dev img_sb 5 = 1"
    by (simp_all add: node_entries_def extent_header_of_eq tree_leaf1_def tree_leaf2_def le16_def)
  show "node_bytes tree_dev img_sb 4 = tree_leaf1" "node_bytes tree_dev img_sb 5 = tree_leaf2"
    using n by (simp_all add: node_bytes_def tree_bytes)
qed

lemma tree_idxs:
  "extent_header_of tree_root 0 = \<lparr>eh_magic = EXT4_EXT_MAGIC, eh_entries = 2, eh_depth = 1\<rparr>"
  "idxs_at (drop 12 tree_root) 2 =
     [\<lparr>ei_block = 0, ei_leaf_lo = 4, ei_leaf_hi = 0\<rparr>, \<lparr>ei_block = 4, ei_leaf_lo = 5, ei_leaf_hi = 0\<rparr>]"
  by (simp_all add: extent_header_of_eq idxs_at_def extent_idx_of_eq tree_root_def le16_def le32_def EXT4_EXT_MAGIC_def
      upt_rec)

lemma tree_dev_tree: "extent_tree (Some tree_dev) img_sb tree_root 1 (concat tree_extents)"
proof -
  let ?T = "extent_tree (Some tree_dev) img_sb"
  have leaves: "?T tree_leaf1 0 (tree_extents ! 0)" "?T tree_leaf2 0 (tree_extents ! 1)"
    using extent_tree.leaf [of tree_leaf1 1 "Some tree_dev" img_sb] extent_tree.leaf [of tree_leaf2 1 "Some tree_dev" img_sb]
    by (simp_all only: tree_leaves) (simp_all add: tree_leaf1_def tree_leaf2_def)
  have n: "length tree_extents = 2" "length tree_root = 36" by (simp_all add: tree_extents_def tree_root_def)
  have "?T tree_root (Suc 0) (concat tree_extents)"
  proof (rule extent_tree.node [where d = tree_dev and ids = "idxs_at (drop 12 tree_root) 2"])
    show "\<forall>i < length tree_extents. node_on_disk tree_dev img_sb (ei_leaf_lo (idxs_at (drop 12 tree_root) 2 ! i)) \<and>
        ?T (node_bytes tree_dev img_sb (ei_leaf_lo (idxs_at (drop 12 tree_root) 2 ! i))) 0 (tree_extents ! i)"
      using leaves by (simp add: n tree_idxs less_2_cases_iff node_on_disk_def tree_nodes) (simp add: tree_dev_def)
  qed (simp_all add: n tree_idxs, simp_all add: tree_extents_def less_2_cases_iff ee_end_def)
  then show ?thesis by simp
qed

end
