(* ===== verification/Filesystem.thy ===== *)
theory Filesystem
  imports Image
begin

text \<open>
  The properties of the file system: reads of files, lookup of paths, listing of directories, the
  mount, and the requests that the code does not serve as it means to. Each theorem is applied to
  the image of theory \<open>Image\<close> where it has hypotheses.
\<close>

section \<open>Reading files\<close>

text \<open>
  (C1) \<^verbatim>\<open>op_read\<close> on a file with extents returns exactly the bytes of the file: as many as were asked
  for, or as there are up to the end of the file, the blocks in the order of the extent tree, zeros
  for the blocks after the last extent. The tree may have any depth. The conditions are that the file
  has no hole before an extent (the program misreads these, as is shown below), that
  extents and nodes lie on the device, that the request starts below \<open>2^63\<close> and asks for at most
  \<^verbatim>\<open>0x7ffff000\<close> bytes, and that it is aligned to a block or starts in a mapped block and, there, below
  4 GiB or does not leave the block (others abort, as is shown below).
\<close>

theorem op_read_extent_file:
  assumes "wf_mount st" "inode_on_disk d st (ucast fh)"
    and "ext_valid (h, es) d (super_block st) (inode_at d st (ucast fh))"
    and "unat offset < 9223372036854775808" "unat sz \<le> MAX_RW_COUNT"
    and "n = read_count (inode_at d st (ucast fh)) (unat sz) (unat offset)"
    and "0 < n \<Longrightarrow> start_ok (super_block st) (ext_block es) (unat offset) n"
  shows "op_read (Some d) st stack sz offset fh =
    Inr (of_nat n, file_bytes d (super_block st) (ext_block es) (unat offset) n)"
  using extent_file.read_ok [OF assms(1-6)] assms(7) by (simp add: ext_bm_def)

lemma img_state_sb [simp]: "super_block img_state = img_sb"
  by (simp add: img_state_def)

lemma img_first_bytes:
  "file_bytes img img_sb (ext_block img_extents) 1019 10 = [0, 104, 101, 108, 108, 111, 0, 0, 0, 0]"
  "start_ok img_sb (ext_block img_extents) 1019 10"
  by (simp_all add: start_ok_def file_bytes_def file_byte_def ext_block_def ee_end_def img_extents_def Let_def img_byte
      img_defs)

theorem op_read_extent_file_witness:
  "op_read (Some img) img_state [] 10 1019 3 = Inr (10, [0, 104, 101, 108, 108, 111, 0, 0, 0, 0])"
proof -
  have "op_read (Some img) img_state [] 10 1019 3 =
      Inr (of_nat 10, file_bytes img (super_block img_state) (ext_block img_extents) (unat (1019 :: u64)) 10)"
    by (rule op_read_extent_file [where h = 0])
      (simp_all add: img_on_disk img_ext_valid read_count_def img_sizes MAX_RW_COUNT_def img_first_bytes)
  then show ?thesis by (simp add: img_first_bytes)
qed

text \<open>
  (C2) The same for a file with ext2/ext3 block indexes: direct blocks, the indirect, the double and
  the triple indirect tree, with zeros for the data blocks whose address is 0. The conditions are that
  the index blocks on the way to every block of the file are present and on the device (a missing one
  is read from block 0, theorem \<open>missing_index_block_reads_block_0\<close>), and those on the request of the
  theorem above: an unaligned request starts in a mapped block, not in a hole (where
  bytes of block 0 are returned, as is shown below), below 4 GiB or inside one block.
\<close>

theorem op_read_indirect_file:
  assumes "wf_mount st" "inode_on_disk d st (ucast fh)"
    and "ind_valid () d (super_block st) (inode_at d st (ucast fh))"
    and "unat offset < 9223372036854775808" "unat sz \<le> MAX_RW_COUNT"
    and "n = read_count (inode_at d st (ucast fh)) (unat sz) (unat offset)"
    and "0 < n \<Longrightarrow> start_ok (super_block st) (ind_bm () d (super_block st) (inode_at d st (ucast fh))) (unat offset) n"
  shows "op_read (Some d) st stack sz offset fh =
    Inr (of_nat n, file_bytes d (super_block st) (ind_bm () d (super_block st) (inode_at d st (ucast fh))) (unat offset) n)"
  by (rule indirect_file.read_ok [OF assms])

theorem op_read_indirect_file_witness:
  "\<exists>p. op_read (Some img) img_state [] 5000 12288 4 = Inr (1029, p) \<and> length p = 1029"
  using op_read_indirect_file [OF wf_img_state, of img 4 12288 5000 1029 "[]"]
  by (simp add: img_on_disk img_ind_valid read_count_def img_sizes MAX_RW_COUNT_def start_ok_def file_bytes_def)

section \<open>Looking up paths\<close>

text \<open>
  (C3) \<^verbatim>\<open>inode_get_idx_by_path\<close> refines the walk over the directories that knows no cache, for an
  absolute path whose components have fewer than 40 bytes, each found only in the data of directories,
  on a file system with inodes of at least 128 bytes: with the entries of the
  cache true of the disk, it gives the inode number that following the components from the root through
  the directories gives (0 when one is missing), or fails as that walk fails, and the cache is
  well-formed and true of the disk again. For longer names this is false, as is shown
  in theory \<open>Dcache\<close>.
\<close>

theorem path_lookup_refines:
  assumes "dc_inv dc kids" "cache_sound dk st dc kids" "short_tokens path" "cstr_at path 0 = SLASH"
    and "dirs_on_path dk st (dcache_get_inode dc None) (tokens path)"
    and "128 \<le> unat (s_inode_size (super_block st))"
  shows "case resolve dk st (dcache_get_inode dc None) (tokens path) of
      Inl f \<Rightarrow> inode_get_idx_by_path dk st path dc stack = Inl f
    | Inr i \<Rightarrow> \<exists>dc' kids'. inode_get_idx_by_path dk st path dc stack = Inr (i, dc') \<and>
        dc_inv dc' kids' \<and> cache_sound dk st dc' kids'"
  using idx_by_path_refines [OF assms, of stack]
  by (cases "resolve dk st (dcache_get_inode dc None) (tokens path)") (auto simp: true_cache_def)

text \<open>The lookup of a name in a directory, by the entries of the directory.\<close>

lemma dir_child_find:
  assumes st: "wf_mount st" and on: "inode_on_disk d st ino"
    and sz: "unat (inode_get_size (inode_at d st ino)) < 4294967296"
    and es: "dir_list (Some d) (super_block st) (inode_at d st ino) 0 es"
    and ctx: "dir_ctx_update (Some d) (super_block st) (inode_at d st ino) 0 = Inr c" and nm: "length nm < 256"
  shows "dir_child (Some d) st ino nm = Inr (map_option fst (find (\<lambda>(i, m, _). i \<noteq> 0 \<and> m = nm) es))"
proof -
  obtain buf where "inode_get_by_number (Some d) st ino (replicate 156 0) = Inr (0, buf)"
      "inode_of buf = inode_at d st ino"
    using inode_get_by_number_in [OF st on] by blast
  moreover have "length es < DIR_FUEL" using dir_list_bound [OF es] sz by (simp add: DIR_FUEL_def)
  moreover have "wf_super (super_block st)" using st by (simp add: wf_mount_def)
  ultimately show ?thesis
    using dir_scan_find [of "super_block st" "inode_at d st ino" "length nm" nm "Some d" 0 es c DIR_FUEL]
      sz nm es ctx_ok_update [OF ctx] ctx
    by (simp add: dir_child_def inode_dir_ctx_reset_def)
qed


lemma img_child: "length nm < 256 \<Longrightarrow> dir_child (Some img) img_state 2 nm =
    Inr (map_option fst (find (\<lambda>(i, m, _). i \<noteq> 0 \<and> m = nm) img_entries))"
  using dir_child_find [OF wf_img_state img_on_disk(1), of img_entries img_ctx nm]
  by (simp add: img_sizes img_dir_list img_dir_ctx)

definition img_dc :: dcache where
  "img_dc = [zero_entry\<lparr>de_inode := 2\<rparr>]"

lemma img_dc_inv: "dc_inv img_dc (\<lambda>p. [])" "cache_sound dk st img_dc (\<lambda>p. [])"
  "dcache_get_inode img_dc None = 2"
  by (simp_all add: img_dc_def dc_inv_init(2) cache_sound_def dc_named_def dcache_get_inode_def)

lemma img_path: "tokens [47, 97] = [[97]]" "short_tokens [47, 97]"
  using tokens_slash [of "[97]"]
  by (simp_all add: short_tokens_def SLASH_def DCACHE_ENTRY_NAME_LEN_def) (simp_all add: tokens.simps SLASH_def)

lemma img_resolve: "resolve (Some img) img_state 2 [[97]] = Inr 3" "dirs_on_path (Some img) img_state 2 [[97]]"
proof -
  obtain buf where "inode_get_by_number (Some img) img_state 2 (replicate 156 0) = Inr (0, buf)"
      "inode_of buf = inode_at img img_state 2"
    using inode_get_by_number_in [OF wf_img_state img_on_disk(1)] by blast
  then show "dirs_on_path (Some img) img_state 2 [[97]]"
    by (simp add: img_child img_entries_def img_root S_ISDIR_def)
qed (simp add: img_child img_entries_def)

lemma root_path: "inode_get_idx_by_path dk img_state [47] img_dc [] = Inr (2, img_dc)"
proof -
  have "path_walk dk img_state [] 2 None img_dc [] = Inr (2, img_dc)"
    by (subst path_walk.simps) (simp add: skip_trailing_backslash_def)
  moreover have "cached_walk img_dc None [47] = Inr (None, [], img_dc)"
    by (subst cached_walk.simps) (simp add: cstr_at_def SLASH_def)
  ultimately show ?thesis
    by (simp add: inode_get_idx_by_path_def get_cached_inode_num_def img_dc_inv cstr_at_def SLASH_def)
qed

theorem path_lookup_refines_witness:
  "\<exists>dc'. inode_get_idx_by_path (Some img) img_state [47, 97] img_dc [] = Inr (3, dc')"
proof -
  have "128 \<le> unat (s_inode_size (super_block img_state))" by (simp add: img_sb_def)
  from path_lookup_refines [OF img_dc_inv(1,2) img_path(2) _ _ this, of "Some img" "[]"]
  show ?thesis by (auto simp: img_dc_inv img_path img_resolve cstr_at_def SLASH_def
        simp del: resolve.simps dirs_on_path.simps)
qed

text \<open>
  (C12) Looking a name up in a directory gives the inode of the first used entry with exactly that
  name, and nothing when there is none, whatever the number of entries and of blocks: the scan ends.
\<close>

theorem directory_lookup:
  assumes "wf_mount st" "inode_on_disk d st ino"
    and "unat (inode_get_size (inode_at d st ino)) < 4294967296"
    and "dir_list (Some d) (super_block st) (inode_at d st ino) 0 es"
    and "n \<le> length path" "n < 256" "ctx_ok (Some d) (super_block st) (inode_at d st ino) ctx"
  shows "dir_scan DIR_FUEL (Some d) (super_block st) (inode_at d st ino) path (of_nat n) 0 ctx =
    Inr (map_option fst (find (\<lambda>(i, nm, _). i \<noteq> 0 \<and> nm = take n path) es))"
proof -
  have "length es < DIR_FUEL" using dir_list_bound [OF assms(4)] assms(3) by (simp add: DIR_FUEL_def)
  moreover have "wf_super (super_block st)" using assms(1) by (simp add: wf_mount_def)
  ultimately show ?thesis
    using dir_scan_find [of "super_block st" "inode_at d st ino" n path "Some d" 0 es ctx DIR_FUEL] assms
    by simp
qed

theorem directory_lookup_witness:
  "dir_scan DIR_FUEL (Some img) img_sb (inode_at img img_state 2) [98, 47] 1 0 img_ctx = Inr (Some 4)"
  using directory_lookup [OF wf_img_state img_on_disk(1), of img_entries 1 "[98, 47]" img_ctx]
  by (simp add: img_sizes img_dir_list ctx_ok_update [OF img_dir_ctx]) (simp add: img_entries_def)

text \<open>
  (C13) \<^verbatim>\<open>op_readdir\<close> from the offset of any entry of the directory hands the used entries with a name from there on to
  the filler, in the order of the directory, each once and with the offset of the entry after it, until the filler
  says that it is full, and returns 0, when no name of the directory has 255 bytes. In general it does this up to the
  first used entry with a name of 255 bytes, where it writes past the end of \<^verbatim>\<open>name_buf\<close>.
\<close>

theorem readdir_lists_directory:
  assumes st: "wf_mount st" "inode_on_disk d st ino"
    and size: "unat (inode_get_size (inode_at d st ino)) < 9223372036854775808"
    and es: "dir_list (Some d) (super_block st) (inode_at d st ino) (unat off) es" and fuel: "length es < fuel"
    and ctx: "dir_ctx_update (Some d) (super_block st) (inode_at d st ino) 0 = Inr c"
    and path: "inode_get_idx_by_path (Some d) st path dc stack = Inr (ino, dc')"
  shows "op_readdir fuel filler (Some d) st dc path stack old off b =
      rbind (listing filler b es) (\<lambda>b. Inr (0, b, dc')) \<and>
    (list_all (\<lambda>(i, nm, o'). length nm < EXT4_NAME_LEN) es \<longrightarrow>
      op_readdir fuel filler (Some d) st dc path stack old off b = Inr (0, fill_all filler b (visible es), dc'))"
proof -
  obtain buf where "inode_get_by_number (Some d) st ino old = Inr (0, buf)"
      "inode_of buf = inode_at d st ino" using inode_get_by_number_in [OF st] by blast
  moreover have "wf_super (super_block st)" using st(1) by (simp add: wf_mount_def)
  ultimately show ?thesis
    using readdir_listing [of "super_block st" "inode_at d st ino" "Some d" off es c fuel filler b]
      size es fuel ctx ctx_ok_update [OF ctx] path
    by (simp add: op_readdir_def inode_get_by_path_def inode_dir_ctx_reset_def listing_visible)
qed

theorem readdir_lists_directory_witness:
  "op_readdir 4 (\<lambda>b nm off. (0, b @ [nm])) (Some img) img_state img_dc [47] [] [] 0 [] =
    Inr (0, [[46], [97], [98]], img_dc)"
proof -
  have "dir_list (Some img) (super_block img_state) (inode_at img img_state 2) (unat (0 :: u64)) img_entries"
    using img_dir_list by simp
  from readdir_lists_directory [OF wf_img_state img_on_disk(1) _ this _ _ root_path, of 4 img_ctx
      "\<lambda>b nm off. (0, b @ [nm])" "[]" "[]"]
  show ?thesis
    by (simp add: img_sizes img_dir_ctx)
      (simp add: img_entries_def visible_def EXT4_NAME_LEN_def cstr_at_def)
qed


section \<open>The map from logical to physical blocks\<close>

text \<open>
  (C6) \<^verbatim>\<open>extent_get_pblock\<close> finds the extent that covers a logical block in a tree of any depth, whose
  inner nodes and leaves are the bytes of the blocks of the device that the index entries name, and
  returns the physical block and the number of blocks from there to the end of the extent. The
  recursion ends at the height of the tree.
\<close>

theorem extent_lookup:
  assumes "extent_tree dk sb b h es" "wf_extents es" "e \<in> set es" "covers e l" "h < fuel"
    and "unat (ee_start_lo e) + unat (ee_len e) < 4294967296"
  shows "\<exists>p n. extent_get_pblock fuel dk sb b l = Inr (p, Some n) \<and>
    unat p = unat (ee_start_lo e) + (unat l - unat (ee_block e)) \<and> unat n = ee_end e - unat l"
proof -
  have "ee_end e < 4294967296" using assms(2,3) by (simp add: wf_extents_def)
  then show ?thesis using extent_covered [OF assms(1-5)] found_run [OF assms(4) _ assms(6)] by auto
qed

theorem extent_lookup_witness:
  "\<exists>p n. extent_get_pblock 2 (Some tree_dev) img_sb tree_root 5 = Inr (p, Some n) \<and> unat p = 8 \<and> unat n = 2"
  using extent_lookup [OF tree_dev_tree, of "tree_extents ! 1 ! 0" 5 2]
  by (simp add: tree_extents_def wf_extents_def covers_def ee_end_def)

text \<open>
  (C36) A hole before an extent is not seen: the scan stops at the first extent that ends after the
  logical block without asking whether the extent has begun, so a block of a hole is given the
  physical block that lies as far before the start of the next extent, not 0.
\<close>

theorem extent_hole_misread:
  assumes "extent_tree dk sb b 0 es" "wf_extents es" "next_extent es e l"
    and "unat (ee_block e) - unat l < unat (ee_start_lo e)"
  shows "\<exists>p n. extent_get_pblock (Suc fuel) dk sb b l = Inr (p, Some n) \<and>
    unat p = unat (ee_start_lo e) - (unat (ee_block e) - unat l) \<and> p \<noteq> 0"
proof -
  have lt: "unat l < unat (ee_block e)" using assms(3) by (simp add: next_extent_def)
  let ?d = "ee_block e - l"
  have d: "unat ?d = unat (ee_block e) - unat l"
    using lt by (intro unat_sub_nowrap) (simp add: word_le_nat_alt)
  have eq: "ee_start_lo e + (l - ee_block e) = ee_start_lo e - ?d" by simp
  have "unat (ee_start_lo e - ?d) = unat (ee_start_lo e) - unat ?d"
    using assms(4) d by (intro unat_sub_nowrap) (simp add: word_le_nat_alt)
  then have p: "unat (ucast (ee_start_lo e + (l - ee_block e)) :: u64) =
      unat (ee_start_lo e) - (unat (ee_block e) - unat l)" by (simp only: eq unat_ucast_widths d)
  moreover have "(ucast (ee_start_lo e + (l - ee_block e)) :: u64) \<noteq> 0"
    using p assms(4) by (metis unat_0 zero_less_diff less_irrefl)
  ultimately show ?thesis
    using leaf_lookup [OF assms(1,2), of fuel l] find_next_extent [OF assms(2,3)] by (simp add: found_def)
qed

definition hole_extents :: bytes where
  "hole_extents = [0x0A, 0xF3, 1, 0, 4, 0, 0, 0, 0, 0, 0, 0, 8, 0, 0, 0, 2, 0, 0, 0, 100, 0, 0, 0]"

theorem extent_hole_misread_witness:
  "\<exists>p n. extent_get_pblock 1 None img_sb hole_extents 3 = Inr (p, Some n) \<and> unat p = 95 \<and> p \<noteq> 0"
proof -
  let ?e = "\<lparr>ee_block = 8, ee_len = 2, ee_start_hi = 0, ee_start_lo = 100\<rparr>"
  have h: "extent_header_of hole_extents 0 = \<lparr>eh_magic = EXT4_EXT_MAGIC, eh_entries = 1, eh_depth = 0\<rparr>"
    by (simp add: extent_header_of_eq hole_extents_def le16_def EXT4_EXT_MAGIC_def)
  have "extents_at (drop 12 hole_extents) 1 = [?e]"
    by (simp add: extents_at_def extent_of_eq hole_extents_def le16_def le32_def)
  then have "extent_tree None img_sb hole_extents 0 [?e]"
    using extent_tree.leaf [of hole_extents 1 None img_sb] h by (simp add: hole_extents_def)
  from extent_hole_misread [OF this, of ?e 3 0] show ?thesis
    by (simp add: wf_extents_def next_extent_def ee_end_def)
qed

text \<open>
  Without extents the physical block comes from the direct blocks of the inode or from its
  indirect, double or triple indirect tree, whichever the logical block falls in, read at the
  position the logical block has there.
\<close>

theorem indirect_lookup:
  assumes "wf_super sb" "i_flags inode AND EXT4_EXTENTS_FL = 0"
    and "unat lblock * bsize sb \<le> align_up (unat (inode_get_size inode)) (bsize sb)"
    and "ind_place sb (unat lblock) = Some (slot, k, i)"
    and "ind_ok d sb k (le32 (i_block inode) (4 * slot)) i"
  shows "inode_get_data_pblock (Some d) sb inode lblock =
    Inr (ucast (ind_lookup d sb k (le32 (i_block inode) (4 * slot)) i), 1)"
  by (rule ind_data_pblock [OF assms])

theorem indirect_lookup_witness:
  "inode_get_data_pblock (Some img) img_sb (inode_at img img_state 4) 13 = Inr (11, 1)"
  using indirect_lookup [OF wf_img, of "inode_at img img_state 4" 13 12 1 1 img] img_sizes(3)
  by (simp add: img_addrs ind_place_def naddr_def align_up_def) (simp add: img_ind)

text \<open>
  A missing index block, whose address is 0, does not make a hole: the address is then read
  from block 0 of the device, the boot sector.
\<close>

theorem missing_index_block_reads_block_0:
  assumes "wf_super sb" "unat l < naddr sb" "bsize sb \<le> dev_size d"
  shows "inode_get_data_pblock_ind (Some d) sb l 0 = Inr (le32 (dev_bytes d (4 * unat l) 4) 0)"
proof -
  have u: "unat (ucast l * 4 :: u64) = 4 * unat l"
    using unat_u32 [of l] unat_mult_nowrap [of "ucast l :: u64" 4] by simp
  have "disk_read_u32 (Some d) (BLOCKS2BYTES sb (ucast (0 :: u32)) + ucast l * 4) =
      Inr (addr_in d sb (unat (0 :: u32)) (unat l))"
    by (rule read_addr [OF assms(1,2) u]) (use assms(3) in simp)
  moreover have "(ucast l :: u64) < ADDRESSES_IN_IND_BLOCK sb"
    using assms(2) naddr_eq(1) [OF assms(1)] by (simp add: word_less_nat_alt)
  ultimately show ?thesis by (simp add: inode_get_data_pblock_ind_def addr_in_def)
qed

theorem missing_index_block_reads_block_0_witness:
  "inode_get_data_pblock_ind (Some img) img_sb 3 0 = Inr 0"
  using missing_index_block_reads_block_0 [OF wf_img, of 3 img]
  by (simp add: naddr_def dev_bytes_4) (simp add: img_byte img_defs le_words)


section \<open>Mounting\<close>

lemma mount_tables:
  assumes wf: "wf_super sb" and sb: "sb = super_block_of (dev_bytes d 1024 1024)"
    and n: "super_n_block_groups sb = Inr n"
    and small: "unat n * unat (super_group_desc_size sb) < 4294967296"
    and dev: "gdt_start sb + unat n * unat (super_group_desc_size sb) \<le> dev_size d"
  shows "op_init (Some d) heap dcache_start =
    Inr (\<lparr>super_block = sb, gdesc_table = map (\<lambda>k. \<lparr>bg_inode_table_lo =
           le32 (dev_bytes d (gdt_start sb + k * unat (super_group_desc_size sb) + 8) 4) 0\<rparr>) [0 ..< unat n]\<rparr>,
         [zero_entry\<lparr>de_inode := ROOT_INODE_N\<rparr>])"
proof -
  have "2048 \<le> gdt_start sb" using align_up_ge [OF bsize_pos [OF wf]] by (simp add: gdt_start_def)
  then have "in_device d 1024 1024" using dev by (simp add: in_device_def MAX_RW_COUNT_def)
  then have "super_fill (Some d) = Inr sb"
    using n sb disk_read_in [of d 1024 1024] by (simp add: super_fill_def BOOT_SECTOR_SIZE_def sizeof_structs)
  moreover have "inode_init dcache_start = (0, [zero_entry\<lparr>de_inode := ROOT_INODE_N\<rparr>])"
    using dc_inv_init(1) [of ROOT_INODE_N] by (simp add: inode_init_def ROOT_INODE_N_def)
  ultimately show ?thesis using super_group_fill_in [OF wf n small dev, of heap] by (simp add: op_init_def)
qed

text \<open>
  (C14) \<^verbatim>\<open>op_init\<close> reads the super block at byte 1024 and one group descriptor per block group from the
  block after it, at the distance of the descriptor size, and starts the cache at inode 2. The
  bytes that \<^verbatim>\<open>malloc\<close> left in the table, which the short descriptors do not overwrite, are
  not seen.
\<close>

theorem mount_reads_tables:
  assumes wf: "wf_super sb" and sb: "sb = super_block_of (dev_bytes d 1024 1024)"
    and n: "super_n_block_groups sb = Inr n"
    and small: "unat n * unat (super_group_desc_size sb) < 4294967296"
    and dev: "gdt_start sb + unat n * unat (super_group_desc_size sb) \<le> dev_size d"
  shows "op_init (Some d) heap dcache_start =
    Inr (\<lparr>super_block = sb, gdesc_table = map (\<lambda>k. \<lparr>bg_inode_table_lo =
           le32 (dev_bytes d (gdt_start sb + k * unat (super_group_desc_size sb) + 8) 4) 0\<rparr>) [0 ..< unat n]\<rparr>,
         [zero_entry\<lparr>de_inode := ROOT_INODE_N\<rparr>])"
  by (rule mount_tables [OF assms])

lemma img_tables:
  "img_sb = super_block_of (dev_bytes img 1024 1024)" "gdt_start img_sb = 2048"
  "unat (super_group_desc_size img_sb) = 32" "le32 (dev_bytes img 2056 4) 0 = 3"
proof -
  show "img_sb = super_block_of (dev_bytes img 1024 1024)"
    by (simp add: super_block_of_eq img_sb_def dev_word) (simp add: img_byte img_defs le_words)
  show "gdt_start img_sb = 2048" by (simp add: gdt_start_def align_up_def)
  show "unat (super_group_desc_size img_sb) = 32" by (simp add: desc_size) (simp add: img_sb_def)
  show "le32 (dev_bytes img 2056 4) 0 = 3" by (simp add: dev_bytes_4) (simp add: img_byte img_defs le_words)
qed

theorem mount_reads_tables_witness:
  "op_init (Some img) (\<lambda>_. replicate 64 7) dcache_start = Inr (img_state, [zero_entry\<lparr>de_inode := 2\<rparr>])"
  using mount_reads_tables [OF wf_img img_tables(1) img_groups, of "\<lambda>_. replicate 64 7"]
  by (simp add: img_state_def ROOT_INODE_N_def img_tables(2-4))

lemma img_mount: "op_init (Some img) heap dcache_start = Inr (img_state, img_dc)"
  using mount_tables [OF wf_img img_tables(1) img_groups, of heap]
  by (simp add: img_state_def img_dc_def ROOT_INODE_N_def img_tables(2-4))

text \<open>
  (C15) \<^verbatim>\<open>inode_get_by_number\<close> reads inode \<open>n\<close> at its place in the inode table of its group, for inodes of 128
  bytes and of 256 bytes, and what the caller's buffer held before has no influence on the fields
  the program uses.
\<close>

theorem inode_read_at_position:
  assumes "wf_mount st" "inode_on_disk d st n"
  shows "\<exists>buf. inode_get_by_number (Some d) st n old = Inr (0, buf) \<and>
    inode_of buf = inode_of (dev_bytes d (inode_pos st n) 128)"
  using inode_get_by_number_in [OF assms] by (simp add: inode_at_def)

theorem inode_read_at_position_witness:
  "\<exists>buf. inode_get_by_number (Some img) img_state 3 [] = Inr (0, buf) \<and> i_size_lo (inode_of buf) = 1500"
  using inode_read_at_position [OF wf_img_state img_on_disk(2), of "[]"] img_file
  by (auto simp: inode_at_def)

section \<open>Attributes, opening and symbolic links\<close>

text \<open>The mask \<^verbatim>\<open>~0222\<close> of \<^verbatim>\<open>op_getattr\<close> takes exactly the three write permissions out of the mode.\<close>

lemma no_write_bits: "bit (ucast m AND - 147 :: u32) k \<longleftrightarrow> bit m k \<and> k \<notin> {1, 4, 7}" for m :: u16
proof -
  have mask: "(- 147 :: u32) = NOT (2 ^ 1 OR 2 ^ 4 OR 2 ^ 7)" by simp
  have "k < 16" if "bit m k" using bit_imp_le_length [OF that] by simp
  then show ?thesis unfolding mask bit_and_iff bit_not_iff bit_or_iff bit_exp_iff bit_ucast_iff by auto
qed

text \<open>
  (C30) \<^verbatim>\<open>op_getattr\<close> on a path that leads to an inode returns 0 and all the fields of that inode: its mode without the
  three write permissions, its 64-bit size put together from both halves, the number of links and of blocks, owner,
  group and the three times; on a path that leads nowhere it returns \<^verbatim>\<open>-ENOENT\<close> and an empty structure.
\<close>

theorem getattr_of_path:
  assumes st: "wf_mount st" and path: "inode_get_idx_by_path (Some d) st path dc stack = Inr (n, dc')"
    and on: "n \<noteq> 0 \<Longrightarrow> inode_on_disk d st n" and i: "i = inode_at d st n"
  shows "if n = 0 then op_getattr (Some d) st dc path stack old = Inr (- ENOENT, stat_zero, dc')
    else \<exists>s. op_getattr (Some d) st dc path stack old = Inr (0, s, dc') \<and>
      unat (st_size s) = unat (i_size_high i) * 4294967296 + unat (i_size_lo i) \<and>
      (\<forall>k. bit (st_mode s) k \<longleftrightarrow> bit (i_mode i) k \<and> k \<notin> {1, 4, 7}) \<and>
      unat (st_nlink s) = unat (i_links_count i) \<and> unat (st_blocks s) = unat (i_blocks_lo i) \<and>
      unat (st_uid s) = unat (i_uid i) \<and> unat (st_gid s) = unat (i_gid i) \<and>
      unat (st_atime s) = unat (i_atime i) \<and> unat (st_mtime s) = unat (i_mtime i) \<and>
      unat (st_ctime s) = unat (i_ctime i)"
proof (cases "n = 0")
  case True
  then show ?thesis using path
    by (simp add: op_getattr_def inode_get_by_path_def inode_get_by_number_def ENOENT_def)
next
  case False
  obtain buf where "inode_get_by_number (Some d) st n old = Inr (0, buf)" "inode_of buf = i"
    using inode_get_by_number_in [OF st on [OF False]] i by blast
  then show ?thesis using path False
    by (simp add: op_getattr_def inode_get_by_path_def inode_size_eq Let_def no_write_bits)
qed

theorem getattr_of_path_witness:
  "\<exists>s. op_getattr (Some img) img_state img_dc [47] [] [] = Inr (0, s, img_dc) \<and> unat (st_size s) = 1024"
  using getattr_of_path [OF wf_img_state root_path _ refl, of img "[]"] img_on_disk(1) by (auto simp: img_root)

text \<open>
  \<^verbatim>\<open>op_open\<close> refuses every request that is not for reading only. For a path that does not exist it returns
  success with file handle 0; the error comes with the first \<^verbatim>\<open>op_read\<close> on that handle, which
  returns \<^verbatim>\<open>-ENOENT\<close>.
\<close>

theorem open_missing_file:
  assumes "inode_get_idx_by_path dk st path dc stack = Inr (0, dc')" "unat offset < 9223372036854775808"
  shows "if fi_flags fi AND 3 = 0
    then op_open dk st dc path stack fi = Inr (0, fi\<lparr>fi_fh := 0\<rparr>, dc') \<and>
      op_read dk st stack' sz offset 0 = Inr (word_of_int (- ENOENT), [])
    else op_open dk st dc path stack fi = Inr (- EACCES, fi, dc)"
proof -
  have "0 \<le> sint offset" using assms(2) by (simp add: sint_ge_0_u64)
  then show ?thesis using assms(1)
    by (simp add: op_open_def op_read_def inode_get_by_number_def ENOENT_def)
qed


lemma img_missing: "\<exists>dc'. inode_get_idx_by_path (Some img) img_state [47, 99] img_dc [] = Inr (0, dc')"
proof -
  have "tokens [47, 99] = [[99]]" "short_tokens [47, 99]"
    using tokens_slash [of "[99]"]
    by (simp_all add: short_tokens_def SLASH_def DCACHE_ENTRY_NAME_LEN_def) (simp_all add: tokens.simps SLASH_def)
  moreover have "resolve (Some img) img_state 2 [[99]] = Inr 0" "dirs_on_path (Some img) img_state 2 [[99]]"
    by (simp_all add: img_child img_entries_def)
  moreover have "128 \<le> unat (s_inode_size (super_block img_state))" by (simp add: img_sb_def)
  ultimately show ?thesis
    using idx_by_path_refines [OF img_dc_inv(1,2), of "[47, 99]" "Some img" img_state "[]"]
    by (auto simp: img_dc_inv cstr_at_def SLASH_def simp del: resolve.simps dirs_on_path.simps)
qed

theorem open_missing_file_witness:
  "\<exists>dc'. op_open (Some img) img_state img_dc [47, 99] [] \<lparr>fi_flags = 0, fi_fh = 5\<rparr> = Inr (0, \<lparr>fi_flags = 0, fi_fh = 0\<rparr>, dc') \<and>
    op_read (Some img) img_state [] 10 0 0 = Inr (word_of_int (- ENOENT), [])"
proof -
  obtain dc' where "inode_get_idx_by_path (Some img) img_state [47, 99] img_dc [] = Inr (0, dc')"
    using img_missing by blast
  from open_missing_file [OF this, of 0 "\<lparr>fi_flags = 0, fi_fh = 5\<rparr>" "[]" 10] show ?thesis by auto
qed

text \<open>
  (C31) \<^verbatim>\<open>op_readlink\<close> on a symbolic link of at most 60 bytes, whose target is kept in the inode, stores the
  target and a terminator in a buffer that has room for both and returns 0; on an inode that is not
  a link it returns \<^verbatim>\<open>-EINVAL\<close> and leaves the buffer alone.
\<close>

theorem readlink_fast:
  assumes st: "wf_mount st" and path: "inode_get_idx_by_path (Some d) st path dc stack = Inr (n, dc')"
    and on: "inode_on_disk d st n" and m: "m = unat (inode_get_size (inode_at d st n))" "m \<le> 60" "m < length buf"
  shows "op_readlink (Some d) st dc path stack old buf bufsize =
    Inr (if S_ISLNK (i_mode (inode_at d st n))
         then (0, take m (i_block (inode_at d st n)) @ [0] @ drop (Suc m) buf, dc') else (- EINVAL, buf, dc'))"
proof -
  obtain ibuf where "inode_get_by_number (Some d) st n old = Inr (0, ibuf)" "inode_of ibuf = inode_at d st n"
    using inode_get_by_number_in [OF st on] by blast
  moreover have len: "length (i_block (inode_at d st n)) = 60" by (simp add: inode_at_def inode_of_eq)
  then have "(take m (i_block (inode_at d st n)) @ drop m buf)[m := 0] =
      take m (i_block (inode_at d st n)) @ [0] @ drop (Suc m) buf"
    using m(2,3) by (simp add: list_update_append Cons_nth_drop_Suc [symmetric])
  ultimately show ?thesis using path m
    by (simp add: op_readlink_def inode_get_by_path_def get_link_dest_def Let_def len min_def)
qed

theorem readlink_fast_witness:
  "\<exists>d dc'. op_readlink (Some d) img_state img_dc [47] [] [] [1, 2, 3, 4] 4 = Inr (0, [47, 120, 0, 4], dc')"
proof -
  define d where "d = img\<lparr>dev_byte := region_byte [(3200, [0, 0xA0, 0, 0, 2, 0]), (3240, [47, 120])]\<rparr>"
  have at: "inode_at d img_state 2 = inode_of (dev_bytes d 3200 128)" by (simp add: inode_at_def)
  have mode: "i_mode (inode_at d img_state 2) = 0xA000" "unat (inode_get_size (inode_at d img_state 2)) = 2"
    by (simp_all add: at inode_size_eq inode_of_eq dev_word) (simp_all add: d_def le_words)
  have blk: "take 2 (i_block (inode_at d img_state 2)) = [47, 120]"
    by (simp add: at inode_of_eq drop_dev_bytes take_dev_bytes dev_bytes_2) (simp add: d_def)
  have on: "inode_on_disk d img_state 2"
    using img_on_disk(1) by (simp add: inode_on_disk_def d_def)
  from readlink_fast [OF wf_img_state root_path on mode(2) [symmetric], of "[1, 2, 3, 4]" "[]" 4]
  show ?thesis using mode blk by (auto simp: S_ISLNK_def)
qed


section \<open>Reads that do not start at a block boundary\<close>

lemma align_above_4g:
  assumes wf: "wf_super sb" and off: "4294967296 \<le> unat offset" "unat offset mod bsize sb \<noteq> 0"
  obtains v where "ALIGN_TO_BLOCKSIZE sb offset = Inr v" "unat v mod bsize sb = 0" "unat v + 2 \<le> unat offset"
proof -
  obtain v where v: "ALIGN_TO_BLOCKSIZE sb offset = Inr v"
    "unat v = unat offset mod 4294967296 div bsize sb * bsize sb + bsize sb"
    using ALIGN_TO_BLOCKSIZE_eq [OF wf, of offset] off(2) by auto
  have "unat offset mod 4294967296 div bsize sb * bsize sb \<le> unat offset mod 4294967296"
    by (rule div_times_less_eq_dividend)
  moreover have "unat offset mod 4294967296 + 4294967296 \<le> unat offset"
  proof -
    have "1 \<le> unat offset div 4294967296" using div_le_mono [OF off(1), of 4294967296] by simp
    moreover have "unat offset div 4294967296 * 4294967296 + unat offset mod 4294967296 = unat offset"
      by (rule div_mult_mod_eq)
    ultimately show ?thesis by linarith
  qed
  ultimately have ge: "unat v + 2 \<le> unat offset" using v(2) bsize_bounds [OF wf] by linarith
  have "unat v mod bsize sb = 0" using v(2) by simp
  then show ?thesis by (rule that [OF v(1) _ ge])
qed

text \<open>A distance that wrapped around is longer than any device.\<close>

lemma disk_read_backwards:
  fixes v offset :: u64
  assumes "unat v + 2 \<le> unat offset" "unat offset < 281474976710656"
  shows "disk_read (Some d) whr (v - offset) = Inl AssertFail"
proof -
  have "v \<le> offset" using assms(1) by (simp add: word_le_nat_alt)
  then have d: "unat (offset - v) = unat offset - unat v" by (rule unat_sub_nowrap)
  have "v - offset \<noteq> - 1"
  proof
    assume "v - offset = - 1"
    then have "offset - v = 1" by (metis minus_diff_eq minus_minus)
    then show False using d assms(1) by simp
  qed
  moreover have "\<not> unat (v - offset) + unat (offset - v) < 2 ^ 64"
  proof
    assume "unat (v - offset) + unat (offset - v) < 2 ^ 64"
    then have "unat (v - offset + (offset - v)) = unat (v - offset) + unat (offset - v)"
      by (intro unat_add_nowrap) simp
    then show False using d assms(1) by simp
  qed
  then have "MAX_RW_COUNT < unat (v - offset)" using d assms(2) unfolding MAX_RW_COUNT_def by simp
  then have "\<not> in_device d whr (v - offset)" by (simp add: in_device_def)
  ultimately show ?thesis by (simp add: disk_read_def disk_read_ret_out)
qed

text \<open>
  (C37) A read that starts inside a block at 4 GiB or more and goes on into another block aborts,
  although it lies inside the file: the mask of \<^verbatim>\<open>ALIGN_TO\<close> has 32 bits and clears the
  high half of the offset, so the distance to the end of the block wraps around to a huge number and
  the assertion of \<^verbatim>\<open>__disk_read\<close> fails.
\<close>

theorem unaligned_read_above_4g_aborts:
  assumes wf: "wf_super sb" and off: "4294967296 \<le> unat offset" "unat offset mod bsize sb \<noteq> 0"
    and sz: "0 < unat sz" "unat offset + unat sz < 4294967296 * bsize sb"
    and blocks: "unat offset div bsize sb \<noteq> (unat offset + unat sz - 1) div bsize sb"
    and map: "inode_get_data_pblock (Some d) sb inode (of_nat (unat offset div bsize sb)) = Inr (p, len)"
  shows "first_read (Some d) sb inode sz offset = Inl AssertFail"
proof -
  let ?b = "ucast (super_block_size sb) :: u64"
  have small: "unat offset < 281474976710656"
    using sz bsize_bounds [OF wf] by (simp add: less_le_trans)
  note lb = request_lblocks [OF wf sz(1) less_imp_le [OF sz(2)]]
  obtain v where v: "ALIGN_TO_BLOCKSIZE sb offset = Inr v" "unat v mod bsize sb = 0" "unat v + 2 \<le> unat offset"
    by (rule align_above_4g [OF wf off])
  have "(ucast (offset div ?b) :: u32) \<noteq> ucast ((offset + (sz - 1)) div ?b)" using lb(1,2) blocks by metis
  moreover have "(ucast (offset mod ?b) :: u32) \<noteq> 0" using lb(3) off(2) by auto
  moreover have "umod v ?b = Inr 0"
    using unat_umod_bsize [OF wf, of v] v(2) by (auto simp: unat_eq_zero)
  moreover have "sz \<noteq> 0" using sz(1) by auto
  ultimately show ?thesis
    using unat_udiv_bsize [OF wf, of offset] unat_udiv_bsize [OF wf, of "offset + (sz - 1)"]
      unat_umod_bsize [OF wf, of offset] map eq_of_nat [OF lb(1)] v(1) disk_read_backwards [OF v(3) small]
    by (simp add: first_read_def Let_def)
qed


text \<open>A file of 5000000000 bytes with one extent at 4 GiB.\<close>

definition big_file :: ext4_inode where
  "big_file = \<lparr>i_mode = 0, i_uid = 0, i_size_lo = 705032704, i_atime = 0, i_ctime = 0, i_mtime = 0, i_gid = 0,
      i_links_count = 0, i_blocks_lo = 0, i_flags = EXT4_EXTENTS_FL,
      i_block = [0x0A, 0xF3, 1, 0, 4, 0, 0, 0, 0, 0, 0, 0, 0, 0, 0x40, 0, 2, 0, 0, 0, 100, 0, 0, 0], i_size_high = 1\<rparr>"

lemma big_file_block: "inode_get_data_pblock dk sb big_file 4194304 = Inr (100, 2)"
proof -
  have h: "extent_header_of (i_block big_file) 0 = \<lparr>eh_magic = EXT4_EXT_MAGIC, eh_entries = 1, eh_depth = 0\<rparr>"
    by (simp add: extent_header_of_eq big_file_def le16_def EXT4_EXT_MAGIC_def)
  let ?e = "\<lparr>ee_block = 4194304, ee_len = 2, ee_start_hi = 0, ee_start_lo = 100\<rparr>"
  have "extents_at (drop 12 (i_block big_file)) 1 = [?e]"
    by (simp add: extents_at_def extent_of_eq big_file_def le16_def le32_def)
  then have t: "extent_tree dk sb (i_block big_file) 0 [?e]"
    using extent_tree.leaf [of "i_block big_file" 1 dk sb] h by (simp add: big_file_def)
  have "extent_get_pblock EXTENT_FUEL dk sb (i_block big_file) 4194304 = Inr (found ?e 4194304)"
    by (rule extent_covered [OF t]) (simp_all add: wf_extents_def covers_def ee_end_def EXTENT_FUEL_def)
  then show ?thesis by (simp add: inode_get_data_pblock_def found_def) (simp add: big_file_def EXT4_EXTENTS_FL_def)
qed

theorem unaligned_read_above_4g_aborts_witness:
  "unat (inode_get_size big_file) = 5000000000 \<and> first_read (Some img) img_sb big_file 2000 4294967396 = Inl AssertFail"
  using unaligned_read_above_4g_aborts [OF wf_img, of 4294967396 2000 img big_file 100 2] big_file_block
  by (simp add: inode_size_eq) (simp add: big_file_def)

text \<open>
  (C39) A read that starts inside a block of a hole and stays in it returns bytes of block 0 of the device instead
  of zeros: the loop of \<^verbatim>\<open>op_read\<close> treats physical block 0 as a hole, the read up to the
  first boundary does not.
\<close>

theorem unaligned_hole_reads_block_0:
  assumes wf: "wf_super sb" and off: "unat offset mod bsize sb \<noteq> 0" "unat offset < 4294967296 * bsize sb"
    and sz: "0 < unat sz" "unat offset mod bsize sb + unat sz \<le> bsize sb" and dev: "bsize sb \<le> dev_size d"
    and hole: "inode_get_data_pblock (Some d) sb inode (of_nat (unat offset div bsize sb)) = Inr (0, len)"
  shows "first_read (Some d) sb inode sz offset =
    Inr (sz, dev_bytes d (unat offset mod bsize sb) (unat sz))"
proof -
  let ?b = "ucast (super_block_size sb) :: u64"
  note b = bsize_pos [OF wf] bsize_bounds [OF wf]
  have "unat offset div bsize sb < 4294967296" using off(2) by (simp add: less_mult_imp_div_less)
  then have "Suc (unat offset div bsize sb) * bsize sb \<le> 4294967296 * bsize sb" by (intro mult_le_mono1) simp
  then have "unat offset + unat sz \<le> 4294967296 * bsize sb"
    using sz(2) div_mult_mod_eq [of "unat offset" "bsize sb"] unfolding mult_Suc by linarith
  note lb = request_lblocks [OF wf sz(1) this]
  have "(unat offset + unat sz - 1) div bsize sb = unat offset div bsize sb"
    using same_block_iff [OF b(1) sz(1)] sz(2) by simp
  then have "(ucast (offset div ?b) :: u32) = ucast ((offset + (sz - 1)) div ?b)" using lb(1,2) by (simp add: word_unat_eq_iff)
  moreover have "in_device d (BLOCKS2BYTES sb 0 + ucast (ucast (offset mod ?b) :: u32)) sz"
    using lb(3) sz dev b by (simp add: in_device_def BLOCKS2BYTES_def MAX_RW_COUNT_def)
  then have "disk_read (Some d) (BLOCKS2BYTES sb 0 + ucast (ucast (offset mod ?b) :: u32)) sz =
      Inr (dev_bytes d (unat offset mod bsize sb) (unat sz))"
    using lb(3) by (simp add: disk_read_in BLOCKS2BYTES_def)
  moreover have "(ucast (offset mod ?b) :: u32) \<noteq> 0" using lb(3) off(1) by auto
  moreover have "sz \<noteq> 0" using sz(1) by auto
  ultimately show ?thesis
    using unat_udiv_bsize [OF wf, of offset] unat_udiv_bsize [OF wf, of "offset + (sz - 1)"]
      unat_umod_bsize [OF wf, of offset] hole eq_of_nat [OF lb(1)]
    by (simp add: first_read_def Let_def)
qed

lemma img_hole: "inode_get_data_pblock (Some img) img_sb (inode_at img img_state 4) 1 = Inr (0, 1)"
  using ind_data_pblock [OF wf_img, of "inode_at img img_state 4" 1 1 0 0 img] img_sizes(3) img_addrs(3) [of 1]
  by (simp add: ind_place_def align_up_def) (simp add: img_ind)

theorem unaligned_hole_reads_block_0_witness:
  "first_read (Some img) img_sb (inode_at img img_state 4) 4 1034 = Inr (4, dev_bytes img 10 4)"
  using unaligned_hole_reads_block_0 [OF wf_img, of 1034 4 img "inode_at img img_state 4" 1] img_hole by simp

end
