(* ===== verification/Session.thy ===== *)
theory Session
  imports Fuse_main Filesystem Refinement
begin

text \<open>
  The mounted file system as libfuse drives it: the table \<^verbatim>\<open>e4f_ops\<close> of \<^verbatim>\<open>fuse/fuse-main.c\<close> as one step per request,
  from the state that \<^verbatim>\<open>op_init\<close> leaves, and sessions of any number of requests. The only state that a request
  changes is the entry cache. A session answers as a file system that has no state answers.
\<close>

section \<open>Requests and the table of operations\<close>

text \<open>
  The requests that \<^verbatim>\<open>e4f_ops\<close> registers a handler for, with the arguments of the handler. \<open>stack\<close> and \<open>old\<close> are the
  contents of the local inodes of the call before they are assigned.
\<close>

datatype 'b request =
  Getattr bytes bytes bytes
| Readdir bytes bytes bytes u64 'b
| Open bytes bytes fuse_file_info
| Read bytes u64 u64 u64
| Readlink bytes bytes bytes bytes u64

datatype 'b response =
  Attributes int stat
| Entries int 'b
| Opened int fuse_file_info
| Content u32 bytes
| Target int bytes

fun e4f_ops :: "nat \<Rightarrow> ('b \<Rightarrow> bytes \<Rightarrow> u64 \<Rightarrow> int \<times> 'b) \<Rightarrow> disk \<Rightarrow> super \<Rightarrow> dcache \<Rightarrow> 'b request \<Rightarrow>
    ('b response \<times> dcache) res" where
  "e4f_ops fuel filler dk st dc (Getattr path stack old) =
     rbind (op_getattr dk st dc path stack old) (\<lambda>(ret, stbuf, dc). Inr (Attributes ret stbuf, dc))"
| "e4f_ops fuel filler dk st dc (Readdir path stack old offset b) =
     rbind (op_readdir fuel filler dk st dc path stack old offset b) (\<lambda>(ret, b, dc). Inr (Entries ret b, dc))"
| "e4f_ops fuel filler dk st dc (Open path stack fi) =
     rbind (op_open dk st dc path stack fi) (\<lambda>(ret, fi, dc). Inr (Opened ret fi, dc))"
| "e4f_ops fuel filler dk st dc (Read stack sz offset fh) =
     rbind (op_read dk st stack sz offset fh) (\<lambda>(ret, buf). Inr (Content ret buf, dc))"
| "e4f_ops fuel filler dk st dc (Readlink path stack old buf bufsize) =
     rbind (op_readlink dk st dc path stack old buf bufsize) (\<lambda>(ret, buf, dc). Inr (Target ret buf, dc))"

section \<open>The same requests without a cache\<close>

definition find_inode :: "disk \<Rightarrow> super \<Rightarrow> bytes \<Rightarrow> u32 res" where
  "find_inode dk st path = resolve dk st ROOT_INODE_N (tokens path)"

definition stat_of :: "ext4_inode \<Rightarrow> stat" where
  "stat_of inode =
     \<lparr>st_mode = ucast (i_mode inode) AND NOT 0x92, st_nlink = ucast (i_links_count inode),
      st_size = inode_get_size inode, st_blocks = ucast (i_blocks_lo inode), st_uid = ucast (i_uid inode),
      st_gid = ucast (i_gid inode), st_atime = ucast (i_atime inode), st_mtime = ucast (i_mtime inode),
      st_ctime = ucast (i_ctime inode)\<rparr>"

fun answer :: "nat \<Rightarrow> ('b \<Rightarrow> bytes \<Rightarrow> u64 \<Rightarrow> int \<times> 'b) \<Rightarrow> disk \<Rightarrow> super \<Rightarrow> 'b request \<Rightarrow> 'b response res" where
  "answer fuel filler dk st (Getattr path stack old) =
     rbind (find_inode dk st path) (\<lambda>n.
     rbind (inode_get_by_number dk st n old) (\<lambda>(ret, buf).
     Inr (if ret < 0 then Attributes ret stat_zero else Attributes 0 (stat_of (inode_of buf)))))"
| "answer fuel filler dk st (Readdir path stack old offset b) =
     rbind (find_inode dk st path) (\<lambda>n.
     rbind (inode_get_by_number dk st n old) (\<lambda>(ret, buf).
     if ret < 0 then Inr (Entries ret b)
     else rbind (inode_dir_ctx_reset dk (super_block st) (inode_of buf)) (\<lambda>ctx.
          rbind (readdir_loop fuel filler dk (super_block st) (inode_of buf) offset ctx b) (\<lambda>b.
          Inr (Entries 0 b)))))"
| "answer fuel filler dk st (Open path stack fi) =
     (if fi_flags fi AND 3 \<noteq> 0 then Inr (Opened (- EACCES) fi)
      else rbind (find_inode dk st path) (\<lambda>n. Inr (Opened 0 (fi\<lparr>fi_fh := ucast n\<rparr>))))"
| "answer fuel filler dk st (Read stack sz offset fh) =
     rbind (op_read dk st stack sz offset fh) (\<lambda>(ret, buf). Inr (Content ret buf))"
| "answer fuel filler dk st (Readlink path stack old buf bufsize) =
     rbind (find_inode dk st path) (\<lambda>n.
     rbind (inode_get_by_number dk st n old) (\<lambda>(_, ibuf).
     if \<not> S_ISLNK (i_mode (inode_of ibuf)) then Inr (Target (- EINVAL) buf)
     else rbind (get_link_dest dk (super_block st) (inode_of ibuf) buf bufsize) (\<lambda>(_, buf).
          Inr (Target 0 buf))))"

text \<open>
  The paths that are looked up as the cacheless walk looks them up: absolute, their components short enough for a
  cache entry, and found in directories.
\<close>

definition path_ok :: "disk \<Rightarrow> super \<Rightarrow> bytes \<Rightarrow> bool" where
  "path_ok dk st path \<longleftrightarrow>
     short_tokens path \<and> cstr_at path 0 = SLASH \<and> dirs_on_path dk st ROOT_INODE_N (tokens path)"

fun request_ok :: "disk \<Rightarrow> super \<Rightarrow> 'b request \<Rightarrow> bool" where
  "request_ok dk st (Getattr path _ _) = path_ok dk st path"
| "request_ok dk st (Readdir path _ _ _ _) = path_ok dk st path"
| "request_ok dk st (Open path _ _) = path_ok dk st path"
| "request_ok dk st (Read _ _ _ _) = True"
| "request_ok dk st (Readlink path _ _ _ _) = path_ok dk st path"

section \<open>The root of the cache\<close>

text \<open>Neither a look-up nor an insertion changes the inode of the static root.\<close>

lemma update_root: "de_inode e = de_inode (dc ! k) \<Longrightarrow> de_inode (dc[k := e] ! 0) = de_inode (dc ! 0)"
  by (cases k; cases dc) auto

definition same_root :: "dcache \<Rightarrow> dcache \<Rightarrow> bool" where
  "same_root dc dc' \<longleftrightarrow> (dc \<noteq> [] \<longrightarrow> dc' \<noteq> [] \<and> dcache_get_inode dc' None = dcache_get_inode dc None)"

lemma same_root_refl [simp]: "same_root dc dc"
  by (simp add: same_root_def)

lemma same_root_trans: "same_root dc dc' \<Longrightarrow> same_root dc' dc'' \<Longrightarrow> same_root dc dc''"
  by (simp add: same_root_def)

lemma lookup_root: "dcache_lookup dc p nm n = Inr (r, dc') \<Longrightarrow> same_root dc dc'"
  by (auto simp: same_root_def dcache_lookup_def dcache_get_inode_def Let_def rbind_eq_Inr intro!: update_root split: option.splits)

lemma insert_root: "dcache_insert dc p nm n i = Inr (r, dc') \<Longrightarrow> same_root dc dc'"
  by (auto simp: same_root_def dcache_insert_def dcache_get_inode_def Let_def ASSERT_eq_Inr nth_append update_root
      split: option.splits if_splits)

lemma cached_walk_root: "ensures (cached_walk dc e path) (\<lambda>(_, _, dc'). same_root dc dc')"
proof (induction dc e path rule: cached_walk.induct)
  case (1 dc e path)
  define q where "q = (if cstr_at path 0 = SLASH then drop 1 path else path)"
  have walk: "ensures (cached_walk dc' nx (drop (unat n) q)) (\<lambda>(_, _, dc'). same_root dc dc')"
    if "get_path_token_len q = Inr n" "n \<noteq> 0" "dcache_lookup dc e q (unat n) = Inr (nx, dc')" "nx \<noteq> None" for n nx dc'
    using "1.IH" [OF q_def that(1-3) refl that(4)] lookup_root [OF that(3)]
    by (auto elim!: ensures_mono intro: same_root_trans)
  show ?case unfolding cached_walk.simps [of dc e path] q_def [symmetric] Let_def
    by (intro ensures_bind) (auto intro!: ensures_bind walk simp: lookup_root)
qed

lemma path_walk_root: "ensures (path_walk dk st path i e dc buf) (\<lambda>(_, dc'). same_root dc dc')"
proof (induction dk st path i e dc buf rule: path_walk.induct)
  case (1 dk st path i e dc buf)
  let ?q = "skip_trailing_backslash path"
  have ins: "same_root dc dc1"
    if "(if S_ISDIR m then dcache_insert dc e ?q n x else Inr (e, dc)) = Inr (e1, dc1)" for m n x e1 dc1
    using that by (auto simp: insert_root split: if_splits)
  have walk: "ensures (path_walk dk st r x e1 dc1 b) (\<lambda>(_, dc'). same_root dc dc')"
    if "get_path_token_len ?q = Inr n" "n \<noteq> 0" "inode_get_by_number dk st i buf = Inr (a, b)"
      "inode_dir_ctx_reset dk (super_block st) (inode_of b) = Inr c"
      "dir_scan DIR_FUEL dk (super_block st) (inode_of b) ?q n 0 c = Inr (Some x)"
      "(if S_ISDIR (i_mode (inode_of b)) then dcache_insert dc e ?q (unat n) x else Inr (e, dc)) = Inr (e1, dc1)"
      "strchr ?q SLASH = Some r" for n a b c x e1 dc1 r
    using "1.IH" [OF refl that(1-3) refl refl that(4,5) refl that(6) refl that(7)] ins [OF that(6)]
    by (auto elim!: ensures_mono intro: same_root_trans)
  show ?case unfolding path_walk.simps [of dk st path i e dc buf] Let_def
    by (rule ensures_bind, split if_split, intro conjI impI, simp, (rule ensures_bind, clarify?)+, split option.split,
        intro conjI impI allI, simp, rule ensures_bind, clarify, split option.split) (auto simp: ins intro: walk)
qed

lemma idx_by_path_root:
  "ensures (inode_get_idx_by_path dk st path dc stack) (\<lambda>(_, dc'). same_root dc dc')"
proof -
  have "ensures (path_walk dk st q (dcache_get_inode dc1 e) e dc1 stack) (\<lambda>(_, dc'). same_root dc dc')"
    if "cached_walk dc None path = Inr (e, q, dc1)" for e q dc1
    using path_walk_root [of dk st q "dcache_get_inode dc1 e" e dc1 stack] cached_walk_root [of dc None path] that
    by (auto elim!: ensures_mono intro: same_root_trans)
  then show ?thesis
    by (auto simp: inode_get_idx_by_path_def get_cached_inode_num_def ASSERT_def intro!: ensures_bind)
qed

section \<open>The requests as a service\<close>

text \<open>The caches that a mount of \<open>dk\<close> can have.\<close>

definition cache_ok :: "disk \<Rightarrow> super \<Rightarrow> dcache \<Rightarrow> bool" where
  "cache_ok dk st dc \<longleftrightarrow> true_cache dk st dc \<and> dcache_get_inode dc None = ROOT_INODE_N"

definition mount_ok :: "super \<Rightarrow> bool" where
  "mount_ok st \<longleftrightarrow> 128 \<le> unat (s_inode_size (super_block st))"

lemma lookup_implements:
  assumes "mount_ok st" "cache_ok dk st dc" "path_ok dk st path"
  shows "implements (cache_ok dk st) (find_inode dk st path) (inode_get_idx_by_path dk st path dc stack)"
proof -
  obtain kids where inv: "dc_inv dc kids" "cache_sound dk st dc kids" and root: "dcache_get_inode dc None = ROOT_INODE_N"
    using assms(2) by (auto simp: cache_ok_def true_cache_def)
  have "implements (true_cache dk st) (find_inode dk st path) (inode_get_idx_by_path dk st path dc stack)"
    using idx_by_path_refines [OF inv, of path stack] assms(1,3) root
    by (simp add: path_ok_def find_inode_def mount_ok_def)
  moreover have "dc \<noteq> []" using dc_invD(1) [OF inv(1)] .
  ultimately show ?thesis
    using idx_by_path_root [of dk st path dc stack] assms(2) root
    by (cases "find_inode dk st path") (auto simp: cache_ok_def same_root_def)
qed

text \<open>Every handler is the look-up of its path followed by work that does not touch the cache.\<close>

lemma e4f_ops_lookup:
  "e4f_ops fuel filler dk st dc (Getattr path stack old) =
     rbind (inode_get_idx_by_path dk st path dc stack) (\<lambda>(n, dc).
       rbind (rbind (inode_get_by_number dk st n old) (\<lambda>(ret, buf).
         Inr (if ret < 0 then Attributes ret stat_zero else Attributes 0 (stat_of (inode_of buf))))) (\<lambda>r. Inr (r, dc)))"
  "e4f_ops fuel filler dk st dc (Readdir path stack old offset b) =
     rbind (inode_get_idx_by_path dk st path dc stack) (\<lambda>(n, dc).
       rbind (rbind (inode_get_by_number dk st n old) (\<lambda>(ret, buf).
         if ret < 0 then Inr (Entries ret b)
         else rbind (inode_dir_ctx_reset dk (super_block st) (inode_of buf)) (\<lambda>ctx.
              rbind (readdir_loop fuel filler dk (super_block st) (inode_of buf) offset ctx b) (\<lambda>b.
              Inr (Entries 0 b))))) (\<lambda>r. Inr (r, dc)))"
  "fi_flags fi AND 3 = 0 \<Longrightarrow> e4f_ops fuel filler dk st dc (Open path stack fi) =
     rbind (inode_get_idx_by_path dk st path dc stack) (\<lambda>(n, dc).
       rbind (Inr (Opened 0 (fi\<lparr>fi_fh := ucast n\<rparr>))) (\<lambda>r. Inr (r, dc)))"
  "e4f_ops fuel filler dk st dc (Readlink path stack old buf bufsize) =
     rbind (inode_get_idx_by_path dk st path dc stack) (\<lambda>(n, dc).
       rbind (rbind (inode_get_by_number dk st n old) (\<lambda>(_, ibuf).
         if \<not> S_ISLNK (i_mode (inode_of ibuf)) then Inr (Target (- EINVAL) buf)
         else rbind (get_link_dest dk (super_block st) (inode_of ibuf) buf bufsize) (\<lambda>(_, buf).
              Inr (Target 0 buf)))) (\<lambda>r. Inr (r, dc)))"
  by (auto simp: op_getattr_def op_readdir_def op_open_def op_readlink_def inode_get_by_path_def stat_of_def Let_def rbind_assoc
      intro!: rbind_cong split: prod.split)

lemma request_implements:
  assumes "mount_ok st" "cache_ok dk st dc" "request_ok dk st q"
  shows "implements (cache_ok dk st) (answer fuel filler dk st q) (e4f_ops fuel filler dk st dc q)"
proof (cases q)
  case (Getattr path stack old)
  then show ?thesis unfolding Getattr answer.simps e4f_ops_lookup
    using assms Getattr by (intro implements_bind lookup_implements) simp_all
next
  case (Readdir path stack old offset b)
  then show ?thesis unfolding Readdir answer.simps e4f_ops_lookup
    using assms Readdir by (intro implements_bind lookup_implements) simp_all
next
  case (Open path stack fi)
  show ?thesis
  proof (cases "fi_flags fi AND 3 = 0")
    case True
    then show ?thesis unfolding Open answer.simps e4f_ops_lookup(3) [OF True] if_not_P [OF not_not [THEN iffD2, OF True]]
      using assms Open by (intro implements_bind lookup_implements) simp_all
  next
    case False
    then show ?thesis using assms(2) by (simp add: Open op_open_def)
  qed
next
  case (Read stack sz offset fh)
  have "e4f_ops fuel filler dk st dc q = rbind (answer fuel filler dk st q) (\<lambda>r. Inr (r, dc))"
    by (auto simp: Read rbind_assoc intro!: rbind_cong split: prod.split)
  then show ?thesis using implements_return [of "cache_ok dk st"] assms(2) by simp
next
  case (Readlink path stack old buf bufsize)
  then show ?thesis unfolding Readlink answer.simps e4f_ops_lookup
    using assms Readlink by (intro implements_bind lookup_implements) simp_all
qed

interpretation requests: service "e4f_ops fuel filler dk st" "answer fuel filler dk st"
    "\<lambda>dc. mount_ok st \<and> cache_ok dk st dc" "request_ok dk st"
  for fuel and filler :: "'b \<Rightarrow> bytes \<Rightarrow> u64 \<Rightarrow> int \<times> 'b" and dk st
proof
  fix dc and q :: "'b request"
  assume "mount_ok st \<and> cache_ok dk st dc" "request_ok dk st q"
  then show "implements (\<lambda>dc. mount_ok st \<and> cache_ok dk st dc) (answer fuel filler dk st q) (e4f_ops fuel filler dk st dc q)"
    using implements_mono [OF request_implements [of st dk dc q fuel filler]] by simp
qed

section \<open>Sessions\<close>

lemma mount_cache_ok:
  assumes "op_init dk heap dcache_start = Inr (st, dc)"
  shows "cache_ok dk st dc"
proof -
  have dc: "dc = [zero_entry\<lparr>de_inode := ROOT_INODE_N\<rparr>]"
    using assms dc_inv_init(1) [of ROOT_INODE_N]
    by (auto simp: op_init_def inode_init_def rbind_eq_Inr ROOT_INODE_N_def)
  then have "dc_inv dc (\<lambda>p. [])" "cache_sound dk st dc (\<lambda>p. [])"
    using dc_inv_init(2) [of ROOT_INODE_N] by (simp_all add: cache_sound_def dc_named_def ROOT_INODE_N_def)
  then show ?thesis using dc by (auto simp: cache_ok_def true_cache_def dcache_get_inode_def)
qed

text \<open>
  (C4) A session refines a file system without state, as long as every path in a request is absolute, has components of
  fewer than 40 bytes and finds its components only in the data of directories: after the mount, any sequence of such
  requests is answered, request by request, as the walk over the directories that knows no cache answers it, or faults at
  the request at which that faults; the entry cache is never seen in an answer, whatever was looked up before. With a
  longer component the cache does become visible (as is shown in theory \<open>Dcache\<close>).
\<close>

theorem session_refines:
  assumes "op_init dk heap dcache_start = Inr (st, dc)" "128 \<le> unat (s_inode_size (super_block st))"
    and "list_all (request_ok dk st) qs"
  shows "case answers (answer fuel filler dk st) qs of
      Inl f \<Rightarrow> run_steps (e4f_ops fuel filler dk st) dc qs = Inl f
    | Inr rs \<Rightarrow> \<exists>dc'. run_steps (e4f_ops fuel filler dk st) dc qs = Inr (rs, dc') \<and> cache_ok dk st dc'"
proof -
  have "mount_ok st" "cache_ok dk st dc" using assms(2) mount_cache_ok [OF assms(1)] by (simp_all add: mount_ok_def)
  then show ?thesis using requests.run_implements [of st dk dc qs fuel filler] assms(3)
    by (cases "answers (answer fuel filler dk st) qs") auto
qed

lemma img_path_ok: "path_ok (Some img) img_state [47, 97]" "find_inode (Some img) img_state [47, 97] = Inr 3"
  using img_path img_resolve
  by (simp_all add: path_ok_def find_inode_def cstr_at_def SLASH_def ROOT_INODE_N_def del: resolve.simps dirs_on_path.simps)

theorem session_refines_witness:
  "\<exists>dc dc'. op_init (Some img) (\<lambda>_. []) dcache_start = Inr (img_state, dc) \<and>
    run_steps (e4f_ops 4 (\<lambda>b nm off. (0, b @ [nm])) (Some img) img_state) dc
      [Open [47, 97] [] \<lparr>fi_flags = 0, fi_fh = 0\<rparr>, Open [47, 97] [] \<lparr>fi_flags = 1, fi_fh = 0\<rparr>] =
    Inr ([Opened 0 \<lparr>fi_flags = 0, fi_fh = 3\<rparr>, Opened (- 13) \<lparr>fi_flags = 1, fi_fh = 0\<rparr>], dc')"
proof -
  let ?fill = "\<lambda>b nm off. (0, b @ [nm]) :: int \<times> bytes list"
  let ?qs = "[Open [47, 97] [] \<lparr>fi_flags = 0, fi_fh = 0\<rparr>, Open [47, 97] [] \<lparr>fi_flags = 1, fi_fh = 0\<rparr>] :: bytes list request list"
  have "list_all (request_ok (Some img) img_state) ?qs" by (simp add: img_path_ok)
  moreover have "128 \<le> unat (s_inode_size (super_block img_state))" by (simp add: img_sb_def)
  moreover have "answers (answer 4 ?fill (Some img) img_state) ?qs =
      Inr [Opened 0 \<lparr>fi_flags = 0, fi_fh = 3\<rparr>, Opened (- 13) \<lparr>fi_flags = 1, fi_fh = 0\<rparr>]"
    by (simp add: img_path_ok EACCES_def)
  ultimately show ?thesis using img_mount session_refines [OF img_mount, of ?qs 4 ?fill] by auto
qed

lemma ucast_back: "ucast (ucast i :: u64) = (i :: u32)"
  by (simp add: word_unat_eq_iff unsigned_ucast_eq take_bit_word_eq_self)

text \<open>
  (C5) From the mount to the bytes of a file: after any requests with paths as in the theorem above that are all answered,
  opening such a path for reading, when it leads to a file with extents and without a hole before an extent, returns 0 and a
  handle, and reading with that handle returns the bytes of that file, for a request that starts below \<open>2^63\<close>, asks for at
  most \<^verbatim>\<open>0x7ffff000\<close> bytes and is aligned to a block or starts in a mapped block below 4 GiB or without leaving the block.
\<close>

theorem session_reads_file:
  assumes "op_init (Some d) heap dcache_start = Inr (st, dc)" "wf_mount st"
    and "list_all (request_ok (Some d) st) qs" "answers (answer fuel filler (Some d) st) qs = Inr rs"
    and "path_ok (Some d) st path" "find_inode (Some d) st path = Inr ino" "fi_flags fi AND 3 = 0"
    and "inode_on_disk d st ino" "ext_valid (h, es) d (super_block st) (inode_at d st ino)"
    and "unat offset < 9223372036854775808" "unat sz \<le> MAX_RW_COUNT"
    and "n = read_count (inode_at d st ino) (unat sz) (unat offset)"
    and "0 < n \<Longrightarrow> start_ok (super_block st) (ext_block es) (unat offset) n"
  shows "\<exists>dc'. run_steps (e4f_ops fuel filler (Some d) st) dc (qs @ [Open path stack fi, Read stack' sz offset (ucast ino)]) =
    Inr (rs @ [Opened 0 (fi\<lparr>fi_fh := ucast ino\<rparr>),
      Content (of_nat n) (file_bytes d (super_block st) (ext_block es) (unat offset) n)], dc')"
proof -
  let ?f = "answer fuel filler (Some d) st" and ?qs = "[Open path stack fi, Read stack' sz offset (ucast ino)]"
  have "mount_ok st" "cache_ok (Some d) st dc"
    using assms(2) mount_cache_ok [OF assms(1)] by (simp_all add: mount_ok_def wf_mount_def wf_super_def)
  then have run: "implements (\<lambda>dc. mount_ok st \<and> cache_ok (Some d) st dc) (answers ?f (qs @ ?qs))
      (run_steps (e4f_ops fuel filler (Some d) st) dc (qs @ ?qs))"
    using assms(3,5) by (intro requests.run_implements) simp_all
  have "op_read (Some d) st stack' sz offset (ucast ino) =
      Inr (of_nat n, file_bytes d (super_block st) (ext_block es) (unat offset) n)"
    using extent_file.read_ok [of st d "ucast ino" "(h, es)" offset sz n stack'] assms(2,8-13)
    by (simp add: ext_bm_def ucast_back)
  then have "answers ?f ?qs = Inr [Opened 0 (fi\<lparr>fi_fh := ucast ino\<rparr>),
      Content (of_nat n) (file_bytes d (super_block st) (ext_block es) (unat offset) n)]"
    using assms(6,7) by simp
  then show ?thesis using run assms(4) by (auto simp: answers_append)
qed

theorem session_reads_file_witness:
  "\<exists>dc'. run_steps (e4f_ops 4 (\<lambda>b nm off. (0, b @ [nm])) (Some img) img_state) img_dc
      [Open [47, 97] [] \<lparr>fi_flags = 1, fi_fh = 0\<rparr>, Open [47, 97] [] \<lparr>fi_flags = 0, fi_fh = 0\<rparr>, Read [] 10 1019 3] =
    Inr ([Opened (- 13) \<lparr>fi_flags = 1, fi_fh = 0\<rparr>, Opened 0 \<lparr>fi_flags = 0, fi_fh = 3\<rparr>,
      Content 10 [0, 104, 101, 108, 108, 111, 0, 0, 0, 0]], dc')"
proof -
  let ?fill = "\<lambda>b nm off. (0, b @ [nm]) :: int \<times> bytes list" and ?fi = "\<lparr>fi_flags = 0, fi_fh = 0\<rparr>"
  let ?q = "Open [47, 97] [] \<lparr>fi_flags = 1, fi_fh = 0\<rparr> :: bytes list request"
  have "\<exists>dc'. run_steps (e4f_ops 4 ?fill (Some img) img_state) img_dc ([?q] @ [Open [47, 97] [] ?fi, Read [] 10 1019 (ucast (3 :: u32))]) =
      Inr ([Opened (- 13) \<lparr>fi_flags = 1, fi_fh = 0\<rparr>] @ [Opened 0 (?fi\<lparr>fi_fh := ucast (3 :: u32)\<rparr>), Content (of_nat 10)
        (file_bytes img (super_block img_state) (ext_block img_extents) (unat (1019 :: u64)) 10)], dc')"
    by (rule session_reads_file [OF img_mount wf_img_state, where h = 0])
      (simp_all add: img_path_ok EACCES_def img_on_disk img_ext_valid read_count_def img_sizes MAX_RW_COUNT_def
        img_first_bytes)
  then show ?thesis by (simp add: img_first_bytes)
qed

end
