(* ===== verification/Threads.thy ===== *)
theory Threads
  imports "HOL-Library.Multiset"
begin

text \<open>
  Threads over a shared state: each thread has a job and a place in its code; a step of a thread is one access to the
  shared state. This theory holds the interleavings of any number of threads, rely-guarantee reasoning over them as a
  locale, and a criterion for the end of all their runs. The accesses take effect one after the other, in the order
  in which the threads make them.
\<close>

section \<open>Interleavings\<close>

type_synonym ('s, 'j, 'p) system = "'s \<times> ('j \<times> 'p) list"

inductive move :: "('j \<Rightarrow> 's \<Rightarrow> 'p \<Rightarrow> 's \<times> 'p) \<Rightarrow> ('p \<Rightarrow> bool) \<Rightarrow> ('s, 'j, 'p) system \<Rightarrow> ('s, 'j, 'p) system \<Rightarrow> bool"
  for tstep halted where
  move: "move tstep halted (s, ts) (s', ts[i := (j, p')])"
    if "i < length ts" "ts ! i = (j, p)" "\<not> halted p" "tstep j s p = (s', p')"

inductive_simps move_iff: "move tstep halted (s, ts) y"

text \<open>Which thread of the list moves does not matter for what the threads are.\<close>

lemma move_mset:
  assumes "move tstep halted (s, ts) (s', ts')"
  obtains j p p' M where "mset ts = add_mset (j, p) M" "mset ts' = add_mset (j, p') M" "\<not> halted p" "tstep j s p = (s', p')"
  using assms
proof cases
  case (move i j p p')
  then have "(j, p) \<in># mset ts" by (metis nth_mem_mset)
  then have "mset ts = add_mset (j, p) (mset ts - {#(j, p)#})" by simp
  moreover have "mset ts' = add_mset (j, p') (mset ts - {#(j, p)#})" using move by (simp add: mset_update)
  ultimately show thesis using that move(4,5) by blast
qed

text \<open>A system in which nothing moves any more: all threads are done.\<close>

lemma stuck_halted: "\<nexists>y. move tstep halted (s, ts) y \<Longrightarrow> (j, p) \<in> set ts \<Longrightarrow> halted p"
  by (auto simp: move_iff in_set_conv_nth) (metis surj_pair)

text \<open>Beside the threads that run, new ones arrive: \<open>adm\<close> tells which jobs may be started in a state.\<close>

inductive act :: "('j \<Rightarrow> 's \<Rightarrow> 'p \<Rightarrow> 's \<times> 'p) \<Rightarrow> ('p \<Rightarrow> bool) \<Rightarrow> ('j \<Rightarrow> 'p) \<Rightarrow> ('s \<Rightarrow> 'j \<Rightarrow> bool) \<Rightarrow>
    ('s, 'j, 'p) system \<Rightarrow> ('s, 'j, 'p) system \<Rightarrow> bool"
  for tstep halted start adm where
  moves: "act tstep halted start adm x y" if "move tstep halted x y"
| arrives: "act tstep halted start adm (s, ts) (s, ts @ [(j, start j)])" if "adm s j"

lemma act_arrivals:
  assumes "\<forall>j \<in> set js. adm s j"
  shows "(act tstep halt start adm)\<^sup>*\<^sup>* (s, ts) (s, ts @ map (\<lambda>j. (j, start j)) js)"
  using assms
proof (induction js arbitrary: ts)
  case (Cons j js)
  have "act tstep halt start adm (s, ts) (s, ts @ [(j, start j)])" using Cons.prems by (intro arrives) simp
  then show ?case using Cons.IH [of "ts @ [(j, start j)]"] Cons.prems by (simp add: converse_rtranclp_into_rtranclp)
qed simp

lemma moves_act: "(move tstep halt)\<^sup>*\<^sup>* x y \<Longrightarrow> (act tstep halt start adm)\<^sup>*\<^sup>* x y"
  by (erule rtranclp_mono [THEN predicate2D, rotated]) (auto intro: act.moves)

text \<open>The run that a list of thread numbers prescribes; a thread that is done stays where it is.\<close>

fun schedule :: "('j \<Rightarrow> 's \<Rightarrow> 'p \<Rightarrow> 's \<times> 'p) \<Rightarrow> ('p \<Rightarrow> bool) \<Rightarrow> nat list \<Rightarrow> ('s, 'j, 'p) system \<Rightarrow> ('s, 'j, 'p) system" where
  "schedule tstep halted [] x = x"
| "schedule tstep halted (i # is) (s, ts) =
     (if i < length ts \<and> \<not> halted (snd (ts ! i))
      then let (s', p') = tstep (fst (ts ! i)) s (snd (ts ! i))
           in schedule tstep halted is (s', ts[i := (fst (ts ! i), p')])
      else schedule tstep halted is (s, ts))"

lemma schedule_moves: "(move tstep halted)\<^sup>*\<^sup>* x (schedule tstep halted is x)"
proof (induction "is" arbitrary: x)
  case (Cons i "is")
  obtain s ts where x: "x = (s, ts)" by (cases x)
  show ?case
  proof (cases "i < length ts \<and> \<not> halted (snd (ts ! i))")
    case True
    obtain s' p' where st: "tstep (fst (ts ! i)) s (snd (ts ! i)) = (s', p')" by fastforce
    then have "move tstep halted x (s', ts[i := (fst (ts ! i), p')])"
      unfolding x using True by (intro move) simp_all
    then show ?thesis using Cons.IH True st by (simp add: x converse_rtranclp_into_rtranclp)
  next
    case False
    then have "schedule tstep halted (i # is) x = schedule tstep halted is x" by (auto simp: x)
    then show ?thesis using Cons.IH by simp
  qed
qed simp

lemma schedule_append: "schedule tstep halted (is @ js) x = schedule tstep halted js (schedule tstep halted is x)"
proof (induction "is" arbitrary: x)
  case (Cons i "is")
  then show ?case by (cases x) (simp add: case_prod_unfold Let_def)
qed simp

text \<open>A thread that runs alone.\<close>

fun alone :: "('j \<Rightarrow> 's \<Rightarrow> 'p \<Rightarrow> 's \<times> 'p) \<Rightarrow> ('p \<Rightarrow> bool) \<Rightarrow> 'j \<Rightarrow> nat \<Rightarrow> 's \<times> 'p \<Rightarrow> 's \<times> 'p" where
  "alone tstep halted j 0 x = x"
| "alone tstep halted j (Suc n) (s, p) =
     (if halted p then (s, p) else alone tstep halted j n (tstep j s p))"

lemma alone_halted [simp]: "halted p \<Longrightarrow> alone tstep halted j n (s, p) = (s, p)"
  by (cases n) simp_all

lemma alone_add: "alone tstep halted j (m + n) x = alone tstep halted j n (alone tstep halted j m x)"
proof (induction m arbitrary: x)
  case (Suc m)
  then show ?case by (cases x) simp
qed simp

text \<open>Thread \<open>i\<close> of several threads, \<open>n\<close> times in a row.\<close>

lemma schedule_alone:
  assumes "i < length ts" "ts ! i = (j, p)" "alone tstep halted j n (s, p) = (s', p')"
  shows "schedule tstep halted (replicate n i) (s, ts) = (s', ts[i := (j, p')])"
  using assms
proof (induction n arbitrary: s ts p)
  case 0
  then show ?case by (metis alone.simps(1) list_update_id old.prod.inject replicate_0 schedule.simps(1))
next
  case (Suc n)
  show ?case
  proof (cases "halted p")
    case True
    then show ?thesis using Suc by (simp add: Suc.IH)
  next
    case False
    obtain s1 p1 where st: "tstep j s p = (s1, p1)" by fastforce
    then have "alone tstep halted j n (s1, p1) = (s', p')" using Suc.prems(3) False by simp
    then have "schedule tstep halted (replicate n i) (s1, ts[i := (j, p1)]) = (s', ts[i := (j, p')])"
      using Suc.IH [of "ts[i := (j, p1)]" p1 s1] Suc.prems(1) by simp
    then show ?thesis using Suc.prems False st by simp
  qed
qed

section \<open>Rely and guarantee\<close>

text \<open>
  \<open>good\<close> is the invariant of the shared state, \<open>guar\<close> what every step may do to it, and \<open>at\<close> what a thread knows at a
  place of its code. \<open>'g\<close> is a ghost state: facts about the shared state that the code does not keep.
\<close>

locale rely_guarantee =
  fixes tstep :: "'j \<Rightarrow> 's \<Rightarrow> 'p \<Rightarrow> 's \<times> 'p" and halted :: "'p \<Rightarrow> bool" and start :: "'j \<Rightarrow> 'p"
    and adm :: "'s \<Rightarrow> 'j \<Rightarrow> bool" and good :: "'g \<Rightarrow> 's \<Rightarrow> bool"
    and guar :: "'g \<Rightarrow> 's \<Rightarrow> 'g \<Rightarrow> 's \<Rightarrow> bool" and at :: "'g \<Rightarrow> 's \<Rightarrow> 'j \<Rightarrow> 'p \<Rightarrow> bool"
  assumes step_ok: "good g s \<Longrightarrow> at g s j p \<Longrightarrow> \<not> halted p \<Longrightarrow> tstep j s p = (s', p') \<Longrightarrow>
      \<exists>g'. good g' s' \<and> guar g s g' s' \<and> at g' s' j p'"
    and stable: "at g s j p \<Longrightarrow> guar g s g' s' \<Longrightarrow> at g' s' j p"
    and start_ok: "good g s \<Longrightarrow> adm s j \<Longrightarrow> at g s j (start j)"
begin

definition sys_inv :: "'g \<Rightarrow> ('s, 'j, 'p) system \<Rightarrow> bool" where
  "sys_inv g x \<longleftrightarrow> good g (fst x) \<and> (\<forall>(j, p) \<in> set (snd x). at g (fst x) j p)"

lemma sys_invD: "sys_inv g (s, ts) \<Longrightarrow> good g s" "sys_inv g (s, ts) \<Longrightarrow> (j, p) \<in> set ts \<Longrightarrow> at g s j p"
  by (auto simp: sys_inv_def)

lemma sys_inv_step:
  assumes inv: "sys_inv g (s, ts)" and i: "i < length ts" "ts ! i = (j, p)"
    and new: "good g' s'" "guar g s g' s'" "at g' s' j p'"
  shows "sys_inv g' (s', ts[i := (j, p')])"
proof -
  have "at g' s' k q" if kq: "(k, q) \<in> set (ts[i := (j, p')])" for k q
  proof (cases "(k, q) = (j, p')")
    case False
    then have "(k, q) \<in> set ts" using kq set_update_subset_insert [of ts i "(j, p')"] by blast
    then show ?thesis using stable sys_invD(2) [OF inv] new(2) by blast
  qed (use new(3) in simp)
  then show ?thesis using new(1) by (auto simp: sys_inv_def)
qed

lemma move_ok:
  assumes "move tstep halted x y" "sys_inv g x"
  shows "\<exists>g'. sys_inv g' y"
  using assms
proof cases
  case (move i ts j p s s' p')
  have "at g s j p" using sys_invD(2) assms(2) move(1,3,4) nth_mem [OF move(3)] by metis
  then obtain g' where "good g' s'" "guar g s g' s'" "at g' s' j p'"
    using step_ok [OF _ _ move(5,6)] sys_invD(1) assms(2) move(1) by blast
  then show ?thesis using sys_inv_step [of g s ts i j p] assms(2) move(1-4) by blast
qed

lemma act_ok:
  assumes "act tstep halted start adm x y" "sys_inv g x"
  shows "\<exists>g'. sys_inv g' y"
  using assms(1)
proof cases
  case moves
  then show ?thesis using move_ok assms(2) by blast
next
  case (arrives s j ts)
  then have "at g s j (start j)" using start_ok sys_invD(1) assms(2) by blast
  then show ?thesis using assms(2) arrives(1,2) by (intro exI [of _ g]) (auto simp: sys_inv_def)
qed

lemma runs_ok:
  assumes "(act tstep halted start adm)\<^sup>*\<^sup>* x y" "sys_inv g x"
  shows "\<exists>g'. sys_inv g' y"
  using assms by (induction rule: rtranclp_induct) (blast intro: act_ok)+

lemma moves_ok: "(move tstep halted)\<^sup>*\<^sup>* x y \<Longrightarrow> sys_inv g x \<Longrightarrow> \<exists>g'. sys_inv g' y"
  by (induction rule: rtranclp_induct) (blast intro: move_ok)+

end

section \<open>Runs that end\<close>

lemma termip_iff: "termip r x \<longleftrightarrow> (\<forall>y. r x y \<longrightarrow> termip r y)"
  by (meson accp.simps conversep_iff)

lemma count_update:
  assumes "i < length ts" "P (ts ! i)"
  shows "length (filter P (ts[i := t])) = (if P t then length (filter P ts) else length (filter P ts) - 1)"
  using assms
proof (induction ts arbitrary: i)
  case (Cons x ts)
  show ?case
  proof (cases i)
    case (Suc m)
    then have "filter P ts \<noteq> []" using Cons.prems by (auto simp: filter_empty_conv intro: nth_mem)
    then show ?thesis using Cons Suc by simp
  qed (use Cons.prems in simp)
qed simp

lemma sum_list_update_less:
  assumes "i < length ts" "f t < (f (ts ! i) :: nat)"
  shows "sum_list (map f (ts[i := t])) < sum_list (map f ts)"
  using assms
proof (induction ts arbitrary: i)
  case (Cons x ts)
  then show ?case by (cases i) auto
qed simp

text \<open>
  Every step of a thread lowers its rank and leaves the shared state alone, but for its last step, after which the
  ranks of the other threads may be anything: then all runs are finite.
\<close>

locale finite_runs = rely_guarantee tstep halted start adm good guar at
  for tstep :: "'j \<Rightarrow> 's \<Rightarrow> 'p \<Rightarrow> 's \<times> 'p" and halted :: "'p \<Rightarrow> bool" and start :: "'j \<Rightarrow> 'p"
    and adm :: "'s \<Rightarrow> 'j \<Rightarrow> bool" and good :: "'g \<Rightarrow> 's \<Rightarrow> bool"
    and guar :: "'g \<Rightarrow> 's \<Rightarrow> 'g \<Rightarrow> 's \<Rightarrow> bool" and at :: "'g \<Rightarrow> 's \<Rightarrow> 'j \<Rightarrow> 'p \<Rightarrow> bool" +
  fixes rank :: "'g \<Rightarrow> 's \<Rightarrow> 'j \<Rightarrow> 'p \<Rightarrow> nat"
  assumes rank_less: "good g s \<Longrightarrow> at g s j p \<Longrightarrow> \<not> halted p \<Longrightarrow> tstep j s p = (s', p') \<Longrightarrow>
      halted p' \<or> s' = s \<and> at g s j p' \<and> rank g s j p' < rank g s j p"
begin

definition active :: "('j \<times> 'p) list \<Rightarrow> nat" where
  "active ts = length (filter (\<lambda>t. \<not> halted (snd t)) ts)"

definition ranks :: "'g \<Rightarrow> 's \<Rightarrow> ('j \<times> 'p) list \<Rightarrow> nat" where
  "ranks g s ts = sum_list (map (\<lambda>(j, p). rank g s j p) ts)"

lemma move_less:
  assumes inv: "sys_inv g (s, ts)" and mv: "move tstep halted (s, ts) (s', ts')"
  shows "\<exists>g'. sys_inv g' (s', ts') \<and>
    ((active ts', ranks g' s' ts'), (active ts, ranks g s ts)) \<in> less_than <*lex*> less_than"
  using mv
proof cases
  case (move i j p p')
  have at: "at g s j p" using sys_invD(2) [OF inv] move(2,3) nth_mem [OF move(2)] by simp
  have cnt: "active ts' = (if halted p' then active ts - 1 else active ts)"
    using count_update [OF move(2), of "\<lambda>t. \<not> halted (snd t)" "(j, p')"] move by (simp add: active_def)
  show ?thesis
  proof (cases "halted p'")
    case True
    have "ts ! i \<in> set (filter (\<lambda>t. \<not> halted (snd t)) ts)" using nth_mem [OF move(2)] move(3,4) by simp
    then have "active ts \<noteq> 0" by (auto simp: active_def simp del: set_filter)
    then have "active ts' < active ts" using cnt True by simp
    then show ?thesis using move_ok [OF mv inv] by auto
  next
    case False
    then have r: "s' = s" "at g s j p'" "rank g s j p' < rank g s j p"
      using rank_less [OF sys_invD(1) [OF inv] at move(4,5)] by auto
    have "sys_inv g (s', ts')"
      using inv r set_update_subset_insert [of ts i "(j, p')"] move(1) by (auto simp: sys_inv_def)
    moreover have "ranks g s ts' < ranks g s ts"
      using sum_list_update_less [OF move(2), of "\<lambda>(j, p). rank g s j p" "(j, p')"] r(3) move(1,3) by (simp add: ranks_def)
    ultimately show ?thesis using cnt False r(1) by auto
  qed
qed

lemma runs_end: "sys_inv g (s, ts) \<Longrightarrow> termip (move tstep halted) (s, ts)"
proof (induction "(active ts, ranks g s ts)" arbitrary: g s ts rule: wf_induct_rule [OF wf_lex_prod [OF wf_less_than wf_less_than]])
  case 1
  have "termip (move tstep halted) y" if mv: "move tstep halted (s, ts) y" for y
  proof -
    obtain s' ts' where y: "y = (s', ts')" by (cases y)
    then show ?thesis using move_less [OF 1(2)] mv 1(1) by blast
  qed
  then show ?case by (subst termip_iff) blast
qed

end

end
