(* ===== verification/Dcache_threads.thy ===== *)
theory Dcache_threads
  imports Dcache Threads
begin

text \<open>
  The operations of \<^verbatim>\<open>fuse/dcache.c\<close> when libfuse runs requests in several threads. The cache has no lock; the comment at
  the top of the file says that insertions and lookups are safe because their updates are atomic. Here a step of a
  thread is one read or write of a pointer in the shared tree, and the steps of all threads interleave freely. Names and
  inode numbers are written before an entry can be seen by another thread and never change, so that comparing a name and
  filling a new entry are single steps. Memory is sequentially consistent.
\<close>

section \<open>Threads of dcache.c\<close>

datatype job =
    Look ptr bytes nat
  | Ins ptr bytes nat u32

text \<open>The places between two accesses, with the local variables that are live there.\<close>

datatype place =
    L_test
  | L_first
  | L_match ptr
  | L_move ptr
  | L_next ptr
  | L_while ptr
  | I_new
  | I_test nat
  | I_self nat
  | I_childs nat
  | I_sibs nat ptr
  | I_own nat ptr
  | I_head nat
  | I_link nat ptr
  | I_move nat
  | Return ptr
  | Crash fault

fun halted :: "place \<Rightarrow> bool" where
  "halted (Return r) = True"
| "halted (Crash f) = True"
| "halted _ = False"

fun_cases haltedE: "halted pc"

fun job_start :: "job \<Rightarrow> place" where
  "job_start (Look p nm n) = L_test"
| "job_start (Ins p nm n i) = I_new"

text \<open>A pointer that is followed: null and wild pointers end the program.\<close>

definition follow :: "dcache \<Rightarrow> ptr \<Rightarrow> (nat \<Rightarrow> dcache \<times> place) \<Rightarrow> dcache \<times> place" where
  "follow dc q f = (case q of None \<Rightarrow> (dc, Crash OutOfBounds)
     | Some a \<Rightarrow> if a < length dc then f a else (dc, Crash OutOfBounds))"

definition set_childs :: "dcache \<Rightarrow> nat \<Rightarrow> ptr \<Rightarrow> dcache" where
  "set_childs dc a q = dc[a := (dc ! a)\<lparr>childs := q\<rparr>]"

definition set_siblings :: "dcache \<Rightarrow> nat \<Rightarrow> ptr \<Rightarrow> dcache" where
  "set_siblings dc a q = dc[a := (dc ! a)\<lparr>siblings := q\<rparr>]"

definition new_entry :: "bytes \<Rightarrow> nat \<Rightarrow> u32 \<Rightarrow> dcache_entry" where
  "new_entry nm n i = zero_entry\<lparr>de_name := (strncpy (de_name zero_entry) nm n)[n := 0], de_inode := i\<rparr>"

fun look_step :: "ptr \<Rightarrow> bytes \<Rightarrow> nat \<Rightarrow> dcache \<Rightarrow> place \<Rightarrow> dcache \<times> place" where
  "look_step p nm n dc L_test = (dc, if childs (dc ! addr p) = None then Return None else L_first)"
| "look_step p nm n dc L_first = (dc, L_match (childs (dc ! addr p)))"
| "look_step p nm n dc (L_match it) = follow dc it (\<lambda>a.
     case dcache_match (dc ! a) nm n of
       Inl f \<Rightarrow> (dc, Crash f)
     | Inr m \<Rightarrow> (dc, if m then L_move it else L_next it))"
| "look_step p nm n dc (L_move it) = (set_childs dc (addr p) it, Return it)"
| "look_step p nm n dc (L_next it) = follow dc it (\<lambda>a. (dc, L_while (siblings (dc ! a))))"
| "look_step p nm n dc (L_while it) = (dc, if it = childs (dc ! addr p) then Return None else L_match it)"
| "look_step p nm n dc pc = (dc, pc)"

fun ins_step :: "ptr \<Rightarrow> bytes \<Rightarrow> nat \<Rightarrow> u32 \<Rightarrow> dcache \<Rightarrow> place \<Rightarrow> dcache \<times> place" where
  "ins_step p nm n i dc I_new =
     (if n + 1 > DCACHE_ENTRY_NAME_LEN then (dc, Return None)
      else if p = None \<and> de_inode (dc ! 0) = 0 then (dc, Crash AssertFail)
      else (dc @ [new_entry nm n i], I_test (length dc)))"
| "ins_step p nm n i dc (I_test new) = (dc, if childs (dc ! addr p) = None then I_self new else I_childs new)"
| "ins_step p nm n i dc (I_self new) = (set_siblings dc new (Some new), I_move new)"
| "ins_step p nm n i dc (I_childs new) = (dc, I_sibs new (childs (dc ! addr p)))"
| "ins_step p nm n i dc (I_sibs new c) = follow dc c (\<lambda>a. (dc, I_own new (siblings (dc ! a))))"
| "ins_step p nm n i dc (I_own new s) = (set_siblings dc new s, I_head new)"
| "ins_step p nm n i dc (I_head new) = (dc, I_link new (childs (dc ! addr p)))"
| "ins_step p nm n i dc (I_link new c) = follow dc c (\<lambda>a. (set_siblings dc a (Some new), I_move new))"
| "ins_step p nm n i dc (I_move new) = (set_childs dc (addr p) (Some new), Return (Some new))"
| "ins_step p nm n i dc pc = (dc, pc)"

fun dc_step :: "job \<Rightarrow> dcache \<Rightarrow> place \<Rightarrow> dcache \<times> place" where
  "dc_step (Look p nm n) dc pc = look_step p nm n dc pc"
| "dc_step (Ins p nm n i) dc pc = ins_step p nm n i dc pc"

lemma follow_in [simp]: "a < length dc \<Longrightarrow> follow dc (Some a) f = f a"
  by (simp add: follow_def)

lemma heap_updates [simp]:
  "length (set_childs dc a q) = length dc" "length (set_siblings dc a q) = length dc"
  "a < length dc \<Longrightarrow> childs (set_childs dc a q ! k) = (if k = a then q else childs (dc ! k))"
  "a < length dc \<Longrightarrow> siblings (set_siblings dc a q ! k) = (if k = a then q else siblings (dc ! k))"
  "a < length dc \<Longrightarrow> childs (set_siblings dc a q ! k) = childs (dc ! k)"
  "a < length dc \<Longrightarrow> siblings (set_childs dc a q ! k) = siblings (dc ! k)"
  "a < length dc \<Longrightarrow> de_name (set_siblings dc a q ! k) = de_name (dc ! k)"
  "a < length dc \<Longrightarrow> de_name (set_childs dc a q ! k) = de_name (dc ! k)"
  "a < length dc \<Longrightarrow> de_inode (set_siblings dc a q ! k) = de_inode (dc ! k)"
  "a < length dc \<Longrightarrow> de_inode (set_childs dc a q ! k) = de_inode (dc ! k)"
  by (auto simp: set_childs_def set_siblings_def nth_list_update)

section \<open>The tree stays safe\<close>

text \<open>
  \<open>own a\<close> is the parent under which entry \<open>a\<close> was inserted. An entry that can be reached from a pointer of \<open>p\<close> belongs to
  \<open>p\<close> and has a sibling. \<open>fs\<close> is the look-up in the directories of the disk.
\<close>

definition linked :: "(nat \<Rightarrow> nat option) \<Rightarrow> dcache \<Rightarrow> nat \<Rightarrow> ptr \<Rightarrow> bool" where
  "linked own dc p q \<longleftrightarrow> (\<exists>a. q = Some a \<and> a < length dc \<and> own a = Some p \<and> siblings (dc ! a) \<noteq> None)"

definition true_entry :: "(u32 \<Rightarrow> bytes \<Rightarrow> u32 option) \<Rightarrow> dcache \<Rightarrow> nat \<Rightarrow> nat \<Rightarrow> bool" where
  "true_entry fs dc p a \<longleftrightarrow> fs (de_inode (dc ! p)) (ename (dc ! a)) = Some (de_inode (dc ! a))"

definition tree_good :: "(u32 \<Rightarrow> bytes \<Rightarrow> u32 option) \<Rightarrow> (nat \<Rightarrow> nat option) \<Rightarrow> dcache \<Rightarrow> bool" where
  "tree_good fs own dc \<longleftrightarrow>
     dc \<noteq> [] \<and> de_inode (dc ! 0) \<noteq> 0 \<and>
     (\<forall>a < length dc. 0 \<in> set (de_name (dc ! a))) \<and>
     (\<forall>a < length dc. childs (dc ! a) \<noteq> None \<longrightarrow> linked own dc a (childs (dc ! a))) \<and>
     (\<forall>a p. own a = Some p \<longrightarrow> a < length dc \<and> p < length dc \<and> true_entry fs dc p a \<and>
        (siblings (dc ! a) \<noteq> None \<longrightarrow> linked own dc p (siblings (dc ! a))))"

text \<open>What a step may do: add an entry, set pointers that were null or not, never clear one.\<close>

definition tree_guar :: "(nat \<Rightarrow> nat option) \<Rightarrow> dcache \<Rightarrow> (nat \<Rightarrow> nat option) \<Rightarrow> dcache \<Rightarrow> bool" where
  "tree_guar own dc own' dc' \<longleftrightarrow>
     length dc \<le> length dc' \<and>
     (\<forall>a < length dc. own' a = own a \<and> de_name (dc' ! a) = de_name (dc ! a) \<and> de_inode (dc' ! a) = de_inode (dc ! a) \<and>
        (siblings (dc ! a) \<noteq> None \<longrightarrow> siblings (dc' ! a) \<noteq> None) \<and> (childs (dc ! a) \<noteq> None \<longrightarrow> childs (dc' ! a) \<noteq> None))"

text \<open>An entry of \<open>p\<close> with the name asked for.\<close>

definition named_entry :: "(nat \<Rightarrow> nat option) \<Rightarrow> dcache \<Rightarrow> ptr \<Rightarrow> bytes \<Rightarrow> nat \<Rightarrow> bool" where
  "named_entry own dc p nm a \<longleftrightarrow> a < length dc \<and> own a = Some (addr p) \<and> ename (dc ! a) = nm"

fun look_at :: "(nat \<Rightarrow> nat option) \<Rightarrow> dcache \<Rightarrow> ptr \<Rightarrow> bytes \<Rightarrow> place \<Rightarrow> bool" where
  "look_at own dc p nm L_test = True"
| "look_at own dc p nm L_first = (childs (dc ! addr p) \<noteq> None)"
| "look_at own dc p nm (L_match it) = linked own dc (addr p) it"
| "look_at own dc p nm (L_move it) = (linked own dc (addr p) it \<and> named_entry own dc p nm (the it))"
| "look_at own dc p nm (L_next it) = linked own dc (addr p) it"
| "look_at own dc p nm (L_while it) = linked own dc (addr p) it"
| "look_at own dc p nm (Return r) = (r \<noteq> None \<longrightarrow> named_entry own dc p nm (the r))"
| "look_at own dc p nm _ = False"

fun ins_at :: "(nat \<Rightarrow> nat option) \<Rightarrow> dcache \<Rightarrow> ptr \<Rightarrow> bytes \<Rightarrow> place \<Rightarrow> bool" where
  "ins_at own dc p nm I_new = True"
| "ins_at own dc p nm (I_test new) = named_entry own dc p nm new"
| "ins_at own dc p nm (I_self new) = named_entry own dc p nm new"
| "ins_at own dc p nm (I_childs new) = (named_entry own dc p nm new \<and> childs (dc ! addr p) \<noteq> None)"
| "ins_at own dc p nm (I_sibs new c) = (named_entry own dc p nm new \<and> childs (dc ! addr p) \<noteq> None \<and> linked own dc (addr p) c)"
| "ins_at own dc p nm (I_own new s) = (named_entry own dc p nm new \<and> childs (dc ! addr p) \<noteq> None \<and> linked own dc (addr p) s)"
| "ins_at own dc p nm (I_head new) =
     (named_entry own dc p nm new \<and> childs (dc ! addr p) \<noteq> None \<and> linked own dc (addr p) (Some new))"
| "ins_at own dc p nm (I_link new c) =
     (named_entry own dc p nm new \<and> linked own dc (addr p) c \<and> linked own dc (addr p) (Some new))"
| "ins_at own dc p nm (I_move new) = (named_entry own dc p nm new \<and> linked own dc (addr p) (Some new))"
| "ins_at own dc p nm (Return r) = (r \<noteq> None \<longrightarrow> named_entry own dc p nm (the r))"
| "ins_at own dc p nm _ = False"

text \<open>A job is started with an entry that exists, a name without zero bytes, and inserts what the disk says.\<close>

fun job_ok :: "(u32 \<Rightarrow> bytes \<Rightarrow> u32 option) \<Rightarrow> dcache \<Rightarrow> job \<Rightarrow> bool" where
  "job_ok fs dc (Look p nm n) \<longleftrightarrow> dc_has dc p \<and> n \<le> length nm \<and> 0 \<notin> set (take n nm)"
| "job_ok fs dc (Ins p nm n i) \<longleftrightarrow> dc_has dc p \<and> n \<le> length nm \<and> 0 \<notin> set (take n nm) \<and>
     fs (dcache_get_inode dc p) (take n nm) = Some i"

fun thread_at :: "(u32 \<Rightarrow> bytes \<Rightarrow> u32 option) \<Rightarrow> (nat \<Rightarrow> nat option) \<Rightarrow> dcache \<Rightarrow> job \<Rightarrow> place \<Rightarrow> bool" where
  "thread_at fs own dc (Look p nm n) pc \<longleftrightarrow> job_ok fs dc (Look p nm n) \<and> look_at own dc p (take n nm) pc"
| "thread_at fs own dc (Ins p nm n i) pc \<longleftrightarrow> job_ok fs dc (Ins p nm n i) \<and> ins_at own dc p (take n nm) pc"

text \<open>Assertions are stable: no other thread makes them false.\<close>

lemma guar_stable:
  assumes "tree_guar own dc own' dc'"
  shows "linked own dc p q \<Longrightarrow> linked own' dc' p q" "named_entry own dc r nm a \<Longrightarrow> named_entry own' dc' r nm a"
    "dc_has dc r \<Longrightarrow> dc_has dc' r" "dc_has dc r \<Longrightarrow> dcache_get_inode dc' r = dcache_get_inode dc r"
    "dc_has dc r \<Longrightarrow> childs (dc ! addr r) \<noteq> None \<Longrightarrow> childs (dc' ! addr r) \<noteq> None"
  using assms by (auto simp: tree_guar_def linked_def named_entry_def dc_has_def get_inode_addr ename_def)

lemma job_ok_stable: "tree_guar own dc own' dc' \<Longrightarrow> job_ok fs dc j \<Longrightarrow> job_ok fs dc' j"
  using guar_stable(3,4) [of own dc own' dc'] by (cases j) auto

lemma look_at_stable:
  "tree_guar own dc own' dc' \<Longrightarrow> dc_has dc p \<Longrightarrow> look_at own dc p nm pc \<Longrightarrow> look_at own' dc' p nm pc"
  using guar_stable [of own dc own' dc'] by (cases pc) auto

lemma ins_at_stable:
  "tree_guar own dc own' dc' \<Longrightarrow> dc_has dc p \<Longrightarrow> ins_at own dc p nm pc \<Longrightarrow> ins_at own' dc' p nm pc"
  using guar_stable [of own dc own' dc'] by (cases pc) auto

lemma thread_at_stable:
  assumes "thread_at fs own dc j pc" "tree_guar own dc own' dc'"
  shows "thread_at fs own' dc' j pc"
proof (cases j)
  case (Look p nm n)
  then show ?thesis
    using assms job_ok_stable [OF assms(2), of fs j] look_at_stable [OF assms(2), of p] by auto
next
  case (Ins p nm n i)
  then show ?thesis
    using assms job_ok_stable [OF assms(2), of fs j] ins_at_stable [OF assms(2), of p] by auto
qed

text \<open>The three ways to change the tree.\<close>

lemma tree_set_childs:
  assumes "tree_good fs own dc" "linked own dc p q" "p < length dc"
  shows "tree_good fs own (set_childs dc p q)" "tree_guar own dc own (set_childs dc p q)"
proof -
  have l: "linked own (set_childs dc p q) = linked own dc"
    using assms(3) by (simp add: linked_def fun_eq_iff)
  have "true_entry fs (set_childs dc p q) = true_entry fs dc"
    using assms(3) by (simp add: true_entry_def fun_eq_iff ename_def)
  then show "tree_good fs own (set_childs dc p q)"
    using assms unfolding tree_good_def l by (auto simp flip: length_greater_0_conv)
  show "tree_guar own dc own (set_childs dc p q)"
    using assms(2,3) by (auto simp: tree_guar_def linked_def)
qed

lemma tree_set_siblings:
  assumes "tree_good fs own dc" "own a = Some p" "linked own dc p q \<or> q = Some a"
  shows "tree_good fs own (set_siblings dc a q)" "tree_guar own dc own (set_siblings dc a q)"
    "linked own (set_siblings dc a q) p (Some a)"
proof -
  have a: "a < length dc" using assms(1,2) by (auto simp: tree_good_def)
  have q: "q \<noteq> None" using assms(3) by (auto simp: linked_def)
  then have l: "linked own dc r x \<Longrightarrow> linked own (set_siblings dc a q) r x" for r x
    using a by (auto simp: linked_def)
  show la: "linked own (set_siblings dc a q) p (Some a)" using a q assms(2) by (simp add: linked_def)
  have "true_entry fs (set_siblings dc a q) = true_entry fs dc"
    using a by (simp add: true_entry_def fun_eq_iff ename_def)
  then show "tree_good fs own (set_siblings dc a q)"
    using assms l la a unfolding tree_good_def by (auto simp flip: length_greater_0_conv)
  show "tree_guar own dc own (set_siblings dc a q)"
    using a q by (auto simp: tree_guar_def)
qed

lemma tree_new:
  assumes "tree_good fs own dc" "p < length dc" "n < DCACHE_ENTRY_NAME_LEN" "n \<le> length nm" "0 \<notin> set (take n nm)"
    and fs: "fs (de_inode (dc ! p)) (take n nm) = Some i"
  defines "own' \<equiv> own(length dc \<mapsto> p)" and "dc' \<equiv> dc @ [new_entry nm n i]"
  shows "tree_good fs own' dc'" "tree_guar own dc own' dc'"
    "length dc < length dc'" "own' (length dc) = Some p" "ename (dc' ! length dc) = take n nm"
proof -
  have e: "de_inode (new_entry nm n i) = i" "siblings (new_entry nm n i) = None" "childs (new_entry nm n i) = None"
    "0 \<in> set (de_name (new_entry nm n i))" "ename (new_entry nm n i) = take n nm"
    using ename_stored [OF assms(3-5)] by (simp_all add: new_entry_def zero_entry_def ename_def)
  have l: "linked own dc r x \<Longrightarrow> linked own' dc' r x" for r x
    by (auto simp: linked_def own'_def dc'_def nth_append)
  have t: "own a = Some r \<Longrightarrow> true_entry fs dc r a \<Longrightarrow> true_entry fs dc' r a" for a r
    using assms(1) by (auto simp: true_entry_def tree_good_def dc'_def nth_append ename_def)
  have "true_entry fs dc' p (length dc)" using fs e assms(2) by (simp add: true_entry_def dc'_def nth_append ename_def)
  then show "tree_good fs own' dc'"
    using assms(1,2) l t e unfolding tree_good_def
    by (auto simp: own'_def dc'_def nth_append less_Suc_eq simp flip: length_greater_0_conv)
  show "tree_guar own dc own' dc'" by (auto simp: tree_guar_def own'_def dc'_def nth_append)
  show "length dc < length dc'" "own' (length dc) = Some p" "ename (dc' ! length dc) = take n nm"
    using e by (simp_all add: own'_def dc'_def)
qed

text \<open>Every step keeps the tree.\<close>

lemma tree_guar_refl [simp]: "tree_guar own dc own dc"
  by (simp add: tree_guar_def)

lemma good_links:
  assumes "tree_good fs own dc"
  shows "dc_has dc p \<Longrightarrow> childs (dc ! addr p) \<noteq> None \<Longrightarrow> linked own dc (addr p) (childs (dc ! addr p))"
    "linked own dc q (Some a) \<Longrightarrow> linked own dc q (siblings (dc ! a))"
    "a < length dc \<Longrightarrow> 0 \<in> set (de_name (dc ! a))"
  using assms by (auto simp: tree_good_def dc_has_def linked_def)

lemma linkedE:
  assumes "linked own dc p q"
  obtains a where "q = Some a" "a < length dc" "own a = Some p" "linked own dc p (Some a)"
  using assms by (auto simp: linked_def)

lemma look_step_ok:
  assumes good: "tree_good fs own dc" and job: "job_ok fs dc (Look p nm n)" and at: "look_at own dc p (take n nm) pc"
    and st: "look_step p nm n dc pc = (dc', pc')"
  shows "tree_good fs own dc' \<and> tree_guar own dc own dc' \<and> look_at own dc' p (take n nm) pc'"
proof -
  have p: "addr p < length dc" "dc_has dc p" using job by (simp_all add: dc_has_def)
  note links = good_links [OF good]
  have ch: "childs (dc ! addr p) = None \<or> linked own dc (addr p) (childs (dc ! addr p))" using links(1) p(2) by blast
  show ?thesis
  proof (cases pc)
    case (L_match it)
    then obtain a where a: "it = Some a" "a < length dc" "own a = Some (addr p)" "linked own dc (addr p) (Some a)"
      using at by (auto elim: linkedE)
    have "dcache_match (dc ! a) nm n = Inr (ename (dc ! a) = take n nm)"
      using dcache_match_iff [OF links(3) [OF a(2)]] job by simp
    then show ?thesis using st good L_match a by (auto simp: named_entry_def)
  next
    case (L_move it)
    then obtain a where a: "it = Some a" "linked own dc (addr p) (Some a)" "named_entry own dc p (take n nm) a"
      using at by (auto elim: linkedE)
    note up = tree_set_childs [OF good a(2) p(1)]
    show ?thesis using st L_move a up guar_stable(2) [OF up(2) a(3)] by auto
  next
    case (L_next it)
    then obtain a where a: "it = Some a" "a < length dc" "linked own dc (addr p) (Some a)"
      using at by (auto elim: linkedE)
    then show ?thesis using st good L_next links(2) by auto
  qed (use st good at p ch in \<open>auto split: if_splits\<close>)
qed

lemma ins_step_ok:
  assumes good: "tree_good fs own dc" and job: "job_ok fs dc (Ins p nm n i)" and at: "ins_at own dc p (take n nm) pc"
    and st: "ins_step p nm n i dc pc = (dc', pc')"
  shows "\<exists>own'. tree_good fs own' dc' \<and> tree_guar own dc own' dc' \<and> ins_at own' dc' p (take n nm) pc'"
proof -
  have p: "addr p < length dc" "dc_has dc p" using job by (simp_all add: dc_has_def)
  note links = good_links [OF good]
  have ch: "childs (dc ! addr p) = None \<or> linked own dc (addr p) (childs (dc ! addr p))" using links(1) p(2) by blast
  show ?thesis
  proof (cases pc)
    case I_new
    show ?thesis
    proof (cases "n < DCACHE_ENTRY_NAME_LEN")
      case True
      have "de_inode (dc ! 0) \<noteq> 0" using good by (simp add: tree_good_def)
      moreover have "fs (de_inode (dc ! addr p)) (take n nm) = Some i" using job by (simp add: get_inode_addr)
      ultimately show ?thesis
        using st I_new True tree_new [OF good p(1) True, of nm i] job
        by (intro exI [of _ "own(length dc \<mapsto> addr p)"]) (auto simp: named_entry_def)
    next
      case False
      then show ?thesis using st I_new good by (intro exI [of _ own]) auto
    qed
  next
    case (I_self new)
    then have own: "named_entry own dc p (take n nm) new" "own new = Some (addr p)"
      using at by (simp_all add: named_entry_def)
    note up = tree_set_siblings [OF good own(2), of "Some new"]
    show ?thesis using st I_self own up guar_stable(2) [OF up(2) own(1)] by auto
  next
    case (I_sibs new c)
    then obtain a where a: "c = Some a" "a < length dc" "linked own dc (addr p) (Some a)" using at by (auto elim: linkedE)
    then show ?thesis using st at good I_sibs links(2) by auto
  next
    case (I_own new q)
    then have own: "named_entry own dc p (take n nm) new" "own new = Some (addr p)" "linked own dc (addr p) q"
      "childs (dc ! addr p) \<noteq> None" using at by (simp_all add: named_entry_def)
    note up = tree_set_siblings [OF good own(2), of q]
    show ?thesis using st I_own own p up guar_stable(2,5) [OF up(2)] by auto
  next
    case (I_link new c)
    then obtain a where a: "c = Some a" "a < length dc" "own a = Some (addr p)" "linked own dc (addr p) (Some new)"
        "named_entry own dc p (take n nm) new" using at by (auto elim: linkedE)
    note up = tree_set_siblings [OF good a(3), of "Some new"]
    show ?thesis using st I_link a up guar_stable(1,2) [OF up(2)] by auto
  next
    case (I_move new)
    then have a: "linked own dc (addr p) (Some new)" "named_entry own dc p (take n nm) new" using at by simp_all
    note up = tree_set_childs [OF good a(1) p(1)]
    show ?thesis using st I_move a up guar_stable(2) [OF up(2) a(2)] by auto
  qed (use st good at p ch in \<open>auto split: if_splits\<close>)
qed

interpretation tree: rely_guarantee dc_step halted job_start "job_ok fs" "tree_good fs" tree_guar "thread_at fs"
  for fs
proof (unfold_locales, goal_cases)
  case (1 own dc j pc dc' pc')
  show ?case
  proof (cases j)
    case (Look p nm n)
    then show ?thesis
      using 1 look_step_ok [of fs own dc p nm n pc dc' pc'] job_ok_stable [of own dc own dc' fs j] by auto
  next
    case (Ins p nm n i)
    then show ?thesis
      using 1 ins_step_ok [of fs own dc p nm n i pc dc' pc'] job_ok_stable [of own dc _ dc' fs j] by fastforce
  qed
next
  case (2 own dc j pc own' dc')
  then show ?case by (rule thread_at_stable)
next
  case (3 own dc j)
  then show ?case by (cases j) auto
qed

lemma circular_next:
  assumes "circular dc ks" "a \<in> set ks"
  shows "\<exists>b \<in> set ks. siblings (dc ! a) = Some b"
proof -
  obtain i where i: "i < length ks" "a = ks ! i" using assms(2) by (auto simp: in_set_conv_nth)
  then have "Suc i mod length ks < length ks" by (intro mod_less_divisor) linarith
  then show ?thesis using assms(1) i by (auto simp: circular_def)
qed

text \<open>A cache that was filled by one thread.\<close>

lemma good_inv:
  assumes inv: "dc_inv dc kids" and sound: "dcache.sound fs dc kids"
  obtains own where "tree_good fs own dc"
proof -
  define own where "own a = (if \<exists>p. a \<in> set (kids p) then Some (SOME p. a \<in> set (kids p)) else None)" for a
  have kid: "own a = Some p \<longleftrightarrow> a \<in> set (kids p)" for a p
  proof -
    have "a \<in> set (kids p) \<Longrightarrow> a \<in> set (kids q) \<Longrightarrow> p = q" for q using dc_invD(9) [OF inv, of p q] by blast
    then show ?thesis unfolding own_def by (metis (mono_tags, lifting) option.inject option.simps(3) someI_ex)
  qed
  have lk: "a \<in> set (kids p) \<Longrightarrow> linked own dc p (Some a)" for a p
    using dc_invD(3) [OF inv, of p] dc_invD(5) [OF inv] by (auto simp: linked_def kid circular_def in_set_conv_nth)
  have sib: "a \<in> set (kids p) \<Longrightarrow> linked own dc p (siblings (dc ! a))" for a p
    using circular_next [OF dc_invD(3) [OF inv]] lk by metis
  have ch: "a < length dc \<Longrightarrow> childs (dc ! a) \<noteq> None \<Longrightarrow> linked own dc a (childs (dc ! a))" for a
    using dc_invD(6) [OF inv, of a] lk by (auto split: list.splits)
  have "true_entry fs dc p a" if "a \<in> set (kids p)" for a p
    using sound that unfolding dcache.sound_def
    by (force simp: true_entry_def dc_named_def get_inode_addr addr_def dest: spec [of _ "Some p"])
  then have "tree_good fs own dc"
    using dc_invD(1,2,7) [OF inv] ch sib dc_invD(5,8) [OF inv] unfolding tree_good_def kid
    by (metis length_pos_if_in_set less_numeral_extra(3) list.size(3))
  then show thesis by (rule that)
qed

section \<open>One thread alone\<close>

abbreviation solo :: "job \<Rightarrow> nat \<Rightarrow> dcache \<times> place \<Rightarrow> dcache \<times> place" where
  "solo \<equiv> alone dc_step halted"

lemma solo_scan:
  assumes first: "childs (dc ! addr p) = Some first"
  shows "dcache_scan dc first nm n fuel it = Inr r \<Longrightarrow>
    \<exists>m. solo (Look p nm n) m (dc, L_match (Some it)) =
      (case r of None \<Rightarrow> dc | Some a \<Rightarrow> set_childs dc (addr p) r, Return r)"
proof (induction fuel arbitrary: it)
  case (Suc fuel)
  then obtain b where it: "it < length dc" "dcache_match (dc ! it) nm n = Inr b"
    by (cases "dcache_match (dc ! it) nm n") (auto split: if_splits)
  show ?case
  proof (cases b)
    case True
    then have "solo (Look p nm n) 2 (dc, L_match (Some it)) = (set_childs dc (addr p) (Some it), Return (Some it))"
      using it by (simp add: numeral_2_eq_2)
    moreover have "r = Some it" using Suc.prems it True by simp
    ultimately show ?thesis by auto
  next
    case False
    then obtain nxt where nxt: "siblings (dc ! it) = Some nxt"
      using Suc.prems it by (cases "siblings (dc ! it)") simp_all
    have three: "solo (Look p nm n) 3 (dc, L_match (Some it)) =
        (dc, if nxt = first then Return None else L_match (Some nxt))"
      using it False nxt first by (simp add: numeral_3_eq_3)
    show ?thesis
    proof (cases "nxt = first")
      case True
      then have "r = None" using Suc.prems it False nxt by simp
      then show ?thesis using three True by auto
    next
      case more: False
      then have "dcache_scan dc first nm n fuel nxt = Inr r" using Suc.prems it False nxt by simp
      then obtain m where "solo (Look p nm n) m (dc, L_match (Some nxt)) =
          (case r of None \<Rightarrow> dc | Some a \<Rightarrow> set_childs dc (addr p) r, Return r)"
        using Suc.IH by blast
      then have "solo (Look p nm n) (3 + m) (dc, L_match (Some it)) =
          (case r of None \<Rightarrow> dc | Some a \<Rightarrow> set_childs dc (addr p) r, Return r)"
        using three more by (simp only: alone_add if_False)
      then show ?thesis by blast
    qed
  qed
qed simp

lemma solo_look:
  assumes "dcache_lookup dc p nm n = Inr (r, dc')"
  shows "\<exists>m. solo (Look p nm n) m (dc, L_test) = (dc', Return r)"
proof (cases "childs (dc ! addr p)")
  case None
  then have "solo (Look p nm n) 1 (dc, L_test) = (dc', Return r)"
    using assms by (simp add: dcache_lookup_def flip: addr_def)
  then show ?thesis by blast
next
  case (Some c)
  obtain q where q: "dcache_scan dc c nm n (length dc) c = Inr q"
      "r = q" "dc' = (case q of None \<Rightarrow> dc | Some a \<Rightarrow> set_childs dc (addr p) q)"
    using assms Some by (auto simp: dcache_lookup_def set_childs_def rbind_def Let_def split: sum.splits option.splits simp flip: addr_def)
  obtain m where "solo (Look p nm n) m (dc, L_match (Some c)) = (dc', Return r)"
    using solo_scan [OF Some q(1)] q(2,3) by auto
  then have "solo (Look p nm n) (2 + m) (dc, L_test) = (dc', Return r)"
    using Some by (simp only: alone_add) (simp add: numeral_2_eq_2)
  then show ?thesis by blast
qed

text \<open>An insertion up to the point where its entry is still private, under a parent with children.\<close>

lemma solo_private:
  assumes "n < DCACHE_ENTRY_NAME_LEN" "de_inode (dc ! 0) \<noteq> 0" "dc \<noteq> []" "addr p < length dc"
    and "childs (dc ! addr p) = Some c" "c < length dc"
  shows "solo (Ins p nm n i) 5 (dc, I_new) =
    (dc @ [(new_entry nm n i)\<lparr>siblings := siblings (dc ! c)\<rparr>], I_head (length dc))"
  using assms by (simp add: eval_nat_numeral nth_append set_siblings_def)

lemma solo_ins:
  assumes inv: "dc_inv dc kids" and p: "dc_has dc p" and ins: "dcache_insert dc p nm n i = Inr (r, dc')"
  shows "\<exists>m. solo (Ins p nm n i) m (dc, I_new) = (dc', Return r)"
proof (cases "n < DCACHE_ENTRY_NAME_LEN")
  case False
  then have "solo (Ins p nm n i) 1 (dc, I_new) = (dc', Return r)" using ins by (simp add: dcache_insert_def)
  then show ?thesis by blast
next
  case n: True
  note d = dc_invD(1,2) [OF inv]
  have pl: "addr p < length dc" using p by (simp add: dc_has_def)
  show ?thesis
  proof (cases "childs (dc ! addr p)")
    case None
    then have "solo (Ins p nm n i) 4 (dc, I_new) = (dc', Return r)"
      using ins n d pl
      by (auto simp: eval_nat_numeral nth_append set_siblings_def set_childs_def dcache_insert_def Let_def new_entry_def
          list_update_append simp flip: addr_def)
    then show ?thesis by blast
  next
    case (Some c)
    then have "c \<in> set (kids (addr p))" using dc_invD(6) [OF inv pl] by (auto split: list.splits)
    then have c: "c < length dc" using dc_invD(5) [OF inv] by blast
    have "solo (Ins p nm n i) (5 + 3) (dc, I_new) = (dc', Return r)"
      using ins n d pl Some c solo_private [OF n d(2,1) pl Some c, of nm i] unfolding alone_add
      by (auto simp: eval_nat_numeral nth_append set_siblings_def set_childs_def dcache_insert_def Let_def new_entry_def
          list_update_append nth_list_update simp flip: addr_def)
    then show ?thesis by blast
  qed
qed

section \<open>Two insertions at the same time\<close>

text \<open>
  A walk through a set of entries that is closed under siblings, does not contain the head of the list and has no
  entry with the name never ends.
\<close>

lemma scan_never_ends:
  assumes closed: "\<And>a. a \<in> A \<Longrightarrow> a < length dc \<and> (\<exists>b \<in> A. siblings (dc ! a) = Some b)" and first: "first \<notin> A"
    and other: "\<And>a. a \<in> A \<Longrightarrow> dcache_match (dc ! a) nm n = Inr False"
  shows "it \<in> A \<Longrightarrow> dcache_scan dc first nm n fuel it = Inl NoReturn"
proof (induction fuel arbitrary: it)
  case (Suc fuel)
  obtain b where "b \<in> A" "siblings (dc ! it) = Some b" using closed Suc.prems by blast
  then show ?case using Suc other [OF Suc.prems] closed [OF Suc.prems] first by auto
qed simp

text \<open>
  The tree after two insertions under \<open>p\<close> that both read the pointers before either of them wrote one: the head is the
  entry \<open>length dc\<close>, which no sibling pointer leads to.
\<close>

definition torn :: "dcache \<Rightarrow> nat \<Rightarrow> nat \<Rightarrow> dcache_entry \<Rightarrow> dcache_entry \<Rightarrow> dcache" where
  "torn dc p c e1 e2 =
     set_childs (set_childs (set_siblings (set_siblings
       (dc @ [e1\<lparr>siblings := siblings (dc ! c)\<rparr>, e2\<lparr>siblings := siblings (dc ! c)\<rparr>])
       c (Some (length dc))) c (Some (Suc (length dc)))) p (Some (Suc (length dc)))) p (Some (length dc))"

lemma torn_reached:
  fixes nm1 nm2 :: bytes and i1 i2 :: u32
  assumes inv: "dc_inv dc kids" and p: "dc_has dc p" and ne: "kids (addr p) \<noteq> []"
    and n: "n1 < DCACHE_ENTRY_NAME_LEN" "n2 < DCACHE_ENTRY_NAME_LEN"
  defines "j1 \<equiv> Ins p nm1 n1 i1" and "j2 \<equiv> Ins p nm2 n2 i2"
  shows "(move dc_step halted)\<^sup>*\<^sup>* (dc, [(j1, I_new), (j2, I_new)])
    (torn dc (addr p) (hd (kids (addr p))) (new_entry nm1 n1 i1) (new_entry nm2 n2 i2),
     [(j1, Return (Some (length dc))), (j2, Return (Some (Suc (length dc))))])"
proof -
  let ?c = "hd (kids (addr p))" and ?N = "length dc" and ?sch = "schedule dc_step halted"
  let ?s = "siblings (dc ! ?c)" and ?e1 = "new_entry nm1 n1 i1" and ?e2 = "new_entry nm2 n2 i2"
  let ?d1 = "dc @ [?e1\<lparr>siblings := ?s\<rparr>]"
  let ?d2 = "dc @ [?e1\<lparr>siblings := ?s\<rparr>, ?e2\<lparr>siblings := ?s\<rparr>]"
  have pl: "addr p < ?N" using p by (simp add: dc_has_def)
  have c: "childs (dc ! addr p) = Some ?c" "?c < ?N"
    using dc_invD(6) [OF inv pl] dc_invD(5) [OF inv, of ?c "addr p"] ne by (auto split: list.splits)
  note d = dc_invD(1,2) [OF inv]
  have "solo j1 5 (dc, I_new) = (?d1, I_head ?N)"
    unfolding j1_def by (rule solo_private [OF n(1) d(2,1) pl c])
  moreover have "solo j2 5 (?d1, I_new) = (?d2, I_head (Suc ?N))"
    unfolding j2_def using solo_private [OF n(2), of ?d1 p ?c nm2 i2] d pl c by (simp add: nth_append)
  ultimately have "?sch (replicate 5 0 @ replicate 5 1) (dc, [(j1, I_new), (j2, I_new)]) =
      (?d2, [(j1, I_head ?N), (j2, I_head (Suc ?N))])"
    using schedule_alone [of 0 "[(j1, I_new), (j2, I_new)]" j1 I_new dc_step halted 5 dc ?d1 "I_head ?N"]
      schedule_alone [of 1 "[(j1, I_head ?N), (j2, I_new)]" j2 I_new dc_step halted 5 ?d1 ?d2 "I_head (Suc ?N)"]
    by (simp only: schedule_append) simp
  moreover have "?sch [0, 0, 1, 1, 1, 0] (?d2, [(j1, I_head ?N), (j2, I_head (Suc ?N))]) =
      (torn dc (addr p) ?c ?e1 ?e2, [(j1, Return (Some ?N)), (j2, Return (Some (Suc ?N)))])"
    using pl c by (simp add: j1_def j2_def torn_def nth_append)
  ultimately show ?thesis
    using schedule_moves [of dc_step halted "(dc, [(j1, I_new), (j2, I_new)])" "(replicate 5 0 @ replicate 5 1) @ [0, 0, 1, 1, 1, 0]"]
    by (simp only: schedule_append)
qed

text \<open>After it every look-up of a name that is not there runs forever.\<close>

lemma torn_fields:
  fixes x y :: dcache_entry
  assumes p: "p < length dc" and c: "c < length dc"
  defines "dc' \<equiv> torn dc p c x y"
  shows "length dc' = Suc (Suc (length dc))" "childs (dc' ! p) = Some (length dc)"
    "siblings (dc' ! length dc) = siblings (dc ! c)" "siblings (dc' ! Suc (length dc)) = siblings (dc ! c)"
    "siblings (dc' ! c) = Some (Suc (length dc))"
    "a < length dc \<Longrightarrow> a \<noteq> c \<Longrightarrow> siblings (dc' ! a) = siblings (dc ! a)"
    "a < length dc \<Longrightarrow> de_name (dc' ! a) = de_name (dc ! a)"
    "de_name (dc' ! length dc) = de_name x" "de_name (dc' ! Suc (length dc)) = de_name y"
  using p c by (simp_all add: dc'_def torn_def nth_append)

lemma torn_lookup:
  assumes inv: "dc_inv dc kids" and p: "dc_has dc p" and ne: "kids (addr p) \<noteq> []"
    and n1: "n1 < DCACHE_ENTRY_NAME_LEN" "n1 \<le> length nm1" "0 \<notin> set (take n1 nm1)"
    and n2: "n2 < DCACHE_ENTRY_NAME_LEN" "n2 \<le> length nm2" "0 \<notin> set (take n2 nm2)"
    and nm: "n \<le> length nm" "0 \<notin> set (take n nm)" "take n nm \<noteq> take n1 nm1" "take n nm \<noteq> take n2 nm2"
    and none: "dc_named dc kids p (take n nm) = {}"
  shows "dcache_lookup (torn dc (addr p) (hd (kids (addr p))) (new_entry nm1 n1 i1) (new_entry nm2 n2 i2)) p nm n = Inl NoReturn"
    (is "dcache_lookup ?dc p nm n = _")
proof -
  let ?ks = "kids (addr p)" and ?N = "length dc"
  let ?A = "insert (Suc ?N) (set ?ks)"
  have pl: "addr p < ?N" using p by (simp add: dc_has_def)
  have kid: "a \<in> set ?ks \<Longrightarrow> a < ?N" for a using dc_invD(5) [OF inv] by blast
  have next_kid: "a \<in> set ?ks \<Longrightarrow> \<exists>b \<in> set ?ks. siblings (dc ! a) = Some b" for a
    using circular_next [OF dc_invD(3) [OF inv]] .
  have c: "hd ?ks \<in> set ?ks" "hd ?ks < ?N" using ne kid by auto
  note f = torn_fields [OF pl c(2), where x = "new_entry nm1 n1 i1" and y = "new_entry nm2 n2 i2"]
  have name: "ename (new_entry nm1 n1 i1) = take n1 nm1" "ename (new_entry nm2 n2 i2) = take n2 nm2"
    "0 \<in> set (de_name (new_entry nm1 n1 i1))" "0 \<in> set (de_name (new_entry nm2 n2 i2))"
    using ename_stored [OF n1] ename_stored [OF n2] by (simp_all add: new_entry_def ename_def)
  have other: "a \<in> ?A \<or> a = ?N \<Longrightarrow> dcache_match (?dc ! a) nm n = Inr False" for a
    using dcache_match_iff [OF _ nm(1,2), of "?dc ! a"] f kid none name nm(3,4) dc_invD(7) [OF inv, of a]
    by (auto simp: ename_def dc_named_def)
  have closed: "a < length ?dc \<and> (\<exists>b \<in> ?A. siblings (?dc ! a) = Some b)" if "a \<in> ?A" for a
    using that f kid [of a] next_kid [of a] next_kid [OF c(1)] by (cases "a = hd ?ks") auto
  have head: "?N \<notin> ?A" using kid by auto
  have walk: "it \<in> ?A \<Longrightarrow> dcache_scan ?dc ?N nm n fuel it = Inl NoReturn" for it fuel
    using scan_never_ends [OF closed head] other by blast
  obtain b where b: "b \<in> ?A" "siblings (?dc ! ?N) = Some b" using next_kid [OF c(1)] f(3) by auto
  then have "b \<noteq> ?N" using head by blast
  then have "dcache_scan ?dc ?N nm n (Suc (Suc ?N)) ?N = dcache_scan ?dc ?N nm n (Suc ?N) b"
    using other [of ?N] b(2) f(1) by (subst dcache_scan.simps(2)) (simp del: dcache_scan.simps)
  then have "dcache_scan ?dc ?N nm n (length ?dc) ?N = Inl NoReturn" using walk [OF b(1)] f(1) by metis
  then show ?thesis using f(2) by (simp add: dcache_lookup_def flip: addr_def)
qed

section \<open>Look-ups at the same time\<close>

text \<open>
  Look-ups write only the head of a list of siblings. The tree stays the tree of \<open>dc0\<close> up to the heads of its lists,
  whose shape is \<open>kids0\<close>.
\<close>

definition ring_good :: "dcache \<Rightarrow> (nat \<Rightarrow> nat list) \<Rightarrow> (nat \<Rightarrow> nat list) \<Rightarrow> dcache \<Rightarrow> bool" where
  "ring_good dc0 kids0 kids dc \<longleftrightarrow> dc_inv dc kids \<and> length dc = length dc0 \<and>
     (\<forall>a. de_name (dc ! a) = de_name (dc0 ! a)) \<and> (\<forall>p. set (kids p) = set (kids0 p))"

fun look_ok :: "dcache \<Rightarrow> job \<Rightarrow> bool" where
  "look_ok dc (Look p nm n) \<longleftrightarrow> dc_has dc p \<and> n \<le> length nm \<and> 0 \<notin> set (take n nm)"
| "look_ok dc (Ins p nm n i) \<longleftrightarrow> False"

fun ring_at :: "dcache \<Rightarrow> (nat \<Rightarrow> nat list) \<Rightarrow> ptr \<Rightarrow> bytes \<Rightarrow> place \<Rightarrow> bool" where
  "ring_at dc kids p nm L_test = True"
| "ring_at dc kids p nm L_first = (kids (addr p) \<noteq> [])"
| "ring_at dc kids p nm (L_match it) = (it \<in> Some ` set (kids (addr p)))"
| "ring_at dc kids p nm (L_move it) = (it \<in> dc_named dc kids p nm)"
| "ring_at dc kids p nm (L_next it) = (it \<in> Some ` set (kids (addr p)))"
| "ring_at dc kids p nm (L_while it) = (it \<in> Some ` set (kids (addr p)))"
| "ring_at dc kids p nm (Return r) = (r \<noteq> None \<longrightarrow> r \<in> dc_named dc kids p nm)"
| "ring_at dc kids p nm _ = False"

fun ring_thread :: "dcache \<Rightarrow> (nat \<Rightarrow> nat list) \<Rightarrow> job \<Rightarrow> place \<Rightarrow> bool" where
  "ring_thread dc kids (Look p nm n) pc \<longleftrightarrow> look_ok dc (Look p nm n) \<and> ring_at dc kids p (take n nm) pc"
| "ring_thread dc kids (Ins p nm n i) pc \<longleftrightarrow> False"

text \<open>How far a thread is from the end: the distance to the head of the list decides.\<close>

definition place_of :: "nat list \<Rightarrow> ptr \<Rightarrow> nat" where
  "place_of ks q = length (takeWhile (\<lambda>k. k \<noteq> the q) ks)"

fun ring_rank :: "nat list \<Rightarrow> place \<Rightarrow> nat" where
  "ring_rank ks L_test = 3 * length ks + 5"
| "ring_rank ks L_first = 3 * length ks + 4"
| "ring_rank ks (L_while it) = (if place_of ks it = 0 then 1 else 3 * (length ks - place_of ks it) + 3)"
| "ring_rank ks (L_match it) = 3 * (length ks - place_of ks it) + 2"
| "ring_rank ks (L_next it) = 3 * (length ks - place_of ks it) + 1"
| "ring_rank ks (L_move it) = 1"
| "ring_rank ks _ = 0"

fun job_rank :: "(nat \<Rightarrow> nat list) \<Rightarrow> job \<Rightarrow> place \<Rightarrow> nat" where
  "job_rank kids (Look p nm n) pc = ring_rank (kids (addr p)) pc"
| "job_rank kids (Ins p nm n i) pc = 0"

lemma place_of_nth: "distinct ks \<Longrightarrow> i < length ks \<Longrightarrow> place_of ks (Some (ks ! i)) = i"
  unfolding place_of_def by (subst takeWhile_eq_take_P_nth [of i]) (auto simp: nth_eq_iff_index_eq)

text \<open>The list of a directory as it is now, seen from the tree that the look-ups started with.\<close>

lemma ring_goodD:
  assumes "ring_good dc0 kids0 kids dc"
  shows "dc_inv dc kids" "length dc = length dc0" "dc_named dc0 kids0 p nm = dc_named dc kids p nm"
    "kids0 q = [] \<longleftrightarrow> kids q = []" "set (kids0 q) = set (kids q)"
proof -
  have sets: "set (kids0 q) = set (kids q)" for q using assms by (simp add: ring_good_def)
  show "dc_inv dc kids" "length dc = length dc0" "set (kids0 q) = set (kids q)" using assms by (simp_all add: ring_good_def)
  show "kids0 q = [] \<longleftrightarrow> kids q = []" using sets by (metis set_empty)
  show "dc_named dc0 kids0 p nm = dc_named dc kids p nm"
    using assms sets by (simp add: ring_good_def dc_named_def ename_def)
qed

lemma ring_place:
  assumes good: "ring_good dc0 kids0 kids dc" and it: "it \<in> Some ` set (kids0 p)"
  obtains i where "i < length (kids p)" "it = Some (kids p ! i)" "place_of (kids p) it = i" "kids p ! i < length dc"
    "siblings (dc ! (kids p ! i)) = Some (kids p ! (Suc i mod length (kids p)))"
proof -
  note inv = ring_goodD(1) [OF good]
  obtain i where i: "i < length (kids p)" "it = Some (kids p ! i)"
    using it ring_goodD(5) [OF good] by (auto simp: in_set_conv_nth)
  moreover have "kids p ! i < length dc" using dc_invD(5) [OF inv] nth_mem [OF i(1)] by blast
  moreover have "siblings (dc ! (kids p ! i)) = Some (kids p ! (Suc i mod length (kids p)))"
    using dc_invD(3) [OF inv, of p] i(1) by (simp add: circular_def)
  ultimately show thesis using that place_of_nth [OF dc_invD(4) [OF inv]] by blast
qed

text \<open>The next entry of the list is nearer to its head.\<close>

lemma ring_next:
  assumes "distinct ks" "i < length ks"
  shows "ks ! (Suc i mod length ks) \<in> set ks"
    "ring_rank ks (L_while (Some (ks ! (Suc i mod length ks)))) < ring_rank ks (L_next (Some (ks ! i)))"
proof -
  have m: "Suc i mod length ks < length ks" using assms(2) by (intro mod_less_divisor) linarith
  then show "ks ! (Suc i mod length ks) \<in> set ks" by (rule nth_mem)
  have "Suc i mod length ks = 0 \<or> Suc i mod length ks = Suc i" using assms(2) by (cases "Suc i = length ks") auto
  then show "ring_rank ks (L_while (Some (ks ! (Suc i mod length ks)))) < ring_rank ks (L_next (Some (ks ! i)))"
    using place_of_nth [OF assms(1) m] place_of_nth [OF assms] assms(2) by auto
qed

text \<open>One step of a look-up.\<close>

lemma ring_look_step:
  assumes good: "ring_good dc0 kids0 kids dc" and at: "ring_thread dc0 kids0 (Look p nm n) pc" and run: "\<not> halted pc"
    and st: "look_step p nm n dc pc = (dc', pc')"
  shows "\<exists>kids'. ring_good dc0 kids0 kids' dc' \<and> ring_thread dc0 kids0 (Look p nm n) pc' \<and>
    (halted pc' \<or> dc' = dc \<and> ring_rank (kids (addr p)) pc' < ring_rank (kids (addr p)) pc)"
proof -
  let ?ks = "kids (addr p)"
  note inv = ring_goodD(1) [OF good] and gd = ring_goodD [OF good]
  have jb: "look_ok dc0 (Look p nm n)" "ring_at dc0 kids0 p (take n nm) pc" using at by simp_all
  have p: "addr p < length dc" using jb(1) gd(2) by (simp add: dc_has_def)
  have hd: "childs (dc ! addr p) = (case ?ks of [] \<Rightarrow> None | c # _ \<Rightarrow> Some c)" using dc_invD(6) [OF inv p] .
  show ?thesis
  proof (cases pc)
    case L_test
    then show ?thesis using st jb good hd gd(4) by (auto split: list.splits)
  next
    case L_first
    then obtain c cs where "?ks = c # cs" using jb(2) gd(4) by (cases ?ks) auto
    then show ?thesis using st jb good hd gd(5) L_first by auto
  next
    case (L_match it)
    then obtain i where i: "i < length ?ks" "it = Some (?ks ! i)" "?ks ! i < length dc"
      using jb(2) ring_place [OF good, of it "addr p"] by auto
    have "dcache_match (dc ! (?ks ! i)) nm n = Inr (ename (dc ! (?ks ! i)) = take n nm)"
      using dcache_match_iff dc_invD(7) [OF inv i(3)] jb(1) by simp
    moreover have "ename (dc ! (?ks ! i)) = take n nm \<Longrightarrow> it \<in> dc_named dc0 kids0 p (take n nm)"
      unfolding gd(3) using i nth_mem [OF i(1)] by (simp add: dc_named_def)
    ultimately show ?thesis using st jb good L_match i by (cases "ename (dc ! (?ks ! i)) = take n nm") auto
  next
    case (L_move it)
    then have it: "it \<in> dc_named dc kids p (take n nm)" using jb(2) gd(3) by simp
    then obtain i where i: "i < length ?ks" "it = Some (?ks ! i)" by (auto simp: dc_named_def in_set_conv_nth)
    then have "ring_good dc0 kids0 (kids(addr p := rotate i ?ks)) (set_childs dc (addr p) it)"
      using dc_inv_rotate [OF inv i(1)] p good by (auto simp: ring_good_def set_childs_def)
    then show ?thesis using st jb L_move it gd(3) by auto
  next
    case (L_next it)
    then obtain i where i: "i < length ?ks" "it = Some (?ks ! i)" "?ks ! i < length dc"
        "siblings (dc ! (?ks ! i)) = Some (?ks ! (Suc i mod length ?ks))"
      using jb(2) ring_place [OF good, of it "addr p"] by auto
    then show ?thesis using st jb good L_next gd(5) ring_next [OF dc_invD(4) [OF inv] i(1)] by auto
  next
    case (L_while it)
    then obtain i where i: "i < length ?ks" "it = Some (?ks ! i)" "place_of ?ks it = i"
      using jb(2) ring_place [OF good, of it "addr p"] by auto
    then have "it = childs (dc ! addr p) \<longleftrightarrow> i = 0"
      using hd dc_invD(4) [OF inv, of "addr p"] by (cases ?ks) (auto simp: nth_Cons')
    then show ?thesis using st jb good L_while i by auto
  qed (use jb(2) run in auto)
qed

interpretation ring: finite_runs dc_step halted job_start look_ok "ring_good dc0 kids0" "\<lambda>_ _ _ _. True"
  "\<lambda>_ _. ring_thread dc0 kids0" "\<lambda>kids dc. job_rank kids"
  for dc0 kids0
proof (unfold_locales, goal_cases)
  case (1 kids dc j pc dc' pc')
  then show ?case using ring_look_step [of dc0 kids0 kids dc _ _ _ pc dc' pc'] by (cases j) auto
next
  case (3 kids dc j)
  then show ?case by (cases j) (auto simp: ring_good_def dc_has_def)
next
  case (4 kids dc j pc dc' pc')
  then show ?case using ring_look_step [of dc0 kids0 kids dc _ _ _ pc dc' pc'] by (cases j) auto
qed simp

section \<open>Properties of the cache with several threads\<close>

abbreviation dc_acts :: "(u32 \<Rightarrow> bytes \<Rightarrow> u32 option) \<Rightarrow> (dcache, job, place) system \<Rightarrow> (dcache, job, place) system \<Rightarrow> bool" where
  "dc_acts fs \<equiv> (act dc_step halted job_start (job_ok fs))\<^sup>*\<^sup>*"

text \<open>
  (C9) However the pointer accesses of any number of look-ups and insertions interleave, and whenever they arrive: no
  thread follows a null or wild pointer or fails the assertion, a look-up that finds an entry gives the inode number
  that the directory on the disk has under that name, and an insertion that returns an entry returns one with the
  name and the inode number it was given.
\<close>

theorem threads_keep_tree:
  assumes "dc_inv dc kids" "dcache.sound fs dc kids" "dc_acts fs (dc, []) (dc', ts)"
  shows "(\<forall>j f. (j, Crash f) \<notin> set ts) \<and>
    (\<forall>p nm n a. (Look p nm n, Return (Some a)) \<in> set ts \<longrightarrow>
       fs (dcache_get_inode dc' p) (take n nm) = Some (dcache_get_inode dc' (Some a))) \<and>
    (\<forall>p nm n i a. (Ins p nm n i, Return (Some a)) \<in> set ts \<longrightarrow>
       ename (dc' ! a) = take n nm \<and> dcache_get_inode dc' (Some a) = i)"
proof -
  obtain own0 where "tree_good fs own0 dc" using good_inv [OF assms(1,2)] .
  then have "tree.sys_inv fs own0 (dc, [])" by (simp add: tree.sys_inv_def)
  then obtain own where inv: "tree.sys_inv fs own (dc', ts)" using tree.runs_ok [OF assms(3)] by blast
  note at = tree.sys_invD(2) [OF inv]
  have true: "named_entry own dc' p nm a \<Longrightarrow> fs (dcache_get_inode dc' p) nm = Some (dcache_get_inode dc' (Some a))" for p nm a
    using tree.sys_invD(1) [OF inv] by (auto simp: tree_good_def named_entry_def true_entry_def get_inode_addr addr_def)
  have "(j, Crash f) \<notin> set ts" for j f using at [of j "Crash f"] by (cases j) auto
  moreover have "(Look p nm n, Return (Some a)) \<in> set ts \<Longrightarrow> named_entry own dc' p (take n nm) a"
    "(Ins p nm n i, Return (Some a)) \<in> set ts \<Longrightarrow> named_entry own dc' p (take n nm) a \<and>
       fs (dcache_get_inode dc' p) (take n nm) = Some i" for p nm n i a
    using at by fastforce+
  moreover have "named_entry own dc' p (take n nm) a \<Longrightarrow> ename (dc' ! a) = take n nm" for p nm n a
    by (simp add: named_entry_def)
  ultimately show ?thesis using true by (metis option.inject)
qed

text \<open>A run in which the second thread reads the list before the first one has published its entry, and one after it.\<close>

definition demo_fs :: "u32 \<Rightarrow> bytes \<Rightarrow> u32 option" where
  "demo_fs d nm = (if d = 2 \<and> nm = [97] then Some 7 else None)"

definition demo_jobs :: "job list" where
  "demo_jobs = [Ins None [97] 1 7, Look None [97] 1, Look None [97] 1]"

definition demo_end :: "(dcache, job, place) system" where
  "demo_end = schedule dc_step halted [0, 0, 0, 1, 0, 2, 2, 2, 2]
     ([zero_entry\<lparr>de_inode := 2\<rparr>], map (\<lambda>j. (j, job_start j)) demo_jobs)"

lemma demo_end_eq:
  "snd demo_end = [(Ins None [97] 1 7, Return (Some 1)), (Look None [97] 1, Return None), (Look None [97] 1, Return (Some 1))]"
  "dcache_get_inode (fst demo_end) None = 2" "dcache_get_inode (fst demo_end) (Some 1) = 7"
  by code_simp+

lemma demo_run: "dc_acts demo_fs ([zero_entry\<lparr>de_inode := 2\<rparr>], []) (fst demo_end, snd demo_end)"
proof -
  let ?dc = "[zero_entry\<lparr>de_inode := 2\<rparr>]" and ?ts = "map (\<lambda>j. (j, job_start j)) demo_jobs"
  have "dc_acts demo_fs (?dc, []) (?dc, ?ts)"
    using act_arrivals [of demo_jobs "job_ok demo_fs" ?dc dc_step halted job_start "[]"]
    by (simp add: demo_jobs_def dc_has_def addr_def get_inode_addr demo_fs_def)
  moreover have "dc_acts demo_fs (?dc, ?ts) demo_end"
    unfolding demo_end_def by (rule moves_act [OF schedule_moves])
  ultimately show ?thesis by simp
qed

theorem threads_keep_tree_witness:
  "(\<forall>j f. (j, Crash f) \<notin> set (snd demo_end)) \<and>
   (Look None [97] 1, Return (Some 1)) \<in> set (snd demo_end) \<and>
   demo_fs (dcache_get_inode (fst demo_end) None) (take 1 [97]) = Some (dcache_get_inode (fst demo_end) (Some 1))"
proof -
  have "dcache.sound demo_fs [zero_entry\<lparr>de_inode := 2\<rparr>] (\<lambda>_. [])" by (simp add: dcache.sound_def dc_named_def)
  from threads_keep_tree [OF dc_inv_init(2) this demo_run] show ?thesis using demo_end_eq(1) by auto
qed

text \<open>
  The model with several threads extends the one with one: a thread that is not interrupted returns, with the result
  and the tree of \<^verbatim>\<open>dcache_lookup\<close> and \<^verbatim>\<open>dcache_insert\<close>.
\<close>

theorem thread_alone_agrees:
  assumes inv: "dc_inv dc kids" and p: "dc_has dc p" and nm: "n \<le> length nm" "0 \<notin> set (take n nm)"
  shows "(\<exists>m r dc'. dcache_lookup dc p nm n = Inr (r, dc') \<and> solo (Look p nm n) m (dc, L_test) = (dc', Return r)) \<and>
    (\<exists>m r dc'. dcache_insert dc p nm n i = Inr (r, dc') \<and> solo (Ins p nm n i) m (dc, I_new) = (dc', Return r))"
proof
  show "\<exists>m r dc'. dcache_lookup dc p nm n = Inr (r, dc') \<and> solo (Look p nm n) m (dc, L_test) = (dc', Return r)"
    using dcache_look_law [OF inv p nm] solo_look by blast
  have "\<exists>r dc'. dcache_insert dc p nm n i = Inr (r, dc')"
    using dcache_ins_law [OF inv p _ nm, of i] dcache_insert_too_long [of n dc p nm i]
    by (cases "n < DCACHE_ENTRY_NAME_LEN") (fastforce, simp add: not_less)
  then show "\<exists>m r dc'. dcache_insert dc p nm n i = Inr (r, dc') \<and> solo (Ins p nm n i) m (dc, I_new) = (dc', Return r)"
    using solo_ins [OF inv p] by blast
qed

theorem thread_alone_agrees_witness:
  "\<exists>m r dc'. dcache_insert [zero_entry\<lparr>de_inode := 2\<rparr>] None [97] 1 7 = Inr (r, dc') \<and>
     solo (Ins None [97] 1 7) m ([zero_entry\<lparr>de_inode := 2\<rparr>], I_new) = (dc', Return r)"
  using thread_alone_agrees [OF dc_inv_init(2), of 2 None 1 "[97]" 7] by (simp add: dc_has_def addr_def)

text \<open>A cache with one entry, for the name \<^verbatim>\<open>a\<close>.\<close>

lemma one_child_inv:
  "dc_inv [zero_entry\<lparr>de_inode := 2, childs := Some 1\<rparr>, (new_entry [97] 1 7)\<lparr>siblings := Some 1\<rparr>]
     (\<lambda>q. if q = 0 then [1] else [])"
  using dc_inv_inserted [OF dc_inv_init(2), of 2 0 1 "[97]" 7]
  by (simp add: inserted_def new_entry_def DCACHE_ENTRY_NAME_LEN_def fun_upd_def if_distrib cong: if_cong)

text \<open>
  (C10) Look-ups do not disturb each other: from a cache that is in order every interleaving of a set of look-ups ends, with
  all of them returned, the tree is in order at every moment, and an entry that is returned is a child of the
  directory with the name. (That a name is not found may be wrong: the list head that a look-up waits for is moved by
  the others.)
\<close>

theorem concurrent_lookups_return:
  assumes inv: "dc_inv dc kids" and js: "\<forall>j \<in> set js. look_ok dc j"
  defines "sys \<equiv> (dc, map (\<lambda>j. (j, job_start j)) js)"
  shows "termip (move dc_step halted) sys \<and>
    (\<forall>dc' ts. (move dc_step halted)\<^sup>*\<^sup>* sys (dc', ts) \<longrightarrow>
       (\<exists>kids'. dc_inv dc' kids') \<and>
       (\<forall>p nm n a. (Look p nm n, Return (Some a)) \<in> set ts \<longrightarrow> Some a \<in> dc_named dc kids p (take n nm)) \<and>
       ((\<nexists>y. move dc_step halted (dc', ts) y) \<longrightarrow> (\<forall>(j, pc) \<in> set ts. \<exists>r. pc = Return r)))"
proof -
  have "ring_thread dc kids j (job_start j)" if "look_ok dc j" for j using that by (cases j) simp_all
  then have start: "ring.sys_inv dc kids kids sys"
    using inv js by (auto simp: ring.sys_inv_def sys_def ring_good_def)
  have "(\<exists>kids'. dc_inv dc' kids') \<and>
      (\<forall>p nm n a. (Look p nm n, Return (Some a)) \<in> set ts \<longrightarrow> Some a \<in> dc_named dc kids p (take n nm)) \<and>
      ((\<nexists>y. move dc_step halted (dc', ts) y) \<longrightarrow> (\<forall>(j, pc) \<in> set ts. \<exists>r. pc = Return r))"
    if run: "(move dc_step halted)\<^sup>*\<^sup>* sys (dc', ts)" for dc' ts
  proof -
    obtain kids' where k: "ring.sys_inv dc kids kids' (dc', ts)" using ring.moves_ok [OF run start] by blast
    note at = ring.sys_invD(2) [OF k]
    have "dc_inv dc' kids'" using ring.sys_invD(1) [OF k] by (simp add: ring_good_def)
    moreover have "(Look p nm n, Return (Some a)) \<in> set ts \<Longrightarrow> Some a \<in> dc_named dc kids p (take n nm)" for p nm n a
      using at by fastforce
    moreover have "\<exists>r. pc = Return r" if "(j, pc) \<in> set ts" "\<nexists>y. move dc_step halted (dc', ts) y" for j pc
      using stuck_halted [OF that(2,1)] at [OF that(1)] by (elim haltedE; cases j) auto
    ultimately show ?thesis by blast
  qed
  moreover have "termip (move dc_step halted) sys" using ring.runs_end start unfolding sys_def by blast
  ultimately show ?thesis by blast
qed

theorem concurrent_lookups_return_witness:
  "termip (move dc_step halted)
     ([zero_entry\<lparr>de_inode := 2, childs := Some 1\<rparr>, (new_entry [97] 1 7)\<lparr>siblings := Some 1\<rparr>],
      [(Look None [97] 1, L_test), (Look None [98] 1, L_test)])"
  using concurrent_lookups_return [OF one_child_inv, of "[Look None [97] 1, Look None [98] 1]"]
  by (simp add: dc_has_def addr_def)

text \<open>
  A name that is not found although it is there: while one thread looks for \<^verbatim>\<open>b\<close>, another one finds \<^verbatim>\<open>a\<close> and makes it the head of
  the list, where the first one stops. The caller then inserts \<^verbatim>\<open>b\<close> again, as the comment in the code expects.
\<close>

definition three_entries :: dcache where
  "three_entries = [zero_entry\<lparr>de_inode := 2, childs := Some 3\<rparr>, (new_entry [97] 1 7)\<lparr>siblings := Some 2\<rparr>,
     (new_entry [98] 1 8)\<lparr>siblings := Some 3\<rparr>, (new_entry [99] 1 9)\<lparr>siblings := Some 1\<rparr>]"

lemma lookup_misses_entry:
  "fst (the (case dcache_lookup three_entries None [98] 1 of Inr x \<Rightarrow> Some x | Inl f \<Rightarrow> None)) = Some 2"
  "snd (schedule dc_step halted [0, 0, 0, 0, 1, 1, 1, 1, 1, 1, 1, 0] (three_entries, [(Look None [98] 1, L_test), (Look None [97] 1, L_test)])) =
     [(Look None [98] 1, Return None), (Look None [97] 1, Return (Some 1))]"
  by code_simp+

text \<open>
  (C11) Insertions do disturb each other, although the comment in \<^verbatim>\<open>dcache.c\<close> says that they are safe: for every directory
  with a cached child and any two insertions under it there is an interleaving, in which both return, after which
  every later look-up of a name that is not cached there, even alone, never returns. The two threads read the pointers
  before either writes one, so that one of the new entries becomes the head of the list and is not in its ring.
\<close>

theorem concurrent_inserts_hang:
  assumes inv: "dc_inv dc kids" and p: "dc_has dc p" and ne: "kids (addr p) \<noteq> []"
    and n1: "n1 < DCACHE_ENTRY_NAME_LEN" "n1 \<le> length nm1" "0 \<notin> set (take n1 nm1)"
    and n2: "n2 < DCACHE_ENTRY_NAME_LEN" "n2 \<le> length nm2" "0 \<notin> set (take n2 nm2)"
  shows "\<exists>dc' r1 r2. (move dc_step halted)\<^sup>*\<^sup>* (dc, [(Ins p nm1 n1 i1, I_new), (Ins p nm2 n2 i2, I_new)])
      (dc', [(Ins p nm1 n1 i1, Return (Some r1)), (Ins p nm2 n2 i2, Return (Some r2))]) \<and>
    (\<forall>nm n. n \<le> length nm \<and> 0 \<notin> set (take n nm) \<and> take n nm \<notin> {take n1 nm1, take n2 nm2} \<and>
       dc_named dc kids p (take n nm) = {} \<longrightarrow> dcache_lookup dc' p nm n = Inl NoReturn)"
  using torn_reached [OF inv p ne n1(1) n2(1)] torn_lookup [OF inv p ne n1 n2] by blast

theorem concurrent_inserts_hang_witness:
  "\<exists>dc' r1 r2. (move dc_step halted)\<^sup>*\<^sup>*
      ([zero_entry\<lparr>de_inode := 2, childs := Some 1\<rparr>, (new_entry [97] 1 7)\<lparr>siblings := Some 1\<rparr>],
       [(Ins None [98] 1 8, I_new), (Ins None [99] 1 9, I_new)])
      (dc', [(Ins None [98] 1 8, Return (Some r1)), (Ins None [99] 1 9, Return (Some r2))]) \<and>
    dcache_lookup dc' None [100] 1 = Inl NoReturn"
proof -
  have "dc_named [zero_entry\<lparr>de_inode := 2, childs := Some 1\<rparr>, (new_entry [97] 1 7)\<lparr>siblings := Some 1\<rparr>]
     (\<lambda>q. if q = 0 then [1] else []) None [100] = {}"
    using ename_stored(3) [of 1 "[97]"]
    by (simp add: dc_named_def addr_def ename_def new_entry_def DCACHE_ENTRY_NAME_LEN_def)
  moreover have "\<exists>dc' r1 r2. (move dc_step halted)\<^sup>*\<^sup>*
      ([zero_entry\<lparr>de_inode := 2, childs := Some 1\<rparr>, (new_entry [97] 1 7)\<lparr>siblings := Some 1\<rparr>],
       [(Ins None [98] 1 8, I_new), (Ins None [99] 1 9, I_new)])
      (dc', [(Ins None [98] 1 8, Return (Some r1)), (Ins None [99] 1 9, Return (Some r2))]) \<and>
    (\<forall>nm n. n \<le> length nm \<and> 0 \<notin> set (take n nm) \<and> take n nm \<notin> {take 1 [98], take 1 [99]} \<and>
       dc_named [zero_entry\<lparr>de_inode := 2, childs := Some 1\<rparr>, (new_entry [97] 1 7)\<lparr>siblings := Some 1\<rparr>]
         (\<lambda>q. if q = 0 then [1] else []) None (take n nm) = {} \<longrightarrow> dcache_lookup dc' None nm n = Inl NoReturn)"
    by (rule concurrent_inserts_hang [OF one_child_inv]) (simp_all add: dc_has_def addr_def DCACHE_ENTRY_NAME_LEN_def)
  moreover have "1 \<le> length [100 :: u8] \<and> 0 \<notin> set (take 1 [100 :: u8]) \<and> take 1 [100] \<notin> {take 1 [98], take 1 [99 :: u8]}"
    by simp
  ultimately show ?thesis by (metis take_Suc_Cons take_0 One_nat_def)
qed

text \<open>
  One insertion and two look-ups are enough: a look-up moves the head of the list between the two reads of an insertion, which
  then links its entry behind another one than it took the sibling of and cuts entries off, and a second look-up that had
  found one of those makes it the head.
\<close>

definition late_move :: "(dcache, job, place) system" where
  "late_move = schedule dc_step halted (replicate 9 2 @ replicate 5 0 @ replicate 7 1 @ [0, 0, 0, 2])
     (three_entries, [(Ins None [100] 1 10, I_new), (Look None [97] 1, L_test), (Look None [98] 1, L_test)])"

lemma insert_during_lookups_hangs:
  "snd late_move = [(Ins None [100] 1 10, Return (Some 4)), (Look None [97] 1, Return (Some 1)), (Look None [98] 1, Return (Some 2))]"
  "dcache_lookup (fst late_move) None [101] 1 = Inl NoReturn"
  by code_simp+

end
