(* ===== verification/Log_threads.thy ===== *)
theory Log_threads
  imports Fuse_main Threads
begin

text \<open>
  The log of the file system when several threads write it. \<^verbatim>\<open>__LOG\<close> of \<^verbatim>\<open>fuse/logging.c\<close> takes a mutex, as its comment says so
  that the output of different threads is not interleaved, and writes a line with three calls of \<^verbatim>\<open>fprintf\<close>. Here each of
  them, and the taking and giving back of the mutex, is a step of a thread. The level and the file are set before
  the threads are started.
\<close>

section \<open>__LOG, step by step\<close>

datatype log_job = Log_job int bytes int bytes

datatype log_place = G_call | G_lock | G_head | G_msg | G_newline | G_unlock | G_done | G_crash

record log_sys =
  lg :: logging
  lg_lock :: bool

definition fput :: "bytes \<Rightarrow> log_sys \<Rightarrow> log_sys" where
  "fput bs s = s\<lparr>lg := (lg s)\<lparr>logfile := map_option (\<lambda>out. out @ bs) (logfile (lg s))\<rparr>\<rparr>"

definition log_head :: "int \<Rightarrow> bytes \<Rightarrow> int \<Rightarrow> bytes" where
  "log_head level func line = loglevel_str ! nat level @ lit ''['' @ func @ lit '':'' @ dec_int line @ lit ''] ''"

fun log_step :: "log_job \<Rightarrow> log_sys \<Rightarrow> log_place \<Rightarrow> log_sys \<times> log_place" where
  "log_step (Log_job level func line msg) s G_call =
     (s, if logfile (lg s) = None then G_done else if level < 0 then G_done
         else if level > loglevel (lg s) then G_done else G_lock)"
| "log_step j s G_lock = (if lg_lock s then (s, G_lock) else (s\<lparr>lg_lock := True\<rparr>, G_head))"
| "log_step (Log_job level func line msg) s G_head =
     (if nat level < length loglevel_str then (fput (log_head level func line) s, G_msg) else (s, G_crash))"
| "log_step (Log_job level func line msg) s G_msg = (fput msg s, G_newline)"
| "log_step j s G_newline = (fput [10] s, G_unlock)"
| "log_step j s G_unlock = (s\<lparr>lg_lock := False\<rparr>, G_done)"
| "log_step j s pc = (s, pc)"

fun log_halted :: "log_place \<Rightarrow> bool" where
  "log_halted G_done = True"
| "log_halted G_crash = True"
| "log_halted _ = False"

definition log_start :: "log_job \<Rightarrow> log_place" where
  "log_start j = G_call"

fun log_adm :: "log_sys \<Rightarrow> log_job \<Rightarrow> bool" where
  "log_adm s (Log_job level func line msg) \<longleftrightarrow> level < 8"

section \<open>The threads that are inside\<close>

fun inside :: "log_place \<Rightarrow> bool" where
  "inside G_head = True"
| "inside G_msg = True"
| "inside G_newline = True"
| "inside G_unlock = True"
| "inside _ = False"

fun written :: "log_job \<times> log_place \<Rightarrow> bytes" where
  "written (Log_job level func line msg, G_msg) = log_head level func line"
| "written (Log_job level func line msg, G_newline) = log_head level func line @ msg"
| "written _ = []"

fun logged :: "log_place \<Rightarrow> bool" where
  "logged G_unlock = True"
| "logged G_done = True"
| "logged _ = False"

fun log_job_ok :: "int \<Rightarrow> log_job \<times> log_place \<Rightarrow> bool" where
  "log_job_ok l (Log_job level func line msg, pc) \<longleftrightarrow>
     level < 8 \<and> pc \<noteq> G_crash \<and> (pc \<notin> {G_call, G_done} \<longrightarrow> 0 \<le> level \<and> level \<le> l)"

text \<open>The calls one after the other.\<close>

fun call_LOG :: "log_job \<Rightarrow> logging \<Rightarrow> logging res" where
  "call_LOG (Log_job level func line msg) st = LOG level func line msg st"

definition log_seq :: "log_job list \<Rightarrow> logging \<Rightarrow> logging res" where
  "log_seq js st = foldl (\<lambda>m j. rbind m (call_LOG j)) (Inr st) js"

lemma log_seq_snoc [simp]: "log_seq (js @ [j]) st = rbind (log_seq js st) (call_LOG j)"
  by (simp add: log_seq_def)

text \<open>
  At every moment the file holds what the calls that have written their line have written one after the other, and then
  the part of a line of the thread that has the mutex.
\<close>

definition log_sys_inv :: "int \<Rightarrow> bytes \<Rightarrow> log_job list \<Rightarrow> bytes \<Rightarrow> (log_sys, log_job, log_place) system \<Rightarrow> bool" where
  "log_sys_inv l out0 js out x \<longleftrightarrow>
     log_seq js \<lparr>loglevel = l, logfile = Some out0\<rparr> = Inr \<lparr>loglevel = l, logfile = Some out\<rparr> \<and>
     mset js = image_mset fst (filter_mset (\<lambda>t. logged (snd t)) (mset (snd x))) \<and>
     (\<forall>t \<in># mset (snd x). log_job_ok l t) \<and> loglevel (lg (fst x)) = l \<and>
     (if lg_lock (fst x)
      then \<exists>t. filter_mset (\<lambda>t. inside (snd t)) (mset (snd x)) = {#t#} \<and> logfile (lg (fst x)) = Some (out @ written t)
      else filter_mset (\<lambda>t. inside (snd t)) (mset (snd x)) = {#} \<and> logfile (lg (fst x)) = Some out)"

lemma fput_simps [simp]:
  "loglevel (lg (fput bs s)) = loglevel (lg s)" "lg_lock (fput bs s) = lg_lock s"
  "logfile (lg (fput bs s)) = map_option (\<lambda>out. out @ bs) (logfile (lg s))"
  by (simp_all add: fput_def)

lemma log_line_head: "log_line level func line msg = log_head level func line @ msg @ [10]"
  by (simp add: log_line_def log_head_def)

lemma inside_only:
  assumes "log_sys_inv l out0 js out (s, ts)" "mset ts = add_mset (j, p) M" "inside p"
  shows "lg_lock s" "filter_mset (\<lambda>t. inside (snd t)) M = {#}" "logfile (lg s) = Some (out @ written (j, p))"
  using assms by (auto simp: log_sys_inv_def split: if_splits)

lemma log_move:
  assumes inv: "log_sys_inv l out0 js out (s, ts)" and mv: "move log_step log_halted (s, ts) (s', ts')"
  shows "\<exists>js' out'. log_sys_inv l out0 js' out' (s', ts')"
proof -
  obtain j p p' M where m: "mset ts = add_mset (j, p) M" "mset ts' = add_mset (j, p') M" "\<not> log_halted p"
      "log_step j s p = (s', p')"
    using move_mset [OF mv] .
  obtain level func line msg where j: "j = Log_job level func line msg" by (cases j)
  have ok: "log_job_ok l (j, p)" using inv m(1) by (simp add: log_sys_inv_def)
  have "level < 8" using ok j by simp
  then have "nat level < 8" by linarith
  then have hl: "nat level < length loglevel_str" by (simp add: loglevel_str_def)
  note only = inside_only [OF inv m(1)]
  have same: "log_sys_inv l out0 js out (s', ts')" if "p \<noteq> G_newline" "p' = G_done \<longrightarrow> p \<noteq> G_call"
    using inv m j only ok hl that by (cases p) (auto simp: log_sys_inv_def split: if_splits)
  show ?thesis
  proof (cases "p = G_newline")
    case True
    then have "log_sys_inv l out0 (js @ [j]) (out @ log_line level func line msg) (s', ts')"
      using inv m j only ok hl by (auto simp: log_sys_inv_def LOG_def log_line_head)
    then show ?thesis by blast
  next
    case line: False
    show ?thesis
    proof (cases "p = G_call \<and> p' = G_done")
      case True
      then have "level < 0 \<or> level > l" using inv m j by (auto simp: log_sys_inv_def split: if_splits)
      then have "log_sys_inv l out0 (js @ [j]) out (s', ts')"
        using inv m j True ok by (auto simp: log_sys_inv_def LOG_def)
      then show ?thesis by blast
    next
      case False
      then show ?thesis using same line by blast
    qed
  qed
qed

abbreviation log_acts :: "(log_sys, log_job, log_place) system \<Rightarrow> (log_sys, log_job, log_place) system \<Rightarrow> bool" where
  "log_acts \<equiv> (act log_step log_halted log_start log_adm)\<^sup>*\<^sup>*"

lemma log_runs:
  assumes "log_acts x y" "log_sys_inv l out0 js out x"
  shows "\<exists>js' out'. log_sys_inv l out0 js' out' y"
  using assms
proof (induction rule: rtranclp_induct)
  case (step y z)
  then obtain js' out' where y: "log_sys_inv l out0 js' out' y" by blast
  from step.hyps(2) show ?case
  proof cases
    case moves
    then show ?thesis using log_move y by (metis surj_pair)
  next
    case (arrives s j ts)
    then have "log_sys_inv l out0 js' out' z" using y by (cases j) (auto simp: log_sys_inv_def log_start_def)
    then show ?thesis by blast
  qed
qed blast

text \<open>The part of a line, and a thread that can go on.\<close>

lemma written_line:
  "\<exists>rest. log_line level func line msg = written (Log_job level func line msg, p) @ rest"
  "written (j, G_done) = []"
  by (cases p; simp add: log_line_head) (cases j; simp)

lemma log_part:
  assumes "log_sys_inv l out0 js out (s, ts)"
  shows "\<exists>part. logfile (lg s) = Some (out @ part) \<and> (\<not> lg_lock s \<longrightarrow> part = []) \<and>
      (part \<noteq> [] \<longrightarrow> (\<exists>level func line msg p rest. (Log_job level func line msg, p) \<in> set ts \<and> p \<noteq> G_done \<and>
         log_line level func line msg = part @ rest))"
proof (cases "lg_lock s")
  case True
  then obtain t where t: "filter_mset (\<lambda>t. inside (snd t)) (mset ts) = {#t#}" "logfile (lg s) = Some (out @ written t)"
    using assms by (auto simp: log_sys_inv_def)
  then have "t \<in># filter_mset (\<lambda>t. inside (snd t)) (mset ts)" by simp
  then have mem: "t \<in> set ts" "inside (snd t)" by simp_all
  obtain level func line msg p where tp: "t = (Log_job level func line msg, p)" by (metis log_job.exhaust surj_pair)
  then have "p \<noteq> G_done" using mem(2) by auto
  then show ?thesis using t(2) True mem(1) tp written_line(1) [of level func line msg p] by blast
next
  case False
  then show ?thesis using assms by (auto simp: log_sys_inv_def)
qed

lemma log_progress:
  assumes inv: "log_sys_inv l out0 js out (s, ts)" and busy: "\<exists>(j, p) \<in> set ts. p \<noteq> G_done"
  shows "\<exists>y. move log_step log_halted (s, ts) y \<and> y \<noteq> (s, ts)"
proof -
  obtain j p where jp: "(j, p) \<in> set ts" "p \<noteq> G_done" "lg_lock s \<longrightarrow> inside p"
  proof (cases "lg_lock s")
    case True
    then obtain t where "filter_mset (\<lambda>t. inside (snd t)) (mset ts) = {#t#}" using inv by (auto simp: log_sys_inv_def)
    then have "t \<in># filter_mset (\<lambda>t. inside (snd t)) (mset ts)" by simp
    then have mem: "t \<in> set ts" "inside (snd t)" by simp_all
    then have "snd t \<noteq> G_done" by auto
    then show thesis using that [of "fst t" "snd t"] mem by simp
  next
    case False
    then show thesis using busy that by blast
  qed
  have "p \<noteq> G_crash" using inv jp(1) by (cases j) (auto simp: log_sys_inv_def)
  then have run: "\<not> log_halted p" using jp(2) by (cases p) simp_all
  have new: "snd (log_step j s p) \<noteq> p" using jp(3) run by (cases j; cases p) auto
  obtain i where i: "i < length ts" "ts ! i = (j, p)" using jp(1) by (auto simp: in_set_conv_nth)
  have "move log_step log_halted (s, ts) (fst (log_step j s p), ts[i := (j, snd (log_step j s p))])"
    using i run by (intro move) simp_all
  moreover have "ts[i := (j, snd (log_step j s p))] \<noteq> ts" using i new by (metis nth_list_update_eq snd_conv)
  ultimately show ?thesis by blast
qed

section \<open>Property of the log with several threads\<close>

text \<open>
  (C29) However the steps of any number of calls of \<^verbatim>\<open>__LOG\<close> interleave, the log is the one that the calls which have written
  their line give when they run one after the other in some order, followed by the beginning of at most one more line,
  and by nothing when the mutex is free; and as long as a call is not done, some thread can go on.
\<close>

theorem log_lines_not_interleaved:
  assumes "log_acts (\<lparr>lg = \<lparr>loglevel = l, logfile = Some out0\<rparr>, lg_lock = False\<rparr>, []) (s, ts)"
  shows "(\<exists>js out part. mset js = image_mset fst (filter_mset (\<lambda>t. logged (snd t)) (mset ts)) \<and>
      log_seq js \<lparr>loglevel = l, logfile = Some out0\<rparr> = Inr \<lparr>loglevel = l, logfile = Some out\<rparr> \<and>
      logfile (lg s) = Some (out @ part) \<and> (\<not> lg_lock s \<longrightarrow> part = []) \<and>
      (part \<noteq> [] \<longrightarrow> (\<exists>level func line msg p rest. (Log_job level func line msg, p) \<in> set ts \<and> p \<noteq> G_done \<and>
         log_line level func line msg = part @ rest))) \<and>
    ((\<exists>(j, p) \<in> set ts. p \<noteq> G_done) \<longrightarrow> (\<exists>y. move log_step log_halted (s, ts) y \<and> y \<noteq> (s, ts)))"
proof -
  let ?st = "\<lparr>loglevel = l, logfile = Some out0\<rparr>"
  have "log_sys_inv l out0 [] out0 (\<lparr>lg = ?st, lg_lock = False\<rparr>, [])" by (simp add: log_sys_inv_def log_seq_def)
  then obtain js out where inv: "log_sys_inv l out0 js out (s, ts)" using log_runs [OF assms] by blast
  have "\<exists>part. logfile (lg s) = Some (out @ part) \<and> (\<not> lg_lock s \<longrightarrow> part = []) \<and>
      (part \<noteq> [] \<longrightarrow> (\<exists>level func line msg p rest. (Log_job level func line msg, p) \<in> set ts \<and> p \<noteq> G_done \<and>
         log_line level func line msg = part @ rest))"
    using log_part [OF inv] .
  moreover have "\<exists>y. move log_step log_halted (s, ts) y \<and> y \<noteq> (s, ts)" if "\<exists>(j, p) \<in> set ts. p \<noteq> G_done"
    using log_progress [OF inv that] .
  ultimately show ?thesis using inv unfolding log_sys_inv_def fst_conv snd_conv by blast
qed

text \<open>A run in which the first thread has written its line and the second has begun its own.\<close>

definition log_demo :: "(log_sys, log_job, log_place) system" where
  "log_demo = schedule log_step log_halted [0, 1, 0, 1, 0, 0, 0, 0, 1, 1]
     (\<lparr>lg = \<lparr>loglevel = 7, logfile = Some []\<rparr>, lg_lock = False\<rparr>,
      [(Log_job 3 [98] 2 [100], G_call), (Log_job 4 [99] 5 [101], G_call)])"

lemma log_demo_eq:
  "mset (snd log_demo) = {#(Log_job 3 [98] 2 [100], G_done), (Log_job 4 [99] 5 [101], G_msg)#}"
  "logfile (lg (fst log_demo)) = Some (log_line 3 [98] 2 [100] @ log_head 4 [99] 5)"
  by code_simp+

lemma log_demo_run: "log_acts (\<lparr>lg = \<lparr>loglevel = 7, logfile = Some []\<rparr>, lg_lock = False\<rparr>, []) log_demo"
proof -
  let ?s = "\<lparr>lg = \<lparr>loglevel = 7, logfile = Some []\<rparr>, lg_lock = False\<rparr>"
  have "log_acts (?s, []) (?s, [(Log_job 3 [98] 2 [100], G_call), (Log_job 4 [99] 5 [101], G_call)])"
    using act_arrivals [of "[Log_job 3 [98] 2 [100], Log_job 4 [99] 5 [101]]" log_adm ?s log_step log_halted log_start "[]"]
    by (simp add: log_start_def)
  also have "log_acts \<dots> log_demo" unfolding log_demo_def by (rule moves_act [OF schedule_moves])
  finally show ?thesis .
qed

theorem log_lines_not_interleaved_witness:
  "logfile (lg (fst log_demo)) = Some (log_line 3 [98] 2 [100] @ log_head 4 [99] 5) \<and>
   (\<exists>js out part. mset js = {#Log_job 3 [98] 2 [100]#} \<and>
     log_seq js \<lparr>loglevel = 7, logfile = Some []\<rparr> = Inr \<lparr>loglevel = 7, logfile = Some out\<rparr> \<and>
     logfile (lg (fst log_demo)) = Some (out @ part)) \<and>
   (\<exists>y. move log_step log_halted log_demo y \<and> y \<noteq> log_demo)"
proof -
  have "log_acts (\<lparr>lg = \<lparr>loglevel = 7, logfile = Some []\<rparr>, lg_lock = False\<rparr>, []) (fst log_demo, snd log_demo)"
    using log_demo_run by simp
  note ok = log_lines_not_interleaved [OF this]
  have "(Log_job 4 [99] 5 [101], G_msg) \<in># mset (snd log_demo)" unfolding log_demo_eq(1) by simp
  then have "\<exists>(j, p) \<in> set (snd log_demo). p \<noteq> G_done" by (intro bexI [of _ "(Log_job 4 [99] 5 [101], G_msg)"]) simp_all
  then have "\<exists>y. move log_step log_halted log_demo y \<and> y \<noteq> log_demo" using ok by simp
  moreover have "\<exists>js out part. mset js = {#Log_job 3 [98] 2 [100]#} \<and>
     log_seq js \<lparr>loglevel = 7, logfile = Some []\<rparr> = Inr \<lparr>loglevel = 7, logfile = Some out\<rparr> \<and>
     logfile (lg (fst log_demo)) = Some (out @ part)"
    using conjunct1 [OF ok] unfolding log_demo_eq(1) by auto
  ultimately show ?thesis using log_demo_eq(2) by blast
qed

end
