(* ===== verification/Hash.thy ===== *)
theory Hash
  imports Prelude
begin

text \<open>
  Model of the checksums and the byte-wise hash functions of \<^verbatim>\<open>base/c_hash.c\<close>: CRC-16, the two
  CRC-32 variants, the FNV family, one-at-a-time. A key is the list of its bytes. \<^verbatim>\<open>char\<close> is
  signed on the platforms the program is built for, so a byte read through \<^verbatim>\<open>char *\<close> is
  sign-extended when it is widened, and one read through \<^verbatim>\<open>uint8_t *\<close> is zero-extended.
\<close>

section \<open>Cyclic redundancy checks\<close>

definition crc32tab :: "u32 list" where
  "crc32tab = [
     0x00000000, 0x77073096, 0xee0e612c, 0x990951ba, 0x076dc419, 0x706af48f, 0xe963a535, 0x9e6495a3,
     0x0edb8832, 0x79dcb8a4, 0xe0d5e91e, 0x97d2d988, 0x09b64c2b, 0x7eb17cbd, 0xe7b82d07, 0x90bf1d91,
     0x1db71064, 0x6ab020f2, 0xf3b97148, 0x84be41de, 0x1adad47d, 0x6ddde4eb, 0xf4d4b551, 0x83d385c7,
     0x136c9856, 0x646ba8c0, 0xfd62f97a, 0x8a65c9ec, 0x14015c4f, 0x63066cd9, 0xfa0f3d63, 0x8d080df5,
     0x3b6e20c8, 0x4c69105e, 0xd56041e4, 0xa2677172, 0x3c03e4d1, 0x4b04d447, 0xd20d85fd, 0xa50ab56b,
     0x35b5a8fa, 0x42b2986c, 0xdbbbc9d6, 0xacbcf940, 0x32d86ce3, 0x45df5c75, 0xdcd60dcf, 0xabd13d59,
     0x26d930ac, 0x51de003a, 0xc8d75180, 0xbfd06116, 0x21b4f4b5, 0x56b3c423, 0xcfba9599, 0xb8bda50f,
     0x2802b89e, 0x5f058808, 0xc60cd9b2, 0xb10be924, 0x2f6f7c87, 0x58684c11, 0xc1611dab, 0xb6662d3d,
     0x76dc4190, 0x01db7106, 0x98d220bc, 0xefd5102a, 0x71b18589, 0x06b6b51f, 0x9fbfe4a5, 0xe8b8d433,
     0x7807c9a2, 0x0f00f934, 0x9609a88e, 0xe10e9818, 0x7f6a0dbb, 0x086d3d2d, 0x91646c97, 0xe6635c01,
     0x6b6b51f4, 0x1c6c6162, 0x856530d8, 0xf262004e, 0x6c0695ed, 0x1b01a57b, 0x8208f4c1, 0xf50fc457,
     0x65b0d9c6, 0x12b7e950, 0x8bbeb8ea, 0xfcb9887c, 0x62dd1ddf, 0x15da2d49, 0x8cd37cf3, 0xfbd44c65,
     0x4db26158, 0x3ab551ce, 0xa3bc0074, 0xd4bb30e2, 0x4adfa541, 0x3dd895d7, 0xa4d1c46d, 0xd3d6f4fb,
     0x4369e96a, 0x346ed9fc, 0xad678846, 0xda60b8d0, 0x44042d73, 0x33031de5, 0xaa0a4c5f, 0xdd0d7cc9,
     0x5005713c, 0x270241aa, 0xbe0b1010, 0xc90c2086, 0x5768b525, 0x206f85b3, 0xb966d409, 0xce61e49f,
     0x5edef90e, 0x29d9c998, 0xb0d09822, 0xc7d7a8b4, 0x59b33d17, 0x2eb40d81, 0xb7bd5c3b, 0xc0ba6cad,
     0xedb88320, 0x9abfb3b6, 0x03b6e20c, 0x74b1d29a, 0xead54739, 0x9dd277af, 0x04db2615, 0x73dc1683,
     0xe3630b12, 0x94643b84, 0x0d6d6a3e, 0x7a6a5aa8, 0xe40ecf0b, 0x9309ff9d, 0x0a00ae27, 0x7d079eb1,
     0xf00f9344, 0x8708a3d2, 0x1e01f268, 0x6906c2fe, 0xf762575d, 0x806567cb, 0x196c3671, 0x6e6b06e7,
     0xfed41b76, 0x89d32be0, 0x10da7a5a, 0x67dd4acc, 0xf9b9df6f, 0x8ebeeff9, 0x17b7be43, 0x60b08ed5,
     0xd6d6a3e8, 0xa1d1937e, 0x38d8c2c4, 0x4fdff252, 0xd1bb67f1, 0xa6bc5767, 0x3fb506dd, 0x48b2364b,
     0xd80d2bda, 0xaf0a1b4c, 0x36034af6, 0x41047a60, 0xdf60efc3, 0xa867df55, 0x316e8eef, 0x4669be79,
     0xcb61b38c, 0xbc66831a, 0x256fd2a0, 0x5268e236, 0xcc0c7795, 0xbb0b4703, 0x220216b9, 0x5505262f,
     0xc5ba3bbe, 0xb2bd0b28, 0x2bb45a92, 0x5cb36a04, 0xc2d7ffa7, 0xb5d0cf31, 0x2cd99e8b, 0x5bdeae1d,
     0x9b64c2b0, 0xec63f226, 0x756aa39c, 0x026d930a, 0x9c0906a9, 0xeb0e363f, 0x72076785, 0x05005713,
     0x95bf4a82, 0xe2b87a14, 0x7bb12bae, 0x0cb61b38, 0x92d28e9b, 0xe5d5be0d, 0x7cdcefb7, 0x0bdbdf21,
     0x86d3d2d4, 0xf1d4e242, 0x68ddb3f8, 0x1fda836e, 0x81be16cd, 0xf6b9265b, 0x6fb077e1, 0x18b74777,
     0x88085ae6, 0xff0f6a70, 0x66063bca, 0x11010b5c, 0x8f659eff, 0xf862ae69, 0x616bffd3, 0x166ccf45,
     0xa00ae278, 0xd70dd2ee, 0x4e048354, 0x3903b3c2, 0xa7672661, 0xd06016f7, 0x4969474d, 0x3e6e77db,
     0xaed16a4a, 0xd9d65adc, 0x40df0b66, 0x37d83bf0, 0xa9bcae53, 0xdebb9ec5, 0x47b2cf7f, 0x30b5ffe9,
     0xbdbdf21c, 0xcabac28a, 0x53b39330, 0x24b4a3a6, 0xbad03605, 0xcdd70693, 0x54de5729, 0x23d967bf,
     0xb3667a2e, 0xc4614ab8, 0x5d681b02, 0x2a6f2b94, 0xb40bbe37, 0xc30c8ea1, 0x5a05df1b, 0x2d02ef8d]"

definition crc16tab :: "u16 list" where
  "crc16tab = [
     0x0000, 0x1021, 0x2042, 0x3063, 0x4084, 0x50a5, 0x60c6, 0x70e7, 0x8108, 0x9129, 0xa14a, 0xb16b,
     0xc18c, 0xd1ad, 0xe1ce, 0xf1ef, 0x1231, 0x0210, 0x3273, 0x2252, 0x52b5, 0x4294, 0x72f7, 0x62d6,
     0x9339, 0x8318, 0xb37b, 0xa35a, 0xd3bd, 0xc39c, 0xf3ff, 0xe3de, 0x2462, 0x3443, 0x0420, 0x1401,
     0x64e6, 0x74c7, 0x44a4, 0x5485, 0xa56a, 0xb54b, 0x8528, 0x9509, 0xe5ee, 0xf5cf, 0xc5ac, 0xd58d,
     0x3653, 0x2672, 0x1611, 0x0630, 0x76d7, 0x66f6, 0x5695, 0x46b4, 0xb75b, 0xa77a, 0x9719, 0x8738,
     0xf7df, 0xe7fe, 0xd79d, 0xc7bc, 0x48c4, 0x58e5, 0x6886, 0x78a7, 0x0840, 0x1861, 0x2802, 0x3823,
     0xc9cc, 0xd9ed, 0xe98e, 0xf9af, 0x8948, 0x9969, 0xa90a, 0xb92b, 0x5af5, 0x4ad4, 0x7ab7, 0x6a96,
     0x1a71, 0x0a50, 0x3a33, 0x2a12, 0xdbfd, 0xcbdc, 0xfbbf, 0xeb9e, 0x9b79, 0x8b58, 0xbb3b, 0xab1a,
     0x6ca6, 0x7c87, 0x4ce4, 0x5cc5, 0x2c22, 0x3c03, 0x0c60, 0x1c41, 0xedae, 0xfd8f, 0xcdec, 0xddcd,
     0xad2a, 0xbd0b, 0x8d68, 0x9d49, 0x7e97, 0x6eb6, 0x5ed5, 0x4ef4, 0x3e13, 0x2e32, 0x1e51, 0x0e70,
     0xff9f, 0xefbe, 0xdfdd, 0xcffc, 0xbf1b, 0xaf3a, 0x9f59, 0x8f78, 0x9188, 0x81a9, 0xb1ca, 0xa1eb,
     0xd10c, 0xc12d, 0xf14e, 0xe16f, 0x1080, 0x00a1, 0x30c2, 0x20e3, 0x5004, 0x4025, 0x7046, 0x6067,
     0x83b9, 0x9398, 0xa3fb, 0xb3da, 0xc33d, 0xd31c, 0xe37f, 0xf35e, 0x02b1, 0x1290, 0x22f3, 0x32d2,
     0x4235, 0x5214, 0x6277, 0x7256, 0xb5ea, 0xa5cb, 0x95a8, 0x8589, 0xf56e, 0xe54f, 0xd52c, 0xc50d,
     0x34e2, 0x24c3, 0x14a0, 0x0481, 0x7466, 0x6447, 0x5424, 0x4405, 0xa7db, 0xb7fa, 0x8799, 0x97b8,
     0xe75f, 0xf77e, 0xc71d, 0xd73c, 0x26d3, 0x36f2, 0x0691, 0x16b0, 0x6657, 0x7676, 0x4615, 0x5634,
     0xd94c, 0xc96d, 0xf90e, 0xe92f, 0x99c8, 0x89e9, 0xb98a, 0xa9ab, 0x5844, 0x4865, 0x7806, 0x6827,
     0x18c0, 0x08e1, 0x3882, 0x28a3, 0xcb7d, 0xdb5c, 0xeb3f, 0xfb1e, 0x8bf9, 0x9bd8, 0xabbb, 0xbb9a,
     0x4a75, 0x5a54, 0x6a37, 0x7a16, 0x0af1, 0x1ad0, 0x2ab3, 0x3a92, 0xfd2e, 0xed0f, 0xdd6c, 0xcd4d,
     0xbdaa, 0xad8b, 0x9de8, 0x8dc9, 0x7c26, 0x6c07, 0x5c64, 0x4c45, 0x3ca2, 0x2c83, 0x1ce0, 0x0cc1,
     0xef1f, 0xff3e, 0xcf5d, 0xdf7c, 0xaf9b, 0xbfba, 0x8fd9, 0x9ff8, 0x6e17, 0x7e36, 0x4e55, 0x5e74,
     0x2e93, 0x3eb2, 0x0ed1, 0x1ef0]"

definition c_hash_crc16 :: "bytes \<Rightarrow> u32" where
  "c_hash_crc16 key =
     fold (\<lambda>c crc. push_bit 8 crc XOR ucast (crc16tab ! unat ((drop_bit 8 crc XOR scast c) AND 0xff)))
       key 0"

definition c_hash_crc32 :: "bytes \<Rightarrow> u32" where
  "c_hash_crc32 key =
     drop_bit 16 (NOT (fold (\<lambda>c crc. drop_bit 8 crc XOR
         crc32tab ! unat ((ucast crc XOR (scast c :: u64)) AND 0xff)) key 0xffffffff)) AND 0x7fff"

definition c_hash_crc32a :: "bytes \<Rightarrow> u32" where
  "c_hash_crc32a key =
     fold (\<lambda>c crc. crc32tab ! unat ((crc XOR ucast c) AND 0xff) XOR drop_bit 8 crc) key (NOT 0) XOR NOT 0"

section \<open>FNV\<close>

definition FNV_64_INIT :: u64 where
  "FNV_64_INIT = 0xcbf29ce484222325"

definition FNV_64_PRIME :: u64 where
  "FNV_64_PRIME = 0x100000001b3"

definition FNV_32_INIT :: u32 where
  "FNV_32_INIT = 2166136261"

definition FNV_32_PRIME :: u32 where
  "FNV_32_PRIME = 16777619"

definition c_hash_fnv1_64 :: "bytes \<Rightarrow> u32" where
  "c_hash_fnv1_64 key = ucast (fold (\<lambda>c hash. (hash * FNV_64_PRIME) XOR scast c) key FNV_64_INIT)"

definition c_hash_fnv1a_64 :: "bytes \<Rightarrow> u32" where
  "c_hash_fnv1a_64 key =
     fold (\<lambda>c hash. (hash XOR scast c) * ucast FNV_64_PRIME) key (ucast FNV_64_INIT)"

definition c_hash_fnv1_32 :: "bytes \<Rightarrow> u32" where
  "c_hash_fnv1_32 key = fold (\<lambda>c hash. (hash * FNV_32_PRIME) XOR scast c) key FNV_32_INIT"

definition c_hash_fnv1a_32 :: "bytes \<Rightarrow> u32" where
  "c_hash_fnv1a_32 key = fold (\<lambda>c hash. (hash XOR scast c) * FNV_32_PRIME) key FNV_32_INIT"

section \<open>One at a time\<close>

definition oaat_step :: "u8 \<Rightarrow> u32 \<Rightarrow> u32" where
  "oaat_step c v0 =
     (let v = v0 + scast c; v = v + push_bit 10 v in v XOR drop_bit 6 v)"

definition c_hash_one_at_a_time :: "bytes \<Rightarrow> u32" where
  "c_hash_one_at_a_time key =
     (let v = fold oaat_step key 0;
          v = v + push_bit 3 v;
          v = v XOR drop_bit 11 v
      in v + push_bit 15 v)"

section \<open>References\<close>

text \<open>
  Division by the CRC polynomials, bit by bit: CRC-32 with the low bit first (polynomial
  \<open>0x04C11DB7\<close>, reflected), CRC-16 with the high bit first (polynomial \<open>0x1021\<close>).
\<close>

definition crc32_bit :: "u32 \<Rightarrow> u32" where
  "crc32_bit x = (if odd x then drop_bit 1 x XOR 0xEDB88320 else drop_bit 1 x)"

definition crc32_byte :: "u32 \<Rightarrow> u32" where
  "crc32_byte x = (crc32_bit ^^ 8) x"

definition crc32_ref :: "bytes \<Rightarrow> u32" where
  "crc32_ref key = NOT (fold (\<lambda>c crc. crc32_byte (crc XOR ucast c)) key (NOT 0))"

definition crc16_bit :: "u16 \<Rightarrow> u16" where
  "crc16_bit x = (if bit x 15 then push_bit 1 x XOR 0x1021 else push_bit 1 x)"

definition crc16_byte :: "u16 \<Rightarrow> u16" where
  "crc16_byte x = (crc16_bit ^^ 8) x"

definition crc16_ref :: "bytes \<Rightarrow> u16" where
  "crc16_ref key = fold (\<lambda>c crc. crc16_byte (crc XOR push_bit 8 (ucast c))) key 0"

text \<open>FNV-1 and FNV-1a as published, on octets.\<close>

definition fnv1 :: "'a::len word \<Rightarrow> 'a word \<Rightarrow> bytes \<Rightarrow> 'a word" where
  "fnv1 init prime key = fold (\<lambda>c h. (h * prime) XOR ucast c) key init"

definition fnv1a :: "'a::len word \<Rightarrow> 'a word \<Rightarrow> bytes \<Rightarrow> 'a word" where
  "fnv1a init prime key = fold (\<lambda>c h. (h XOR ucast c) * prime) key init"

definition ascii :: "bytes \<Rightarrow> bool" where
  "ascii key \<longleftrightarrow> (\<forall>c \<in> set key. c < 128)"

section \<open>The CRC-32 table\<close>

lemma crc32_byte_eq:
  "crc32_byte x = crc32_bit (crc32_bit (crc32_bit (crc32_bit
     (crc32_bit (crc32_bit (crc32_bit (crc32_bit x)))))))"
  by (simp add: crc32_byte_def eval_nat_numeral)

lemma upt_256: "[0 ..< 256] = 0 # 1 # [2 ..< 256]"
  by (simp add: upt_rec)

lemma crc32tab_eq: "crc32tab = map (\<lambda>i. crc32_byte (of_nat i)) [0 ..< 256]"
proof -
  have "map (\<lambda>i. crc32_byte (of_nat i)) [0 ..< 256] = map crc32_byte (0 # 1 # map of_nat [2 ..< 256])"
    unfolding upt_256 by simp
  also have "\<dots> = crc32tab"
    by (simp add: crc32tab_def) (simp add: crc32_byte_eq crc32_bit_def)
  finally show ?thesis by simp
qed

lemma crc16_byte_eq:
  "crc16_byte x = crc16_bit (crc16_bit (crc16_bit (crc16_bit
     (crc16_bit (crc16_bit (crc16_bit (crc16_bit x)))))))"
  by (simp add: crc16_byte_def eval_nat_numeral)

lemma crc16_bit_code: "crc16_bit x = (if odd (drop_bit 15 x) then push_bit 1 x XOR 0x1021 else push_bit 1 x)"
  by (simp add: crc16_bit_def bit_iff_odd_drop_bit)

lemma crc16tab_eq: "crc16tab = map (\<lambda>i. crc16_byte (push_bit 8 (of_nat i))) [0 ..< 256]"
proof -
  have "map (\<lambda>i. crc16_byte (push_bit 8 (of_nat i))) [0 ..< 256] =
      map crc16_byte (0 # 256 # map (\<lambda>i. push_bit 8 (of_nat i)) [2 ..< 256])"
    unfolding upt_256 by simp
  also have "\<dots> = crc16tab"
    by (simp add: crc16tab_def) (simp add: crc16_byte_eq crc16_bit_code)
  finally show ?thesis by simp
qed

text \<open>A step is linear, and shifts out a low byte of zeros.\<close>

lemma crc32_bit_alt: "crc32_bit x = drop_bit 1 x XOR (if bit x 0 then 0xEDB88320 else 0)"
  by (simp add: crc32_bit_def bit_0)

lemma crc32_bit_xor: "crc32_bit (x XOR y) = crc32_bit x XOR crc32_bit y"
  by (auto simp: crc32_bit_alt bit_xor_iff xor.assoc xor.left_commute xor.commute simp del: bit_0)

lemma crc32_byte_xor: "crc32_byte (x XOR y) = crc32_byte x XOR crc32_byte y"
proof -
  have "(crc32_bit ^^ n) (x XOR y) = (crc32_bit ^^ n) x XOR (crc32_bit ^^ n) y" for n
    by (induction n) (simp_all add: crc32_bit_xor)
  then show ?thesis by (simp add: crc32_byte_def)
qed

lemma and_byte: "x AND 0xff = take_bit 8 x" for x :: "'a::len word"
  using take_bit_eq_mask [of 8 x] by (simp add: mask_eq_exp_minus_1)

lemma crc32_byte_shift: "crc32_byte (push_bit 8 (drop_bit 8 x)) = drop_bit 8 x"
proof -
  let ?y = "push_bit 8 (drop_bit 8 x)"
  have "(crc32_bit ^^ n) ?y = drop_bit n ?y" if "n \<le> 8" for n
    using that
  proof (induction n)
    case (Suc n)
    have "\<not> bit (drop_bit n ?y) 0" using Suc.prems by (auto simp: bit_simps simp del: bit_0)
    moreover have "drop_bit 1 (drop_bit n ?y) = drop_bit (Suc n) ?y" by (simp only: drop_bit_drop_bit) simp
    ultimately show ?case using Suc by (simp add: crc32_bit_alt del: bit_0)
  qed simp
  from this [of 8] have "crc32_byte ?y = drop_bit 8 ?y" by (simp add: crc32_byte_def)
  also have "\<dots> = drop_bit 8 x"
    by (rule bit_word_eqI) (auto simp: bit_simps dest: bit_imp_le_length)
  finally show ?thesis .
qed

lemma nth_crc32tab: "i < 256 \<Longrightarrow> crc32tab ! i = crc32_byte (of_nat i)"
  unfolding crc32tab_eq by (subst nth_map) (simp_all del: upt_Suc)

lemma byte_index: "unat (take_bit 8 x) < 256" for x :: "'a::len word"
  unfolding unsigned_take_bit_eq using take_bit_nat_less_exp [of 8 "unat x"] by simp

lemma crc32_table_step: "crc32_byte x = drop_bit 8 x XOR crc32tab ! unat (x AND 0xff)"
proof -
  have "x = push_bit 8 (drop_bit 8 x) XOR take_bit 8 x" by (rule bit_word_eqI) (auto simp: bit_simps)
  then have "crc32_byte x = crc32_byte (push_bit 8 (drop_bit 8 x)) XOR crc32_byte (take_bit 8 x)"
    by (metis crc32_byte_xor)
  then show ?thesis by (simp only: crc32_byte_shift and_byte nth_crc32tab [OF byte_index]) simp
qed

section \<open>CRC-16\<close>

lemma crc16_bit_alt: "crc16_bit x = push_bit 1 x XOR (if bit x 15 then 0x1021 else 0)"
  by (simp add: crc16_bit_def)

lemma crc16_bit_xor: "crc16_bit (x XOR y) = crc16_bit x XOR crc16_bit y"
  by (auto simp: crc16_bit_alt bit_xor_iff xor.assoc xor.left_commute xor.commute)

lemma crc16_byte_xor: "crc16_byte (x XOR y) = crc16_byte x XOR crc16_byte y"
proof -
  have "(crc16_bit ^^ n) (x XOR y) = (crc16_bit ^^ n) x XOR (crc16_bit ^^ n) y" for n
    by (induction n) (simp_all add: crc16_bit_xor)
  then show ?thesis by (simp add: crc16_byte_def)
qed

lemma crc16_byte_shift: "crc16_byte (take_bit 8 x) = push_bit 8 x"
proof -
  have "(crc16_bit ^^ n) (take_bit 8 x) = push_bit n (take_bit 8 x)" if "n \<le> 8" for n
    using that
  proof (induction n)
    case (Suc n)
    have "\<not> bit (push_bit n (take_bit 8 x)) 15" using Suc.prems by (auto simp: bit_simps)
    moreover have "push_bit 1 (push_bit n (take_bit 8 x)) = push_bit (Suc n) (take_bit 8 x)"
      by (simp only: push_bit_push_bit) simp
    ultimately show ?case using Suc by (simp add: crc16_bit_alt del: push_bit_Suc)
  qed simp
  then have "crc16_byte (take_bit 8 x) = push_bit 8 (take_bit 8 x)" by (simp add: crc16_byte_def)
  also have "\<dots> = push_bit 8 x"
    by (rule bit_word_eqI) (auto simp: bit_simps)
  finally show ?thesis .
qed

lemma nth_crc16tab: "i < 256 \<Longrightarrow> crc16tab ! i = crc16_byte (push_bit 8 (of_nat i))"
  unfolding crc16tab_eq by (subst nth_map) (simp_all del: upt_Suc)

lemma crc16_table_step: "crc16_byte x = push_bit 8 x XOR crc16tab ! unat (drop_bit 8 x)"
proof -
  have "x = take_bit 8 x XOR push_bit 8 (drop_bit 8 x)"
    by (rule bit_word_eqI) (auto simp: bit_simps)
  then have "crc16_byte x = crc16_byte (take_bit 8 x) XOR crc16_byte (push_bit 8 (drop_bit 8 x))"
    by (metis crc16_byte_xor)
  moreover have "unat (drop_bit 8 x) < 256"
    using unat_u16 [of x] by (simp add: drop_bit_eq_div unat_div)
  ultimately show ?thesis by (simp add: crc16_byte_shift nth_crc16tab)
qed

text \<open>The low half of the 32-bit accumulator is the CRC.\<close>

lemma crc16_acc_step:
  "(ucast (push_bit 8 a XOR ucast (crc16tab ! unat ((drop_bit 8 a XOR scast (c :: u8)) AND 0xff)) :: u32) :: u16) =
   crc16_byte (ucast a XOR push_bit 8 (ucast c))"
proof -
  let ?x = "ucast (a :: u32) XOR push_bit 8 (ucast c) :: u16"
  have i: "unat ((drop_bit 8 a XOR scast c) AND 0xff) = unat (drop_bit 8 ?x)"
  proof -
    have "ucast (take_bit 8 (drop_bit 8 a XOR scast c) :: u32) = drop_bit 8 ?x"
    proof (rule bit_word_eqI)
      fix n assume "n < LENGTH(16)"
      then show "bit (ucast (take_bit 8 (drop_bit 8 a XOR scast c) :: u32) :: u16) n = bit (drop_bit 8 ?x) n"
        by (cases "n = 7") (auto simp: bit_simps min_def dest: bit_imp_le_length)
    qed
    moreover have "unat (ucast (take_bit 8 (drop_bit 8 a XOR scast c) :: u32) :: u16) =
        unat (take_bit 8 (drop_bit 8 a XOR scast c) :: u32)"
      using byte_index [of "drop_bit 8 a XOR scast c"] by (intro unat_ucast_down) simp
    ultimately show ?thesis by (simp only: and_byte)
  qed
  have "(ucast (push_bit 8 a :: u32) :: u16) = push_bit 8 ?x"
    by (rule bit_word_eqI) (auto simp: bit_simps)
  moreover have "(ucast (u XOR ucast v :: u32) :: u16) = ucast u XOR v" for u :: u32 and v :: u16
    by (rule bit_word_eqI) (auto simp: bit_simps)
  ultimately show ?thesis unfolding i by (simp add: crc16_table_step [of ?x])
qed

section \<open>Checksums of whole keys\<close>

lemma crc32_index: "(ucast (crc :: u32) XOR (scast (c :: u8) :: u64)) AND 0xff = ucast ((crc XOR ucast c) AND 0xff)"
proof -
  have "take_bit 8 (ucast crc XOR (scast c :: u64)) = ucast (take_bit 8 (crc XOR ucast c))"
  proof (rule bit_word_eqI)
    fix n assume "n < LENGTH(64)"
    then show "bit (take_bit 8 (ucast crc XOR (scast c :: u64))) n = bit (ucast (take_bit 8 (crc XOR ucast c)) :: u64) n"
      by (cases "n = 7") (auto simp: bit_simps min_def dest: bit_imp_le_length)
  qed
  then show ?thesis by (simp only: and_byte)
qed

lemma xor_byte_high: "drop_bit 8 (crc XOR ucast (c :: u8)) = drop_bit 8 (crc :: u32)"
  by (rule bit_word_eqI) (auto simp: bit_simps dest: bit_imp_le_length)

lemma crc32_fold:
  "fold (\<lambda>c crc. crc32tab ! unat ((crc XOR ucast c) AND 0xff) XOR drop_bit 8 crc) (key :: bytes) a =
   fold (\<lambda>c crc. crc32_byte (crc XOR ucast c)) key a"
proof (induction key arbitrary: a)
  case (Cons c key)
  have "crc32_byte (a XOR ucast c) = drop_bit 8 a XOR crc32tab ! unat ((a XOR ucast c) AND 0xff)"
    by (simp only: crc32_table_step xor_byte_high)
  then have "crc32tab ! unat ((a XOR ucast c) AND 0xff) XOR drop_bit 8 a = crc32_byte (a XOR ucast c)"
    by (simp only: xor.commute [of "drop_bit 8 a"])
  with Cons show ?case by simp
qed simp

text \<open>
  (C28) The table-driven CRC-32 \<^verbatim>\<open>c_hash_crc32a\<close> is, for every key, the bit-by-bit division by the
  CRC-32 polynomial.
\<close>

theorem crc32a_is_crc32: "c_hash_crc32a key = crc32_ref key"
  by (simp add: c_hash_crc32a_def crc32_ref_def crc32_fold not_eq_complement)

text \<open>
  \<^verbatim>\<open>c_hash_crc32\<close> is bits 16 to 30 of the CRC-32 of the key; in particular it is below
  \<open>2^15\<close>. That it reads the key through a signed \<^verbatim>\<open>char\<close> makes no difference.
\<close>

theorem crc32_is_middle_bits:
  "c_hash_crc32 key = take_bit 15 (drop_bit 16 (crc32_ref key)) \<and> c_hash_crc32 key < 2 ^ 15"
proof -
  have "fold (\<lambda>c crc. drop_bit 8 crc XOR crc32tab ! unat ((ucast crc XOR (scast c :: u64)) AND 0xff)) key a =
      fold (\<lambda>c crc. crc32_byte (crc XOR ucast c)) key a" for a
  proof -
    have "(\<lambda>(c :: u8) crc. drop_bit 8 crc XOR crc32tab ! unat ((ucast crc XOR (scast c :: u64)) AND 0xff)) =
        (\<lambda>c crc. crc32tab ! unat ((crc XOR ucast c) AND 0xff) XOR drop_bit 8 crc)"
      by (intro ext) (simp only: crc32_index unat_ucast_widths(6), rule xor.commute)
    then show ?thesis using crc32_fold [of key a] by simp
  qed
  moreover have "x AND 0x7fff = take_bit 15 x" for x :: u32
    using take_bit_eq_mask [of 15 x] by (simp add: mask_eq_exp_minus_1)
  moreover have "(0xffffffff :: u32) = NOT 0" by simp
  ultimately have eq: "c_hash_crc32 key = take_bit 15 (drop_bit 16 (crc32_ref key))"
    by (simp only: c_hash_crc32_def crc32_ref_def)
  have "unat (take_bit 15 x) < 2 ^ 15" for x :: u32
    unfolding unsigned_take_bit_eq by (rule take_bit_nat_less_exp)
  then show ?thesis unfolding eq by (simp add: word_less_nat_alt)
qed

text \<open>
  The low 16 bits of \<^verbatim>\<open>c_hash_crc16\<close>, which never masks its 32-bit accumulator, are the
  CRC-16 of the key with polynomial \<open>0x1021\<close> and initial value 0.
\<close>

theorem crc16_low_half: "ucast (c_hash_crc16 key) = crc16_ref key"
proof -
  have "(ucast (fold (\<lambda>c crc. push_bit 8 crc XOR
        ucast (crc16tab ! unat ((drop_bit 8 crc XOR scast c) AND 0xff))) key a) :: u16) =
      fold (\<lambda>c crc. crc16_byte (crc XOR push_bit 8 (ucast c))) key (ucast (a :: u32))" for a
  proof (induction key arbitrary: a)
    case (Cons c key)
    then show ?case by (simp only: fold_simps crc16_acc_step)
  qed simp
  then show ?thesis by (simp add: c_hash_crc16_def crc16_ref_def)
qed

section \<open>FNV\<close>

lemma ucast_xor: "(ucast (a XOR b :: u64) :: u32) = ucast a XOR ucast b"
  by (rule bit_word_eqI) (auto simp: bit_simps)

lemma ucast_scast: "(ucast (scast (c :: u8) :: u64) :: u32) = scast c"
  by (rule bit_word_eqI) (auto simp: bit_simps min_def)

lemma fnv1a_64_low:
  "c_hash_fnv1a_64 key = ucast (fold (\<lambda>c h. (h XOR scast c) * FNV_64_PRIME) key FNV_64_INIT)"
proof -
  have "fold (\<lambda>c h. (h XOR scast c) * ucast FNV_64_PRIME) key (ucast a :: u32) =
      ucast (fold (\<lambda>c h. (h XOR scast c) * FNV_64_PRIME) key a)" for a :: u64
  proof (induction key arbitrary: a)
    case (Cons c key)
    then show ?case
      by (simp add: ucast_down_times ucast_xor ucast_scast flip: Cons.IH)
  qed simp
  then show ?thesis by (simp add: c_hash_fnv1a_64_def)
qed

text \<open>
  \<^verbatim>\<open>c_hash_fnv1a_64\<close> computes on 32 bits with the truncated constants; its result is the low
  half of the 64-bit computation with the full constants.
\<close>

theorem fnv1a_64_truncated:
  "c_hash_fnv1a_64 key = ucast (fold (\<lambda>c h. (h XOR scast c) * FNV_64_PRIME) key FNV_64_INIT)"
  by (rule fnv1a_64_low)

lemma ascii_char: "c < 128 \<Longrightarrow> (scast (c :: u8) :: 'a::len word) = ucast c"
proof -
  assume "c < 128"
  then have "unat c < 2 ^ (LENGTH(8) - 1)" by (simp add: word_less_nat_alt)
  then have "sint c = int (unat c)" by (rule sint_nonneg_unat)
  then show ?thesis unfolding scast_eq ucast_eq by (simp only: uint_nat)
qed

text \<open>
  For ASCII keys the four FNV functions are the published ones: FNV-1 and FNV-1a with 32
  bits, and the low half of those with 64 bits.
\<close>

theorem fnv_ascii:
  assumes "ascii key"
  shows "c_hash_fnv1_32 key = fnv1 FNV_32_INIT FNV_32_PRIME key \<and>
    c_hash_fnv1a_32 key = fnv1a FNV_32_INIT FNV_32_PRIME key \<and>
    c_hash_fnv1_64 key = ucast (fnv1 FNV_64_INIT FNV_64_PRIME key) \<and>
    c_hash_fnv1a_64 key = ucast (fnv1a FNV_64_INIT FNV_64_PRIME key)"
proof -
  have c: "c \<in> set key \<Longrightarrow> c < 128" for c using assms by (simp add: ascii_def)
  have f1: "fold (\<lambda>c h. (h * p) XOR scast c) key i = fnv1 i p key" for i p :: "'a::len word"
    unfolding fnv1_def by (intro fold_cong refl ext) (simp add: ascii_char c)
  have f1a: "fold (\<lambda>c h. (h XOR scast c) * p) key i = fnv1a i p key" for i p :: "'a::len word"
    unfolding fnv1a_def by (intro fold_cong refl ext) (simp add: ascii_char c)
  have "c_hash_fnv1_32 key = fnv1 FNV_32_INIT FNV_32_PRIME key"
    by (simp add: c_hash_fnv1_32_def f1)
  moreover have "c_hash_fnv1a_32 key = fnv1a FNV_32_INIT FNV_32_PRIME key"
    by (simp add: c_hash_fnv1a_32_def f1a)
  moreover have "c_hash_fnv1_64 key = ucast (fnv1 FNV_64_INIT FNV_64_PRIME key)"
    by (simp add: c_hash_fnv1_64_def f1)
  moreover have "c_hash_fnv1a_64 key = ucast (fnv1a FNV_64_INIT FNV_64_PRIME key)"
    by (simp add: fnv1a_64_low f1a)
  ultimately show ?thesis by simp
qed

theorem fnv_ascii_witness:
  "c_hash_fnv1_32 [97] = fnv1 FNV_32_INIT FNV_32_PRIME [97] \<and>
   c_hash_fnv1a_32 [97] = fnv1a FNV_32_INIT FNV_32_PRIME [97] \<and>
   c_hash_fnv1_64 [97] = ucast (fnv1 FNV_64_INIT FNV_64_PRIME [97]) \<and>
   c_hash_fnv1a_64 [97] = ucast (fnv1a FNV_64_INIT FNV_64_PRIME [97])"
proof -
  have "ascii [97]" by (simp add: ascii_def)
  then show ?thesis by (rule fnv_ascii)
qed

text \<open>
  For a byte of 128 or more the functions differ from the published ones: the byte is
  sign-extended, and the FNV-1a hash of the single octet 255 comes out wrong.
\<close>

theorem fnv_high_byte_differs:
  "c_hash_fnv1a_32 [255] \<noteq> fnv1a FNV_32_INIT FNV_32_PRIME [255]"
  by (simp add: c_hash_fnv1a_32_def fnv1a_def FNV_32_INIT_def FNV_32_PRIME_def)

end
