(* ===== verification/Jenkins.thy ===== *)
theory Jenkins
  imports Prelude
begin

text \<open>
  Model of \<^verbatim>\<open>c_hash_jenkins\<close> of \<^verbatim>\<open>base/c_hash.c\<close> (Jenkins' lookup3): three copies of the same
  algorithm, chosen by the alignment of the key, that read it by words, half-words or bytes.
  The memory from the key on is a function from offsets to bytes: the copy for aligned keys
  reads the whole last word and so may read up to three bytes after the key.
\<close>

section \<open>Loads, rotations and the mixing macros\<close>

type_synonym mem = "nat \<Rightarrow> u8"

definition ld16 :: "mem \<Rightarrow> nat \<Rightarrow> u16" where
  "ld16 m i = ucast (m i) + push_bit 8 (ucast (m (i + 1)))"

definition ld32 :: "mem \<Rightarrow> nat \<Rightarrow> u32" where
  "ld32 m i = ucast (m i) + push_bit 8 (ucast (m (i + 1))) + push_bit 16 (ucast (m (i + 2)))
     + push_bit 24 (ucast (m (i + 3)))"

definition rot :: "u32 \<Rightarrow> nat \<Rightarrow> u32" where
  "rot x k = push_bit k x OR drop_bit (32 - k) x"

definition mix :: "u32 \<times> u32 \<times> u32 \<Rightarrow> u32 \<times> u32 \<times> u32" where
  "mix s = (let (a, b, c) = s;
      a = a - c; a = a XOR rot c 4; c = c + b;
      b = b - a; b = b XOR rot a 6; a = a + c;
      c = c - b; c = c XOR rot b 8; b = b + a;
      a = a - c; a = a XOR rot c 16; c = c + b;
      b = b - a; b = b XOR rot a 19; a = a + c;
      c = c - b; c = c XOR rot b 4; b = b + a
    in (a, b, c))"

definition final :: "u32 \<times> u32 \<times> u32 \<Rightarrow> u32" where
  "final s = (let (a, b, c) = s;
      c = c XOR b; c = c - rot b 14;
      a = a XOR c; a = a - rot c 11;
      b = b XOR a; b = b - rot a 25;
      c = c XOR b; c = c - rot b 16;
      a = a XOR c; a = a - rot c 4;
      b = b XOR a; b = b - rot a 14;
      c = c XOR b; c = c - rot b 24
    in c)"

section \<open>The three copies\<close>

text \<open>The \<^verbatim>\<open>switch\<close> statements: \<open>None\<close> where the code returns \<^verbatim>\<open>c\<close> without the final mixing.\<close>

definition tail_words :: "mem \<Rightarrow> nat \<Rightarrow> nat \<Rightarrow> u32 \<times> u32 \<times> u32 \<Rightarrow> (u32 \<times> u32 \<times> u32) option" where
  "tail_words m k len s = (let (a, b, c) = s; k0 = ld32 m k; k1 = ld32 m (k + 4); k2 = ld32 m (k + 8) in
     if len = 12 then Some (a + k0, b + k1, c + k2)
     else if len = 11 then Some (a + k0, b + k1, c + (k2 AND 0xffffff))
     else if len = 10 then Some (a + k0, b + k1, c + (k2 AND 0xffff))
     else if len = 9 then Some (a + k0, b + k1, c + (k2 AND 0xff))
     else if len = 8 then Some (a + k0, b + k1, c)
     else if len = 7 then Some (a + k0, b + (k1 AND 0xffffff), c)
     else if len = 6 then Some (a + k0, b + (k1 AND 0xffff), c)
     else if len = 5 then Some (a + k0, b + (k1 AND 0xff), c)
     else if len = 4 then Some (a + k0, b, c)
     else if len = 3 then Some (a + (k0 AND 0xffffff), b, c)
     else if len = 2 then Some (a + (k0 AND 0xffff), b, c)
     else if len = 1 then Some (a + (k0 AND 0xff), b, c)
     else None)"

fun jenkins_words :: "mem \<Rightarrow> nat \<Rightarrow> nat \<Rightarrow> u32 \<times> u32 \<times> u32 \<Rightarrow> u32" where
  "jenkins_words m k len (a, b, c) =
     (if len > 12
      then jenkins_words m (k + 12) (len - 12) (mix (a + ld32 m k, b + ld32 m (k + 4), c + ld32 m (k + 8)))
      else case tail_words m k len (a, b, c) of None \<Rightarrow> c | Some s \<Rightarrow> final s)"

text \<open>\<^verbatim>\<open>k[0] + (((uint32_t)k[1]) << 16)\<close> on half-words.\<close>

definition hw :: "mem \<Rightarrow> nat \<Rightarrow> u32" where
  "hw m i = ucast (ld16 m i) + push_bit 16 (ucast (ld16 m (i + 2)))"

definition tail_halves :: "mem \<Rightarrow> nat \<Rightarrow> nat \<Rightarrow> u32 \<times> u32 \<times> u32 \<Rightarrow> (u32 \<times> u32 \<times> u32) option" where
  "tail_halves m k len s = (let (a, b, c) = s in
     if len = 12 then Some (a + hw m k, b + hw m (k + 4), c + hw m (k + 8))
     else if len = 11 then Some (a + hw m k, b + hw m (k + 4),
       c + push_bit 16 (ucast (m (k + 10))) + ucast (ld16 m (k + 8)))
     else if len = 10 then Some (a + hw m k, b + hw m (k + 4), c + ucast (ld16 m (k + 8)))
     else if len = 9 then Some (a + hw m k, b + hw m (k + 4), c + ucast (m (k + 8)))
     else if len = 8 then Some (a + hw m k, b + hw m (k + 4), c)
     else if len = 7 then Some (a + hw m k, b + push_bit 16 (ucast (m (k + 6))) + ucast (ld16 m (k + 4)), c)
     else if len = 6 then Some (a + hw m k, b + ucast (ld16 m (k + 4)), c)
     else if len = 5 then Some (a + hw m k, b + ucast (m (k + 4)), c)
     else if len = 4 then Some (a + hw m k, b, c)
     else if len = 3 then Some (a + push_bit 16 (ucast (m (k + 2))) + ucast (ld16 m k), b, c)
     else if len = 2 then Some (a + ucast (ld16 m k), b, c)
     else if len = 1 then Some (a + ucast (m k), b, c)
     else None)"

fun jenkins_halves :: "mem \<Rightarrow> nat \<Rightarrow> nat \<Rightarrow> u32 \<times> u32 \<times> u32 \<Rightarrow> u32" where
  "jenkins_halves m k len (a, b, c) =
     (if len > 12
      then jenkins_halves m (k + 12) (len - 12) (mix (a + hw m k, b + hw m (k + 4), c + hw m (k + 8)))
      else case tail_halves m k len (a, b, c) of None \<Rightarrow> c | Some s \<Rightarrow> final s)"

text \<open>Every case of the last \<^verbatim>\<open>switch\<close> falls through to the smaller ones.\<close>

definition tail_bytes :: "mem \<Rightarrow> nat \<Rightarrow> nat \<Rightarrow> u32 \<times> u32 \<times> u32 \<Rightarrow> (u32 \<times> u32 \<times> u32) option" where
  "tail_bytes m k len s = (let (a, b, c) = s;
     at = (\<lambda>i. if i < len then ucast (m (k + i)) else 0) in
     if len = 0 \<or> len > 12 then None
     else Some (
       a + push_bit 24 (at 3) + push_bit 16 (at 2) + push_bit 8 (at 1) + at 0,
       b + push_bit 24 (at 7) + push_bit 16 (at 6) + push_bit 8 (at 5) + at 4,
       c + push_bit 24 (at 11) + push_bit 16 (at 10) + push_bit 8 (at 9) + at 8))"

definition by8 :: "mem \<Rightarrow> nat \<Rightarrow> u32 \<Rightarrow> u32" where
  "by8 m i x = x + ucast (m i) + push_bit 8 (ucast (m (i + 1))) + push_bit 16 (ucast (m (i + 2)))
     + push_bit 24 (ucast (m (i + 3)))"

fun jenkins_bytes :: "mem \<Rightarrow> nat \<Rightarrow> nat \<Rightarrow> u32 \<times> u32 \<times> u32 \<Rightarrow> u32" where
  "jenkins_bytes m k len (a, b, c) =
     (if len > 12
      then jenkins_bytes m (k + 12) (len - 12) (mix (by8 m k a, by8 m (k + 4) b, by8 m (k + 8) c))
      else case tail_bytes m k len (a, b, c) of None \<Rightarrow> c | Some s \<Rightarrow> final s)"

definition JENKINS_INITVAL :: u32 where
  "JENKINS_INITVAL = 13"

text \<open>\<^verbatim>\<open>c_hash_jenkins\<close> for a key at address \<open>addr\<close> of \<open>len\<close> bytes.\<close>

definition c_hash_jenkins :: "u64 \<Rightarrow> mem \<Rightarrow> nat \<Rightarrow> u32" where
  "c_hash_jenkins address m len =
     (let i = 0xdeadbeef + of_nat len + JENKINS_INITVAL in
      if address AND 3 = 0 then jenkins_words m 0 len (i, i, i)
      else if address AND 1 = 0 then jenkins_halves m 0 len (i, i, i)
      else jenkins_bytes m 0 len (i, i, i))"

declare jenkins_words.simps [simp del] jenkins_halves.simps [simp del] jenkins_bytes.simps [simp del]

section \<open>Loads of different widths\<close>

lemma unat_push_byte: "n \<le> 24 \<Longrightarrow> unat (push_bit n (ucast (x :: u8)) :: u32) = unat x * 2 ^ n"
proof -
  assume n: "n \<le> 24"
  have "unat x * 2 ^ n < 2 ^ 8 * 2 ^ 24"
    using unat_u8 [of x] n by (intro mult_less_le_imp_less power_increasing) simp_all
  moreover have "unat (2 ^ n :: u32) = 2 ^ n" using n by (intro unat_2p) simp
  ultimately show ?thesis unfolding push_bit_eq_mult by (subst unat_mult_nowrap) simp_all
qed

lemma ld16_wide: "(ucast (ld16 m i) :: u32) = ucast (m i) + push_bit 8 (ucast (m (i + 1)))"
proof -
  have "unat (push_bit 8 (ucast (m (i + 1))) :: u16) = unat (m (i + 1)) * 256"
    using unat_u8 [of "m (i + 1)"] unfolding push_bit_eq_mult by (subst unat_mult_nowrap) simp_all
  then have "unat (ld16 m i) = unat (m i) + unat (m (i + 1)) * 256"
    unfolding ld16_def using unat_u8 [of "m i"] unat_u8 [of "m (i + 1)"]
    by (subst unat_add_nowrap) simp_all
  moreover have "unat (ucast (m i) + push_bit 8 (ucast (m (i + 1))) :: u32) = unat (m i) + unat (m (i + 1)) * 256"
    using unat_u8 [of "m i"] unat_u8 [of "m (i + 1)"] unat_push_byte [of 8 "m (i + 1)"]
    by (subst unat_add_nowrap) simp_all
  ultimately show ?thesis by (simp add: word_unat_eq_iff)
qed

lemma hw_eq: "hw m i = ld32 m i"
proof -
  have "push_bit 16 (x + y) = push_bit 16 x + push_bit 16 y" for x y :: u32
    by (simp add: push_bit_eq_mult algebra_simps)
  then show ?thesis by (simp add: hw_def ld16_wide ld32_def push_bit_push_bit add.assoc numeral_eq_Suc)
qed

lemma by8_eq: "by8 m i x = x + ld32 m i"
  by (simp add: by8_def ld32_def add.assoc)

lemma take_bit_low: "n \<le> 32 \<Longrightarrow> unat s < 2 ^ n \<Longrightarrow> take_bit n (s + push_bit n z) = s" for s z :: u32
proof -
  assume n: "n \<le> 32" and s: "unat s < 2 ^ n"
  have dvd: "(2 :: nat) ^ n dvd 2 ^ 32" using n by (rule le_imp_power_dvd)
  have "unat (push_bit n z) mod 2 ^ n = 0"
  proof -
    have "2 ^ n dvd unat z * 2 ^ n mod 2 ^ 32" using dvd by (intro dvd_mod) simp_all
    then show ?thesis
      unfolding unsigned_push_bit_eq by (simp add: push_bit_eq_mult take_bit_eq_mod mod_eq_0_iff_dvd)
  qed
  moreover have "unat (s + push_bit n z) mod 2 ^ n = (unat s + unat (push_bit n z)) mod 2 ^ n"
    using dvd by (simp add: unat_word_ariths mod_mod_cancel)
  ultimately have "unat (s + push_bit n z) mod 2 ^ n = unat s"
    using s by (metis add.right_neutral mod_add_right_eq mod_less)
  then show ?thesis unfolding word_unat_eq_iff unsigned_take_bit_eq by (simp add: take_bit_eq_mod)
qed

lemma ld32_masks:
  "ld32 m i AND 0xffffff = ucast (m i) + push_bit 8 (ucast (m (i + 1))) + push_bit 16 (ucast (m (i + 2)))"
  "ld32 m i AND 0xffff = ucast (m i) + push_bit 8 (ucast (m (i + 1)))"
  "ld32 m i AND 0xff = ucast (m i)"
proof -
  note b = unat_u8 [of "m i"] unat_u8 [of "m (i + 1)"] unat_u8 [of "m (i + 2)"]
  let ?b0 = "ucast (m i) :: u32" and ?b1 = "push_bit 8 (ucast (m (i + 1))) :: u32"
    and ?b2 = "push_bit 16 (ucast (m (i + 2))) :: u32"
  have u1: "unat (?b0 + ?b1) = unat (m i) + unat (m (i + 1)) * 256"
    using b unat_push_byte [of 8 "m (i + 1)"] by (subst unat_add_nowrap) simp_all
  have u2: "unat (?b0 + ?b1 + ?b2) = unat (m i) + unat (m (i + 1)) * 256 + unat (m (i + 2)) * 65536"
    using b u1 unat_push_byte [of 16 "m (i + 2)"] by (subst unat_add_nowrap) simp_all
  have "take_bit 24 (ld32 m i) = ?b0 + ?b1 + ?b2"
    unfolding ld32_def using b u2 by (intro take_bit_low) simp_all
  moreover have "take_bit 16 (ld32 m i) = ?b0 + ?b1"
  proof -
    have "ld32 m i = ?b0 + ?b1 + push_bit 16 (ucast (m (i + 2)) + push_bit 8 (ucast (m (i + 3))))"
      by (simp add: ld32_def push_bit_eq_mult algebra_simps)
    then show ?thesis using b u1 by (simp only:) (intro take_bit_low, simp_all)
  qed
  moreover have "take_bit 8 (ld32 m i) = ?b0"
  proof -
    have "ld32 m i = ?b0 + push_bit 8 (ucast (m (i + 1)) + push_bit 8 (ucast (m (i + 2))) + push_bit 16 (ucast (m (i + 3))))"
      by (simp add: ld32_def push_bit_eq_mult algebra_simps)
    then show ?thesis using b by (simp only:) (intro take_bit_low, simp_all)
  qed
  moreover have "x AND 0xffffff = take_bit 24 x" "x AND 0xffff = take_bit 16 x" "x AND 0xff = take_bit 8 x" for x :: u32
    using take_bit_eq_mask [of 24 x] take_bit_eq_mask [of 16 x] take_bit_eq_mask [of 8 x]
    by (simp_all add: mask_eq_exp_minus_1)
  ultimately show "ld32 m i AND 0xffffff = ?b0 + ?b1 + ?b2" "ld32 m i AND 0xffff = ?b0 + ?b1" "ld32 m i AND 0xff = ?b0"
    by simp_all
qed

lemma tail_cases:
  assumes "(len :: nat) \<le> 12"
  obtains "len = 0" | "len = 1" | "len = 2" | "len = 3" | "len = 4" | "len = 5" | "len = 6" | "len = 7"
    | "len = 8" | "len = 9" | "len = 10" | "len = 11" | "len = 12"
  using assms by (auto simp: numeral_eq_Suc le_Suc_eq)

lemma tail_words_bytes:
  assumes "len \<le> 12"
  shows "tail_words m k len s = tail_bytes m k len s"
proof -
  obtain a b c where s: "s = (a, b, c)" by (cases s)
  show ?thesis using assms
    by (cases rule: tail_cases) (simp_all add: s tail_words_def tail_bytes_def ld32_masks add.assoc,
      simp_all add: ld32_def add.assoc add.left_commute add.commute)
qed

lemma tail_halves_bytes:
  assumes "len \<le> 12"
  shows "tail_halves m k len s = tail_bytes m k len s"
proof -
  obtain a b c where s: "s = (a, b, c)" by (cases s)
  show ?thesis using assms
    by (cases rule: tail_cases) (simp_all add: s tail_halves_def tail_bytes_def hw_eq ld16_wide add.assoc,
      simp_all add: ld32_def add.assoc add.left_commute add.commute)
qed

lemma words_bytes: "jenkins_words m k len s = jenkins_bytes m k len s"
proof (induction len arbitrary: k s rule: less_induct)
  case (less len)
  obtain a b c where s: "s = (a, b, c)" by (cases s)
  show ?case
    by (cases "len > 12")
      (simp_all add: s jenkins_words.simps [of m k len] jenkins_bytes.simps [of m k len] by8_eq less
        tail_words_bytes)
qed

lemma halves_bytes: "jenkins_halves m k len s = jenkins_bytes m k len s"
proof (induction len arbitrary: k s rule: less_induct)
  case (less len)
  obtain a b c where s: "s = (a, b, c)" by (cases s)
  show ?case
    by (cases "len > 12")
      (simp_all add: s jenkins_halves.simps [of m k len] jenkins_bytes.simps [of m k len] by8_eq hw_eq less
        tail_halves_bytes)
qed

lemma bytes_local:
  assumes "\<forall>i < k + len. m i = m' i"
  shows "jenkins_bytes m k len s = jenkins_bytes m' k len s"
  using assms
proof (induction len arbitrary: k s rule: less_induct)
  case (less len)
  obtain a b c where s: "s = (a, b, c)" by (cases s)
  show ?case
  proof (cases "len > 12")
    case True
    then have "by8 m (k + j) x = by8 m' (k + j) x" if "j \<le> 8" for j x
      using less.prems that by (simp add: by8_def)
    from this [of 0] this [of 4] this [of 8] True less show ?thesis
      by (simp add: s jenkins_bytes.simps [of _ k len])
  next
    case False
    have "(\<lambda>i. if i < len then ucast (m (k + i)) else 0) = (\<lambda>i. if i < len then (ucast (m' (k + i)) :: u32) else 0)"
      using less.prems by auto
    then have "tail_bytes m k len s = tail_bytes m' k len s" by (simp only: tail_bytes_def)
    then show ?thesis using False by (simp add: s jenkins_bytes.simps [of _ k len])
  qed
qed

section \<open>One function\<close>

text \<open>
  (C23) \<^verbatim>\<open>c_hash_jenkins\<close> gives the same hash whatever the alignment of the key, and the hash depends
  on the bytes of the key only: the bytes after it, which the copy for aligned keys reads, are
  masked out.
\<close>

theorem jenkins_alignment:
  assumes "\<forall>i < len. m i = m' i"
  shows "c_hash_jenkins address m len = c_hash_jenkins address' m' len"
  using bytes_local [of 0 len m m'] assms
  by (simp add: c_hash_jenkins_def Let_def words_bytes halves_bytes)

theorem jenkins_alignment_witness:
  "c_hash_jenkins 0 (\<lambda>i. if i = 0 then 97 else 7) 1 = c_hash_jenkins 3 (\<lambda>i. if i = 0 then 97 else 0) 1"
  by (rule jenkins_alignment) simp

end
