(* ===== verification/Mixers.thy ===== *)
theory Mixers
  imports Prelude Complex_Main "HOL-Library.Log_Nat"
begin

text \<open>
  Model of the remaining hash functions of \<^verbatim>\<open>base/c_hash.c\<close>: Hsieh's hash and its copy
  \<^verbatim>\<open>c_hash_super_fast\<close>, MurmurHash2, the GFS hash, MurmurHash3 and jump consistent hashing. A
  loop that consumes a key by blocks is a recursion on the rest of the key, whose length is
  the counter of the C loop.
\<close>

section \<open>Hsieh's hash\<close>

definition get16bits :: "u8 \<Rightarrow> u8 \<Rightarrow> u32" where
  "get16bits d0 d1 = push_bit 8 (ucast d1) + ucast d0"

fun hsieh_loop :: "bytes \<Rightarrow> u32 \<Rightarrow> u32 \<times> bytes" where
  "hsieh_loop (k0 # k1 # k2 # k3 # key) hash =
     (let hash = hash + get16bits k0 k1;
          tmp = push_bit 11 (get16bits k2 k3) XOR hash;
          hash = push_bit 16 hash XOR tmp
      in hsieh_loop key (hash + drop_bit 11 hash))"
| "hsieh_loop key hash = (hash, key)"

definition hsieh_tail32 :: "bytes \<Rightarrow> u32 \<Rightarrow> u32" where
  "hsieh_tail32 key hash = (case key of
     [k0, k1, k2] \<Rightarrow>
       (let hash = hash + get16bits k0 k1;
            hash = hash XOR push_bit 16 hash;
            hash = hash XOR push_bit 18 (scast k2)
        in hash + drop_bit 11 hash)
   | [k0, k1] \<Rightarrow>
       (let hash = hash + get16bits k0 k1;
            hash = hash XOR push_bit 11 hash
        in hash + drop_bit 17 hash)
   | _ \<Rightarrow> hash)"

definition hsieh_end :: "u32 \<Rightarrow> u32" where
  "hsieh_end h = (let h = h XOR push_bit 3 h; h = h + drop_bit 5 h;
      h = h XOR push_bit 4 h; h = h + drop_bit 17 h;
      h = h XOR push_bit 25 h
    in h + drop_bit 6 h)"

definition tail1 :: "u32 \<Rightarrow> u32 \<Rightarrow> u32" where
  "tail1 c hash = (let hash = hash + c; hash = hash XOR push_bit 10 hash in hash + drop_bit 1 hash)"

definition c_hash_hsieh :: "bytes \<Rightarrow> u32" where
  "c_hash_hsieh key =
     (if key = [] then 0
      else let (hash, rest) = hsieh_loop key 0 in
        hsieh_end (case rest of [k0] \<Rightarrow> tail1 (ucast k0) hash | _ \<Rightarrow> hsieh_tail32 rest hash))"

text \<open>\<^verbatim>\<open>c_hash_super_fast\<close>: the last byte of a key of length 1 modulo 4 is sign-extended.\<close>

definition c_hash_super_fast :: "bytes \<Rightarrow> u32" where
  "c_hash_super_fast data =
     (if length data \<le> 1 then 1
      else let (hash, rest) = hsieh_loop data (of_nat (length data)) in
        hsieh_end (case rest of [k0] \<Rightarrow> tail1 (scast k0) hash | _ \<Rightarrow> hsieh_tail32 rest hash))"

section \<open>MurmurHash2\<close>

definition MURMUR_M :: u32 where
  "MURMUR_M = 0x5bd1e995"

fun murmur_loop :: "bytes \<Rightarrow> u32 \<Rightarrow> u32 \<times> bytes" where
  "murmur_loop (k0 # k1 # k2 # k3 # data) h =
     (let k = le32 [k0, k1, k2, k3] 0;
          k = k * MURMUR_M;
          k = k XOR drop_bit 24 k;
          k = k * MURMUR_M
      in murmur_loop data ((h * MURMUR_M) XOR k))"
| "murmur_loop data h = (h, data)"

definition murmur_tail :: "bytes \<Rightarrow> u32 \<Rightarrow> u32" where
  "murmur_tail data h =
     (let h = (if length data = 3 then h XOR push_bit 16 (ucast (data ! 2)) else h);
          h = (if length data \<ge> 2 then h XOR push_bit 8 (ucast (data ! 1)) else h)
      in if length data \<ge> 1 then (h XOR ucast (data ! 0)) * MURMUR_M else h)"

definition c_hash_murmur :: "bytes \<Rightarrow> u32" where
  "c_hash_murmur key =
     (let len = of_nat (length key); seed = 0xdeadbeef * len;
          (h, data) = murmur_loop key (seed XOR len);
          h = murmur_tail data h;
          h = h XOR drop_bit 13 h;
          h = h * MURMUR_M
      in h XOR drop_bit 15 h)"

section \<open>The GFS hash\<close>

definition pad_word :: "u32 \<Rightarrow> u32" where
  "pad_word len = (let pad = len OR push_bit 8 len in pad OR push_bit 16 pad)"

definition DM_DELTA :: u32 where
  "DM_DELTA = 0x9E3779B9"

text \<open>The \<^verbatim>\<open>do ... while (--n)\<close> loop, for \<open>n > 0\<close> rounds.\<close>

fun dm_loop :: "nat \<Rightarrow> u32 list \<Rightarrow> u32 \<Rightarrow> u32 \<times> u32 \<Rightarrow> u32 \<times> u32" where
  "dm_loop 0 array sm b = b"
| "dm_loop (Suc n) array sm (b0, b1) =
     (let sm = sm + DM_DELTA;
          b0 = b0 + ((push_bit 4 b1 + array ! 0) XOR (b1 + sm) XOR (drop_bit 5 b1 + array ! 1));
          b1 = b1 + ((push_bit 4 b0 + array ! 2) XOR (b0 + sm) XOR (drop_bit 5 b0 + array ! 3))
      in dm_loop n array sm (b0, b1))"

definition dm_round :: "nat \<Rightarrow> u32 list \<Rightarrow> u32 \<times> u32 \<Rightarrow> u32 \<times> u32" where
  "dm_round rounds array h =
     (let (b0, b1) = dm_loop rounds array 0 h in (fst h + b0, snd h + b1))"

fun gfs_quads :: "bytes \<Rightarrow> u32 \<times> u32 \<Rightarrow> (u32 \<times> u32) \<times> bytes" where
  "gfs_quads msg h =
     (if length msg < 16 then (h, msg)
      else gfs_quads (drop 16 msg)
             (dm_round 6 [le32 msg 0, le32 msg 4, le32 msg 8, le32 msg 12] h))"

declare gfs_quads.simps [simp del]

text \<open>The last array: the full words, then one word with the remaining bytes, then padding.\<close>

fun gfs_fill :: "nat \<Rightarrow> u32 \<Rightarrow> bytes \<Rightarrow> u32 list" where
  "gfs_fill 0 pad msg = []"
| "gfs_fill (Suc j) pad msg =
     (if length msg \<ge> 4 then le32 msg 0 # gfs_fill j pad (drop 4 msg)
      else fold (\<lambda>c a. push_bit 8 a OR scast c) msg pad # gfs_fill j pad [])"

definition c_hash_gfs :: "bytes \<Rightarrow> u64" where
  "c_hash_gfs msg =
     (let (h, rest) = gfs_quads msg (0x9464a485, 0x542e1a94);
          (h0, h1) = dm_round 10 (gfs_fill 4 (pad_word (of_nat (length msg))) rest) h
      in ucast (h0 XOR h1))"

section \<open>MurmurHash3\<close>

definition rotl64 :: "u64 \<Rightarrow> nat \<Rightarrow> u64" where
  "rotl64 x r = push_bit r x OR drop_bit (64 - r) x"

definition fmix64 :: "u64 \<Rightarrow> u64" where
  "fmix64 k = (let k = k XOR drop_bit 33 k; k = k * 0xff51afd7ed558ccd;
      k = k XOR drop_bit 33 k; k = k * 0xc4ceb9fe1a85ec53
    in k XOR drop_bit 33 k)"

definition MM3_C1 :: u64 where
  "MM3_C1 = 0x87c37b91114253d5"

definition MM3_C2 :: u64 where
  "MM3_C2 = 0x4cf5ad432745937f"

definition mm3_k1 :: "u64 \<Rightarrow> u64" where
  "mm3_k1 k = rotl64 (k * MM3_C1) 31 * MM3_C2"

definition mm3_k2 :: "u64 \<Rightarrow> u64" where
  "mm3_k2 k = rotl64 (k * MM3_C2) 33 * MM3_C1"

fun mm3_body :: "bytes \<Rightarrow> u64 \<times> u64 \<Rightarrow> (u64 \<times> u64) \<times> bytes" where
  "mm3_body data (h1, h2) =
     (if length data < 16 then ((h1, h2), data)
      else let h1 = h1 XOR mm3_k1 (le64 data 0);
               h1 = (rotl64 h1 27 + h2) * 5 + 0x52dce729;
               h2 = h2 XOR mm3_k2 (le64 data 8);
               h2 = (rotl64 h2 31 + h1) * 5 + 0x38495ab5
           in mm3_body (drop 16 data) (h1, h2))"

declare mm3_body.simps [simp del]

text \<open>The cases of the \<^verbatim>\<open>switch\<close> fall through: \<open>t i\<close> is 0 past the end of the tail.\<close>

definition mm3_tail :: "bytes \<Rightarrow> u64 \<times> u64 \<Rightarrow> u64 \<times> u64" where
  "mm3_tail tail h = (let (h1, h2) = h;
     t = (\<lambda>i. if i < length tail then ucast (tail ! i) else 0) :: nat \<Rightarrow> u64;
     k2 = 0 XOR push_bit 48 (t 14) XOR push_bit 40 (t 13) XOR push_bit 32 (t 12) XOR push_bit 24 (t 11)
            XOR push_bit 16 (t 10) XOR push_bit 8 (t 9) XOR t 8;
     h2 = (if length tail \<ge> 9 then h2 XOR mm3_k2 k2 else h2);
     k1 = 0 XOR push_bit 56 (t 7) XOR push_bit 48 (t 6) XOR push_bit 40 (t 5) XOR push_bit 32 (t 4)
            XOR push_bit 24 (t 3) XOR push_bit 16 (t 2) XOR push_bit 8 (t 1) XOR t 0;
     h1 = (if length tail \<ge> 1 then h1 XOR mm3_k1 k1 else h1)
   in (h1, h2))"

definition c_hash_murmurHash3_x64_128 :: "bytes \<Rightarrow> u32 \<Rightarrow> u64 \<times> u64" where
  "c_hash_murmurHash3_x64_128 key seed =
     (let (h, tail) = mm3_body key (ucast seed, ucast seed);
          (h1, h2) = mm3_tail tail h;
          h1 = h1 XOR of_nat (length key);
          h2 = h2 XOR of_nat (length key);
          h1 = h1 + h2;
          h2 = h2 + h1;
          h1 = fmix64 h1;
          h2 = fmix64 h2;
          h1 = h1 + h2;
          h2 = h2 + h1
      in (h1, h2))"

section \<open>Jump consistent hashing\<close>

text \<open>
  IEEE double arithmetic on the values that occur, which are at least 1: \<open>dbl\<close> rounds a
  rational to the nearest one with a significand of 53 bits, ties to even.
\<close>

definition round_even :: "rat \<Rightarrow> int" where
  "round_even x = (let f = \<lfloor>x\<rfloor>; d = x - of_int f in
     if d < 1 / 2 \<or> d = 1 / 2 \<and> even f then f else f + 1)"

definition dbl :: "rat \<Rightarrow> rat" where
  "dbl x = (let L = nat (bitlen \<lfloor>x\<rfloor>) - 1 in
     if L \<le> 52 then of_int (round_even (x * 2 ^ (52 - L))) / 2 ^ (52 - L)
     else of_int (round_even (x / 2 ^ (L - 52))) * 2 ^ (L - 52))"

definition jump_key :: "u64 \<Rightarrow> u64" where
  "jump_key key = key * 2862933555777941757 + 1"

text \<open>\<^verbatim>\<open>(b + 1) * ((double)(1LL << 31) / (double)((key >> 33) + 1))\<close>, truncated.\<close>

definition jump_next :: "u64 \<Rightarrow> nat \<Rightarrow> nat" where
  "jump_next key b =
     nat \<lfloor>dbl (of_nat (b + 1) * dbl (2147483648 / of_nat (unat (drop_bit 33 key + 1))))\<rfloor>"

lemma round_even_ge: "\<lfloor>x\<rfloor> \<le> round_even x"
  by (simp add: round_even_def Let_def)

lemma dbl_ge:
  assumes "of_nat k \<le> x" "1 \<le> k" "k \<le> 2 ^ 52"
  shows "of_nat k \<le> dbl x"
proof -
  define L where "L = nat (bitlen \<lfloor>x\<rfloor>) - 1"
  have k: "int k \<le> \<lfloor>x\<rfloor>" using assms(1) by (simp add: le_floor_iff)
  then have pos: "0 < \<lfloor>x\<rfloor>" using assms(2) by linarith
  have eq: "dbl x = (if L \<le> 52 then of_int (round_even (x * 2 ^ (52 - L))) / 2 ^ (52 - L)
     else of_int (round_even (x / 2 ^ (L - 52))) * 2 ^ (L - 52))" by (simp only: dbl_def Let_def L_def)
  show ?thesis
  proof (cases "L \<le> 52")
    case True
    have "(of_int (int k * 2 ^ (52 - L)) :: rat) \<le> x * 2 ^ (52 - L)"
      using assms(1) by simp
    then have "int k * 2 ^ (52 - L) \<le> \<lfloor>x * 2 ^ (52 - L)\<rfloor>" by (simp only: le_floor_iff)
    also have "\<dots> \<le> round_even (x * 2 ^ (52 - L))" by (rule round_even_ge)
    finally have "(of_int (int k * 2 ^ (52 - L)) :: rat) \<le> of_int (round_even (x * 2 ^ (52 - L)))"
      by (simp only: of_int_le_iff)
    then show ?thesis using True by (simp add: eq field_simps)
  next
    case False
    have "2 ^ L \<le> \<lfloor>x\<rfloor>"
    proof -
      have "nat (bitlen \<lfloor>x\<rfloor> - 1) = L" by (simp add: L_def nat_diff_distrib')
      then show ?thesis using bitlen_bounds [OF pos] by simp
    qed
    then have "(2 :: rat) ^ L \<le> x" by (simp add: le_floor_iff)
    moreover have "(2 :: rat) ^ L = 2 ^ 52 * 2 ^ (L - 52)"
      using False power_add [of "2 :: rat" 52 "L - 52"] by simp
    ultimately have "(of_int (2 ^ 52) :: rat) \<le> x / 2 ^ (L - 52)" by (simp add: field_simps)
    then have "2 ^ 52 \<le> \<lfloor>x / 2 ^ (L - 52)\<rfloor>" by (simp only: le_floor_iff)
    also have "\<dots> \<le> round_even (x / 2 ^ (L - 52))" by (rule round_even_ge)
    finally have "(of_int (2 ^ 52) :: rat) \<le> of_int (round_even (x / 2 ^ (L - 52)))" by (simp only: of_int_le_iff)
    moreover have "(1 :: rat) \<le> 2 ^ (L - 52)" by simp
    ultimately have "(2 ^ 52 :: rat) * 1 \<le> of_int (round_even (x / 2 ^ (L - 52))) * 2 ^ (L - 52)"
      by (intro mult_mono) simp_all
    moreover have "(of_nat k :: rat) \<le> 2 ^ 52"
      using assms(3) by (metis of_nat_le_iff of_nat_numeral of_nat_power)
    ultimately show ?thesis using False by (simp add: eq)
  qed
qed

lemma jump_next_ge: "b < 2 ^ 52 \<Longrightarrow> b < jump_next key b"
proof -
  assume b: "b < 2 ^ 52"
  define d where "d = unat (drop_bit 33 key + 1)"
  have "unat (drop_bit 33 key) < 2147483648"
    using unat_u64 [of key] by (simp add: drop_bit_eq_div unat_div)
  then have d: "0 < d" "d \<le> 2147483648" unfolding d_def by (subst unat_add_nowrap; simp)+
  then have "(of_nat d :: rat) \<le> 2147483648" by (metis of_nat_le_iff of_nat_numeral)
  then have "(of_nat 1 :: rat) \<le> 2147483648 / of_nat d" using d(1) by (simp add: field_simps)
  then have "(of_nat 1 :: rat) \<le> dbl (2147483648 / of_nat d)" by (rule dbl_ge) simp_all
  then have "(of_nat (b + 1) :: rat) * 1 \<le> of_nat (b + 1) * dbl (2147483648 / of_nat d)"
    by (intro mult_left_mono) simp_all
  then have "(of_nat (b + 1) :: rat) \<le> of_nat (b + 1) * dbl (2147483648 / of_nat d)" by simp
  then have "(of_nat (b + 1) :: rat) \<le> dbl (of_nat (b + 1) * dbl (2147483648 / of_nat d))"
    using b by (intro dbl_ge) simp_all
  then have "int (b + 1) \<le> \<lfloor>dbl (of_nat (b + 1) * dbl (2147483648 / of_nat d))\<rfloor>"
    by (simp only: le_floor_iff of_int_of_nat_eq)
  then show ?thesis by (simp add: jump_next_def flip: d_def)
qed

text \<open>
  The loop: \<open>b\<close> is the last bucket jumped to. Each jump goes past the bucket it starts from, so
  the loop ends.
\<close>

function jump_loop :: "u64 \<Rightarrow> u32 \<Rightarrow> int \<Rightarrow> nat \<Rightarrow> int" where
  "jump_loop key num_buckets b j =
     (if int j < sint num_buckets
      then jump_loop (jump_key key) num_buckets (int j) (jump_next (jump_key key) j)
      else b)"
  by pat_completeness auto
termination
proof (relation "measure (\<lambda>(key, n, b, j). nat (sint n - int j))", simp)
  fix key :: u64 and n :: u32 and b :: int and j
  assume j: "int j < sint n"
  moreover have "sint n < 2 ^ 31" using sint_lt [of n] by simp
  ultimately have "j < 2 ^ 52" by simp
  from jump_next_ge [OF this, of "jump_key key"] j
  show "((jump_key key, n, int j, jump_next (jump_key key) j), key, n, b, j) \<in>
      measure (\<lambda>(key, n, b, j). nat (sint n - int j))" by simp
qed

declare jump_loop.simps [simp del]

text \<open>The result as \<^verbatim>\<open>uint32_t\<close>; without buckets \<^verbatim>\<open>b\<close> is still -1 and the result is 1.\<close>

definition c_hash_jump_consistent :: "u64 \<Rightarrow> u32 \<Rightarrow> u32" where
  "c_hash_jump_consistent key num_buckets =
     (let b = jump_loop key num_buckets (- 1) 0 in word_of_int (if b < 0 then NOT b + 1 else b))"

section \<open>Properties of jump consistent hashing\<close>

lemma small_bucket: "int j < sint (n :: u32) \<Longrightarrow> j < 2 ^ 52"
  using sint_lt [of n] by simp

lemma jump_loop_range:
  assumes "b = - 1 \<and> j = 0 \<and> 0 < sint n \<or> 0 \<le> b \<and> b < sint n"
  shows "0 \<le> jump_loop key n b j \<and> jump_loop key n b j < sint n"
  using assms
proof (induction key n b j rule: jump_loop.induct)
  case (1 key n b j)
  show ?case
  proof (cases "int j < sint n")
    case True
    then show ?thesis using 1 by (subst (1 2) jump_loop.simps) simp
  next
    case False
    then show ?thesis using 1 by (subst (1 2) jump_loop.simps) auto
  qed
qed

lemma jump_loop_grow:
  assumes "sint (n + 1) = sint n + 1"
  shows "jump_loop key (n + 1) b j \<in> {jump_loop key n b j, sint n}"
  using assms
proof (induction key n b j rule: jump_loop.induct)
  case (1 key n b j)
  consider (both) "int j < sint n" | (new) "int j = sint n" | (none) "sint n + 1 \<le> int j" by linarith
  then show ?case
  proof cases
    case both
    then show ?thesis using 1 jump_loop.simps [of key n b j] jump_loop.simps [of key "n + 1" b j] by simp
  next
    case new
    then have "int j < sint (n + 1)" using 1 by simp
    then have "j < jump_next (jump_key key) j" by (intro jump_next_ge small_bucket)
    then have "\<not> int (jump_next (jump_key key) j) < sint (n + 1)" using new 1 by simp
    then have "jump_loop key (n + 1) b j = int j"
      using new 1 jump_loop.simps [of key "n + 1" b j]
        jump_loop.simps [of "jump_key key" "n + 1" "int j" "jump_next (jump_key key) j"] by simp
    then show ?thesis using new by simp
  next
    case none
    then show ?thesis using 1 jump_loop.simps [of key n b j] jump_loop.simps [of key "n + 1" b j] by simp
  qed
qed

lemma jump_result:
  assumes "0 < sint n"
  shows "int (unat (c_hash_jump_consistent key n)) = jump_loop key n (- 1) 0"
proof -
  let ?b = "jump_loop key n (- 1) 0"
  have b: "0 \<le> ?b" "?b < sint n" using jump_loop_range [of "- 1" 0 n key] assms by simp_all
  moreover have "sint n < 2 ^ 31" using sint_lt [of n] by simp
  ultimately show ?thesis by (simp add: c_hash_jump_consistent_def Let_def uint_word_of_int flip: uint_nat)
qed

text \<open>
  Jump consistent hashing returns a bucket: for a positive number of buckets the result is
  below it, whatever the rounding of the double computation does.
\<close>

theorem jump_in_range:
  assumes "0 < sint num_buckets"
  shows "int (unat (c_hash_jump_consistent key num_buckets)) < sint num_buckets"
  using jump_result [OF assms] jump_loop_range [of "- 1" 0 num_buckets key] assms by simp

theorem jump_in_range_witness:
  "int (unat (c_hash_jump_consistent 42 10)) < sint (10 :: u32)"
  by (rule jump_in_range) simp

text \<open>
  (C24) It is consistent: when a bucket is added, a key stays in its bucket or moves to the new
  one.
\<close>

theorem jump_consistent:
  assumes "0 < sint num_buckets" "sint (num_buckets + 1) = sint num_buckets + 1"
  shows "c_hash_jump_consistent key (num_buckets + 1) \<in>
    {c_hash_jump_consistent key num_buckets, num_buckets}"
proof -
  have pos: "0 < sint (num_buckets + 1)" using assms by simp
  have n: "int (unat num_buckets) = sint num_buckets"
    using assms(1) sint_ge_0_u32 [of num_buckets] sint_nonneg_unat [of num_buckets] by simp
  have "int (unat (c_hash_jump_consistent key (num_buckets + 1))) \<in>
      {int (unat (c_hash_jump_consistent key num_buckets)), int (unat num_buckets)}"
    using jump_loop_grow [OF assms(2), of key "- 1" 0] jump_result [OF assms(1)] jump_result [OF pos] n by simp
  then show ?thesis by (simp only: insert_iff empty_iff of_nat_eq_iff word_unat_eq_iff)
qed

theorem jump_consistent_witness:
  "c_hash_jump_consistent 7 (4 + 1) \<in> {c_hash_jump_consistent 7 4, 4}"
  by (rule jump_consistent) simp_all

text \<open>Without buckets the loop is not entered and the result is 1, which is not a bucket.\<close>

theorem jump_no_buckets:
  "c_hash_jump_consistent key 0 = 1"
  by (simp add: c_hash_jump_consistent_def jump_loop.simps)

end
