(* ===== verification/Dict.thy ===== *)
theory Dict
  imports Mixers Refinement
begin

text \<open>
  Model of \<^verbatim>\<open>metaserver/dict.c\<close>: a hash table with chaining. A key is a C string, a value a
  pointer of the caller, kept as an element of a type \<open>'v\<close>. A bucket is the list of its pairs
  from \<^verbatim>\<open>members[i]\<close> along the \<^verbatim>\<open>next\<close> pointers.
\<close>

section \<open>dict.c\<close>

text \<open>
  \<^verbatim>\<open>dict_jump_consistent\<close>. The loop is the one of \<^verbatim>\<open>c_hash_jump_consistent\<close>, with an unsigned number
  of buckets.
\<close>

partial_function (option) dict_jump_loop :: "u64 \<Rightarrow> nat \<Rightarrow> int \<Rightarrow> nat \<Rightarrow> int option" where
  "dict_jump_loop key num_buckets b j =
     (if j < num_buckets
      then dict_jump_loop (jump_key key) num_buckets (int j) (jump_next (jump_key key) j)
      else Some b)"

definition dict_jump_consistent :: "u64 \<Rightarrow> u32 \<Rightarrow> u64 res" where
  "dict_jump_consistent key num_buckets =
     (case dict_jump_loop key (unat num_buckets) (- 1) 0 of
        None \<Rightarrow> Inl NoReturn
      | Some b \<Rightarrow> Inr (ucast (word_of_int (if b < 0 then NOT b + 1 else b) :: u32)))"

definition dict_default_hash_fn :: "bytes \<Rightarrow> u32" where
  "dict_default_hash_fn key =
     (if key = [] then 0
      else let (hash, rest) = hsieh_loop key 0 in
        hsieh_end (case rest of [k0] \<Rightarrow> tail1 (ucast k0) hash | _ \<Rightarrow> hsieh_tail32 rest hash))"

record 'v dict_t =
  d_max_count :: u64
  d_count :: u32
  d_member_count :: "u32 list"
  d_members :: "(bytes \<times> 'v) list list"
  d_hash_fn :: "bytes \<Rightarrow> u32"

definition dict_init :: "u32 \<Rightarrow> (bytes \<Rightarrow> u32) option \<Rightarrow> 'v dict_t" where
  "dict_init max_count hash_fn =
     \<lparr>d_max_count = ucast max_count, d_count = 0,
      d_member_count = replicate (unat max_count) 0, d_members = replicate (unat max_count) [],
      d_hash_fn = (case hash_fn of None \<Rightarrow> dict_default_hash_fn | Some f \<Rightarrow> f)\<rparr>"

definition dict_create :: "u32 \<Rightarrow> (bytes \<Rightarrow> u32) option \<Rightarrow> 'v dict_t" where
  "dict_create max_count hash_fn = dict_init max_count hash_fn"

text \<open>The loop of \<^verbatim>\<open>dict_find\<close> over a chain: the position of the pair found. A stored key is an
  array that ends with its terminator.\<close>

fun chain_find :: "(bytes \<times> 'v) list \<Rightarrow> bytes \<Rightarrow> nat \<Rightarrow> nat option res" where
  "chain_find [] key pos = Inr None"
| "chain_find ((k, v) # chain) key pos =
     rbind (strncmp_eq (k @ [0]) key (length key) 0) (\<lambda>eq.
     if eq then Inr (Some pos) else chain_find chain key (Suc pos))"

text \<open>
  \<^verbatim>\<open>dict_find\<close>: the index and the position in the chain. \<^verbatim>\<open>d->max_count\<close> is passed on as a 32-bit
  number.
\<close>

definition dict_find :: "'v dict_t \<Rightarrow> bytes \<Rightarrow> (nat \<times> nat option) res" where
  "dict_find d key =
     rbind (dict_jump_consistent (ucast (d_hash_fn d key)) (ucast (d_max_count d))) (\<lambda>i.
     let index = unat (ucast i :: u32) in
     if index < length (d_member_count d) \<and> index < length (d_members d)
     then if d_member_count d ! index > 0
          then rbind (chain_find (d_members d ! index) key 0) (\<lambda>r. Inr (index, r))
          else Inr (index, None)
     else Inl OutOfBounds)"

text \<open>\<^verbatim>\<open>dict_data_pair_create\<close>: the copy of the key and the pointer of the value.\<close>

definition dict_data_pair_create :: "bytes \<Rightarrow> 'v \<Rightarrow> bytes \<times> 'v" where
  "dict_data_pair_create key val = (key, val)"

text \<open>\<^verbatim>\<open>dict_put\<close>: whether a pair was added (the code returns a pointer to its value, or null).\<close>

definition dict_put :: "'v dict_t \<Rightarrow> bytes \<Rightarrow> 'v \<Rightarrow> (bool \<times> 'v dict_t) res" where
  "dict_put d key val =
     rbind (dict_find d key) (\<lambda>(index, data).
     case data of
       Some _ \<Rightarrow> Inr (False, d)
     | None \<Rightarrow>
         Inr (True, d\<lparr>d_members := (d_members d)[index := dict_data_pair_create key val # d_members d ! index],
                      d_member_count := (d_member_count d)[index := d_member_count d ! index + 1],
                      d_count := d_count d + 1\<rparr>))"

definition dict_get :: "'v dict_t \<Rightarrow> bytes \<Rightarrow> 'v option res" where
  "dict_get d key =
     rbind (dict_find d key) (\<lambda>(index, dp).
     case dp of None \<Rightarrow> Inr None | Some i \<Rightarrow> Inr (Some (snd (d_members d ! index ! i))))"

text \<open>\<^verbatim>\<open>dict_del\<close>: its result, the value passed to the callback, the new table.\<close>

definition dict_del :: "'v dict_t \<Rightarrow> bytes \<Rightarrow> (int \<times> 'v option \<times> 'v dict_t) res" where
  "dict_del d key =
     rbind (dict_find d key) (\<lambda>(index, dp).
     case dp of
       None \<Rightarrow> Inr (- 1, None, d)
     | Some i \<Rightarrow>
         let chain = d_members d ! index in
         Inr (0, Some (snd (chain ! i)),
              d\<lparr>d_members := (d_members d)[index := take i chain @ drop (Suc i) chain],
                d_member_count := (d_member_count d)[index := d_member_count d ! index - 1],
                d_count := d_count d - 1\<rparr>))"

text \<open>\<^verbatim>\<open>dict_dump\<close>: the pairs passed to the callback, in order.\<close>

definition dict_dump :: "'v dict_t \<Rightarrow> (bytes \<times> 'v) list" where
  "dict_dump d = concat (map (\<lambda>i. if d_member_count d ! i > 0 then d_members d ! i else [])
     [0 ..< unat (d_max_count d)])"

text \<open>
  \<^verbatim>\<open>dict_deinit\<close>: the values passed to the callback and the table with its counters taken down;
  the pointers of \<^verbatim>\<open>members\<close> are left as they are.
\<close>

definition dict_deinit :: "'v dict_t \<Rightarrow> 'v list \<times> 'v dict_t" where
  "dict_deinit d =
     (map snd (dict_dump d),
      d\<lparr>d_member_count := map (\<lambda>i. if i < unat (d_max_count d) \<and> d_member_count d ! i > 0
             then d_member_count d ! i - of_nat (length (d_members d ! i)) else d_member_count d ! i)
           [0 ..< length (d_member_count d)],
        d_count := d_count d - of_nat (length (dict_dump d))\<rparr>)"

definition dict_destroy :: "'v dict_t option \<Rightarrow> 'v list" where
  "dict_destroy d = (case d of None \<Rightarrow> [] | Some d \<Rightarrow> fst (dict_deinit d))"

section \<open>The invariant\<close>

text \<open>The bucket of a key, for a table with buckets.\<close>

definition bucket :: "'v dict_t \<Rightarrow> bytes \<Rightarrow> nat" where
  "bucket d key =
     (case dict_jump_consistent (ucast (d_hash_fn d key)) (ucast (d_max_count d)) of
        Inl _ \<Rightarrow> 0 | Inr i \<Rightarrow> unat i)"

text \<open>
  A table of between 1 and \<open>2^32 - 1\<close> buckets whose counters are right, with C strings as keys,
  each in its bucket.
\<close>

definition dict_inv :: "'v dict_t \<Rightarrow> bool" where
  "dict_inv d \<longleftrightarrow>
     0 < unat (d_max_count d) \<and> unat (d_max_count d) < 4294967296 \<and>
     length (d_members d) = unat (d_max_count d) \<and>
     length (d_member_count d) = unat (d_max_count d) \<and>
     (\<forall>i < length (d_members d). length (d_members d ! i) < 4294967296 \<and>
        d_member_count d ! i = of_nat (length (d_members d ! i))) \<and>
     d_count d = of_nat (length (concat (d_members d))) \<and>
     (\<forall>i < length (d_members d). \<forall>p \<in> set (d_members d ! i).
        0 \<notin> set (fst p) \<and> bucket d (fst p) = i)"

section \<open>The bucket of a key\<close>

lemma unat_of_nat_in:
  "n < 4294967296 \<Longrightarrow> unat (of_nat n :: u32) = n"
  "n < 18446744073709551616 \<Longrightarrow> unat (of_nat n :: u64) = n"
  by (simp_all add: unat_of_nat)

lemma jump_bound: "b < 4294967296 \<Longrightarrow> b < jump_next key b" for b :: nat
  by (rule jump_next_ge) simp

lemma dict_jump_loop_returns:
  assumes "n < 4294967296" "b = - 1 \<and> j = 0 \<and> 0 < n \<or> 0 \<le> b \<and> b < int n"
  shows "\<exists>r. dict_jump_loop key n b j = Some r \<and> 0 \<le> r \<and> r < int n"
  using assms(2)
proof (induction "n - j" arbitrary: key b j rule: less_induct)
  case less
  show ?case
  proof (cases "j < n")
    case True
    then have "j < jump_next (jump_key key) j" using assms(1) by (intro jump_bound) simp
    then have "\<exists>r. dict_jump_loop (jump_key key) n (int j) (jump_next (jump_key key) j) = Some r \<and> 0 \<le> r \<and> r < int n"
      using True by (intro less.hyps) simp_all
    then show ?thesis using True by (subst dict_jump_loop.simps) simp
  next
    case False
    then show ?thesis using less.prems by (subst dict_jump_loop.simps) auto
  qed
qed

lemma dict_jump_returns:
  assumes "0 < unat n"
  shows "\<exists>i. dict_jump_consistent key n = Inr i \<and> unat i < unat n"
proof -
  obtain r where r: "dict_jump_loop key (unat n) (- 1) 0 = Some r" "0 \<le> r" "r < int (unat n)"
    using dict_jump_loop_returns [of "unat n" "- 1" 0 key] assms unat_u32 [of n] by auto
  have "word_of_int r = (of_nat (nat r) :: u32)" using r(2) by simp
  moreover have "unat (of_nat (nat r) :: u32) = nat r"
    by (rule unat_of_nat_in) (use r unat_u32 [of n] in linarith)
  ultimately have "unat (ucast (word_of_int r :: u32) :: u64) = nat r"
    by (simp only: unat_ucast_widths)
  moreover have "nat r < unat n" using r by linarith
  ultimately show ?thesis using r by (simp add: dict_jump_consistent_def)
qed


lemma bucket_lt: "0 < unat (d_max_count d) \<Longrightarrow> unat (d_max_count d) < 4294967296 \<Longrightarrow>
    dict_jump_consistent (ucast (d_hash_fn d key)) (ucast (d_max_count d)) = Inr (of_nat (bucket d key)) \<and>
    bucket d key < unat (d_max_count d)"
  using dict_jump_returns [of "ucast (d_max_count d)" "ucast (d_hash_fn d key)"]
  by (auto simp: bucket_def unat_ucast_down)

section \<open>The search of a chain\<close>

definition starts :: "bytes \<Rightarrow> bytes \<Rightarrow> bool" where
  "starts key k \<longleftrightarrow> take (length key) k = key"

text \<open>The position of the first pair whose key starts with the key searched for.\<close>

fun first_pos :: "('a \<Rightarrow> bool) \<Rightarrow> 'a list \<Rightarrow> nat option" where
  "first_pos P [] = None"
| "first_pos P (x # xs) = (if P x then Some 0 else map_option Suc (first_pos P xs))"

lemma first_pos_None: "first_pos P xs = None \<longleftrightarrow> (\<forall>x \<in> set xs. \<not> P x)"
  by (induction xs) auto

lemma first_pos_Some: "first_pos P xs = Some i \<Longrightarrow> i < length xs \<and> P (xs ! i)"
  by (induction xs arbitrary: i) (auto split: if_splits)

lemma strncmp_eq_starts:
  assumes "0 \<notin> set k" "0 \<notin> set key"
  shows "strncmp_eq (k @ [0]) key (length key) 0 = Inr (starts key k)"
proof -
  have "takeWhile (\<lambda>b. b \<noteq> 0) (k @ [0]) = k" using assms(1) by (induction k) auto
  then show ?thesis using strncmp_eq_prefix [of "k @ [0]" 0 "length key" key] assms
    by (simp add: starts_def eq_commute)
qed

lemma chain_find_eq:
  assumes "\<forall>p \<in> set chain. 0 \<notin> set (fst p)" "0 \<notin> set key"
  shows "chain_find chain key pos = Inr (map_option (\<lambda>i. pos + i) (first_pos (\<lambda>p. starts key (fst p)) chain))"
  using assms(1)
proof (induction chain arbitrary: pos)
  case Nil
  then show ?case by simp
next
  case (Cons p chain)
  then show ?case
    by (cases p) (simp add: strncmp_eq_starts assms(2) option.map_comp comp_def
        cong: option.map_cong)
qed

lemma dict_find_eq:
  assumes inv: "dict_inv d" and key: "0 \<notin> set key"
  shows "dict_find d key =
    Inr (bucket d key, first_pos (\<lambda>p. starts key (fst p)) (d_members d ! bucket d key))"
proof -
  let ?i = "bucket d key"
  have m: "0 < unat (d_max_count d)" "unat (d_max_count d) < 4294967296"
    using inv by (simp_all add: dict_inv_def)
  then have i: "?i < length (d_members d)" "?i < length (d_member_count d)"
    using bucket_lt [of d key] inv by (simp_all add: dict_inv_def)
  have "?i < 4294967296" using bucket_lt [of d key] m by simp
  then have ix: "unat (ucast (of_nat ?i :: u64) :: u32) = ?i"
    by (simp add: unat_ucast_down unat_of_nat_in)
  have c: "d_member_count d ! ?i = of_nat (length (d_members d ! ?i))"
    "length (d_members d ! ?i) < 4294967296" using inv i by (simp_all add: dict_inv_def)
  have e: "d_member_count d ! ?i > 0 \<longleftrightarrow> d_members d ! ?i \<noteq> []"
    using c by (simp add: word_less_nat_alt unat_of_nat_in)
  have z: "\<forall>p \<in> set (d_members d ! ?i). 0 \<notin> set (fst p)" using inv i by (simp add: dict_inv_def)
  show ?thesis
    using bucket_lt [OF m, of key] i ix e chain_find_eq [OF z key, of 0]
    by (cases "d_members d ! ?i = []") (simp_all add: dict_find_def Let_def option.map_ident)
qed


section \<open>The invariant is kept\<close>

lemma length_concat_update:
  "i < length xs \<Longrightarrow> length (concat (xs[i := c])) + length (xs ! i) = length (concat xs) + length c"
proof (induction xs arbitrary: i)
  case (Cons x xs)
  then show ?case by (cases i) simp_all
qed simp

text \<open>A bucket gets another chain, and the counters follow.\<close>

definition set_chain :: "'v dict_t \<Rightarrow> nat \<Rightarrow> (bytes \<times> 'v) list \<Rightarrow> u32 \<Rightarrow> 'v dict_t" where
  "set_chain d i c n =
     d\<lparr>d_members := (d_members d)[i := c],
       d_member_count := (d_member_count d)[i := of_nat (length c)], d_count := n\<rparr>"

lemma set_chain_sel [simp]:
  "d_max_count (set_chain d i c n) = d_max_count d" "d_hash_fn (set_chain d i c n) = d_hash_fn d"
  "d_members (set_chain d i c n) = (d_members d)[i := c]" "d_count (set_chain d i c n) = n"
  "d_member_count (set_chain d i c n) = (d_member_count d)[i := of_nat (length c)]"
  "bucket (set_chain d i c n) k = bucket d k"
  by (simp_all add: set_chain_def bucket_def)

lemma dict_inv_set_chain:
  assumes "dict_inv d" "i < length (d_members d)" "length c < 4294967296"
    "\<forall>p \<in> set c. 0 \<notin> set (fst p) \<and> bucket d (fst p) = i"
    "n = of_nat (length (concat ((d_members d)[i := c])))"
  shows "dict_inv (set_chain d i c n)"
  using assms by (auto simp: dict_inv_def nth_list_update)

lemma dict_inv_init:
  assumes "0 < max_count"
  shows "dict_inv (dict_init max_count hash_fn)"
proof -
  have "0 < unat max_count" using assms by (simp add: word_less_nat_alt)
  then show ?thesis using unat_u32 [of max_count]
    by (simp add: dict_inv_def dict_init_def filter_empty_conv)
qed

lemma bucket_in: "dict_inv d \<Longrightarrow> bucket d key < length (d_members d)"
  using bucket_lt [of d key] by (simp add: dict_inv_def)

lemma dict_inv_keys:
  assumes "dict_inv d" "i < length (d_members d)" "p \<in> set (d_members d ! i)"
  shows "0 \<notin> set (fst p) \<and> bucket d (fst p) = i"
  using assms by (simp add: dict_inv_def)

lemma dict_put_eq:
  assumes inv: "dict_inv d" and key: "0 \<notin> set key"
  shows "dict_put d key val =
    Inr (if \<exists>p \<in> set (d_members d ! bucket d key). starts key (fst p) then (False, d)
         else (True, set_chain d (bucket d key) ((key, val) # d_members d ! bucket d key) (d_count d + 1)))"
proof (cases "first_pos (\<lambda>p. starts key (fst p)) (d_members d ! bucket d key)")
  case None
  have "d_member_count d ! bucket d key = of_nat (length (d_members d ! bucket d key))"
    using inv bucket_in [OF inv] by (simp add: dict_inv_def)
  moreover have "\<not> (\<exists>p \<in> set (d_members d ! bucket d key). starts key (fst p))"
    using None by (simp add: first_pos_None)
  ultimately show ?thesis using None
    by (simp only: dict_put_def dict_data_pair_create_def dict_find_eq [OF inv key] set_chain_def rbind_Inr prod.case
        option.case if_False) (simp add: add.commute)
next
  case (Some i)
  then have "\<exists>p \<in> set (d_members d ! bucket d key). starts key (fst p)"
    using first_pos_Some [OF Some] nth_mem by blast
  then show ?thesis using Some by (simp add: dict_put_def dict_find_eq [OF inv key])
qed

lemma count_down: "w = of_nat n \<Longrightarrow> n = Suc m \<Longrightarrow> w - 1 = of_nat m" for w :: u32
  by simp

lemma dict_del_eq:
  assumes inv: "dict_inv d" and key: "0 \<notin> set key"
  shows "dict_del d key =
    Inr (case first_pos (\<lambda>p. starts key (fst p)) (d_members d ! bucket d key) of
           None \<Rightarrow> (- 1, None, d)
         | Some i \<Rightarrow> let chain = d_members d ! bucket d key in
             (0, Some (snd (chain ! i)),
              set_chain d (bucket d key) (take i chain @ drop (Suc i) chain) (d_count d - 1)))"
proof (cases "first_pos (\<lambda>p. starts key (fst p)) (d_members d ! bucket d key)")
  case (Some i)
  let ?c = "d_members d ! bucket d key"
  have "d_member_count d ! bucket d key = of_nat (length ?c)"
    using inv bucket_in [OF inv] by (simp add: dict_inv_def)
  moreover have "length ?c = Suc (length (take i ?c @ drop (Suc i) ?c))"
    using first_pos_Some [OF Some] by auto
  ultimately have "d_member_count d ! bucket d key - 1 = of_nat (length (take i ?c @ drop (Suc i) ?c))"
    by (rule count_down)
  then show ?thesis using Some
    by (simp only: dict_del_def dict_find_eq [OF inv key] set_chain_def Let_def rbind_Inr prod.case
        option.case)
qed (simp add: dict_del_def dict_find_eq [OF inv key])

lemma dict_inv_put:
  assumes inv: "dict_inv d" and key: "0 \<notin> set key"
    and room: "length (d_members d ! bucket d key) < 4294967295"
  shows "dict_inv (set_chain d (bucket d key) ((key, val) # d_members d ! bucket d key) (d_count d + 1))"
proof (rule dict_inv_set_chain [OF inv bucket_in [OF inv]])
  let ?i = "bucket d key"
  let ?c = "(key, val) # d_members d ! ?i"
  have "length (concat ((d_members d)[?i := ?c])) = Suc (length (concat (d_members d)))"
    using length_concat_update [OF bucket_in [OF inv], of key ?c] by simp
  then show "d_count d + 1 = of_nat (length (concat ((d_members d)[?i := ?c])))"
    using inv by (simp only: dict_inv_def of_nat_Suc) (simp add: add.commute)
qed (use inv key room bucket_in [OF inv, of key] in \<open>auto simp: dict_inv_def\<close>)

lemma dict_inv_del:
  assumes inv: "dict_inv d" and i: "i < length (d_members d ! bucket d key)"
  shows "dict_inv (set_chain d (bucket d key)
    (take i (d_members d ! bucket d key) @ drop (Suc i) (d_members d ! bucket d key)) (d_count d - 1))"
proof (rule dict_inv_set_chain [OF inv bucket_in [OF inv]])
  let ?b = "bucket d key"
  let ?c = "take i (d_members d ! ?b) @ drop (Suc i) (d_members d ! ?b)"
  have c: "d_count d = of_nat (length (concat (d_members d)))" using inv by (simp add: dict_inv_def)
  have l: "length (d_members d ! ?b) = Suc (length ?c)" using i by simp
  then have "length (concat (d_members d)) = Suc (length (concat ((d_members d)[?b := ?c])))"
    using length_concat_update [OF bucket_in [OF inv], of key ?c] by simp
  then show "d_count d - 1 = of_nat (length (concat ((d_members d)[?b := ?c])))"
    by (intro count_down [OF c])
  show "length ?c < 4294967296" using inv bucket_in [OF inv, of key] l by (fastforce simp: dict_inv_def)
  show "\<forall>p \<in> set ?c. 0 \<notin> set (fst p) \<and> bucket d (fst p) = ?b"
    using dict_inv_keys [OF inv bucket_in [OF inv]] by (auto dest: in_set_takeD in_set_dropD)
qed


section \<open>The contract of a map\<close>

text \<open>
  What a client of a key-value table relies on, for the keys \<open>K\<close> it uses: \<open>inv n\<close> is the invariant of
  a table of at most \<open>n\<close> pairs, \<open>limit\<close> bounds the number of pairs.
\<close>

datatype ('k, 'v) map_op = Put 'k 'v | Get 'k | Del 'k

datatype 'v map_out = Added bool | Found "'v option" | Deleted int "'v option"

fun map_spec :: "('k \<rightharpoonup> 'v) \<Rightarrow> ('k, 'v) map_op \<Rightarrow> 'v map_out \<times> ('k \<rightharpoonup> 'v)" where
  "map_spec m (Put k v) = (if m k = None then (Added True, m(k \<mapsto> v)) else (Added False, m))"
| "map_spec m (Get k) = (Found (m k), m)"
| "map_spec m (Del k) = (Deleted (if m k = None then - 1 else 0) (m k), m(k := None))"

fun map_specs :: "('k \<rightharpoonup> 'v) \<Rightarrow> ('k, 'v) map_op list \<Rightarrow> 'v map_out list" where
  "map_specs m [] = []"
| "map_specs m (p # ps) = (let (r, m') = map_spec m p in r # map_specs m' ps)"

primrec op_key :: "('k, 'v) map_op \<Rightarrow> 'k" where
  "op_key (Put k v) = k"
| "op_key (Get k) = k"
| "op_key (Del k) = k"

fun dict_step :: "'v dict_t \<Rightarrow> (bytes, 'v) map_op \<Rightarrow> ('v map_out \<times> 'v dict_t) res" where
  "dict_step d (Put k v) = rbind (dict_put d k v) (\<lambda>(b, d'). Inr (Added b, d'))"
| "dict_step d (Get k) = rbind (dict_get d k) (\<lambda>r. Inr (Found r, d))"
| "dict_step d (Del k) = rbind (dict_del d k) (\<lambda>(r, v, d'). Inr (Deleted r v, d'))"

locale map_table =
  fixes step :: "'t \<Rightarrow> ('k, 'v) map_op \<Rightarrow> ('v map_out \<times> 't) res"
    and inv :: "nat \<Rightarrow> 't \<Rightarrow> bool" and lookup :: "'t \<Rightarrow> 'k \<rightharpoonup> 'v" and K :: "'k set" and limit :: nat
  assumes step: "inv n d \<Longrightarrow> op_key p \<in> K \<Longrightarrow> n < limit \<Longrightarrow>
    \<exists>r d'. step d p = Inr (r, d') \<and> inv (Suc n) d' \<and> map_spec (lookup d) p = (r, lookup d')"
begin

lemma run:
  assumes "inv n d" "op_key ` set ps \<subseteq> K" "n + length ps \<le> limit"
  shows "\<exists>d'. run_steps step d ps = Inr (map_specs (lookup d) ps, d') \<and> inv (n + length ps) d'"
  using assms
proof (induction ps arbitrary: n d)
  case Nil
  then show ?case by simp
next
  case (Cons p ps)
  obtain r d' where p: "step d p = Inr (r, d')" "inv (Suc n) d'" "map_spec (lookup d) p = (r, lookup d')"
    using step [of n d p] Cons.prems by auto
  obtain d'' where "run_steps step d' ps = Inr (map_specs (lookup d') ps, d'')" "inv (Suc n + length ps) d''"
    using Cons.IH [OF p(2)] Cons.prems by auto
  then show ?case using p by simp
qed

end

section \<open>The dictionary as a map\<close>

text \<open>
  No key that the client uses is a proper prefix of another one, and none holds a zero byte. This is
  what the comparison of \<^verbatim>\<open>dict_find\<close> needs.
\<close>

definition prefix_free :: "bytes set \<Rightarrow> bool" where
  "prefix_free K \<longleftrightarrow> (\<forall>k \<in> K. 0 \<notin> set k \<and> (\<forall>k' \<in> K. starts k k' \<longrightarrow> k' = k))"

definition dict_lookup :: "'v dict_t \<Rightarrow> bytes \<rightharpoonup> 'v" where
  "dict_lookup d k = map_of (d_members d ! bucket d k) k"

definition dict_over :: "bytes set \<Rightarrow> nat \<Rightarrow> 'v dict_t \<Rightarrow> bool" where
  "dict_over K n d \<longleftrightarrow> dict_inv d \<and> (\<forall>i < length (d_members d).
     length (d_members d ! i) \<le> n \<and> distinct (map fst (d_members d ! i)) \<and>
     fst ` set (d_members d ! i) \<subseteq> K)"

lemma first_pos_cong: "(\<And>x. x \<in> set xs \<Longrightarrow> P x = Q x) \<Longrightarrow> first_pos P xs = first_pos Q xs"
  by (induction xs) auto

lemma map_of_first_pos:
  "map_of xs k = map_option (\<lambda>i. snd (xs ! i)) (first_pos (\<lambda>p. fst p = k) xs)"
  by (induction xs) (auto simp: option.map_comp comp_def)

lemma map_of_deleted:
  assumes "distinct (map fst xs)" "first_pos (\<lambda>p. fst p = k) xs = Some i"
  shows "map_of (take i xs @ drop (Suc i) xs) = (map_of xs)(k := None)"
  using assms
proof (induction xs arbitrary: i)
  case (Cons x xs)
  then show ?case
    by (cases i) (auto simp: fun_eq_iff map_add_def map_of_eq_None_iff split: if_splits option.splits)
qed simp

lemma first_pos_over:
  assumes "prefix_free K" "k \<in> K" "dict_over K n d" "i < length (d_members d)"
  shows "first_pos (\<lambda>p. starts k (fst p)) (d_members d ! i) = first_pos (\<lambda>p. fst p = k) (d_members d ! i)"
proof (rule first_pos_cong)
  fix p
  assume "p \<in> set (d_members d ! i)"
  then have "fst p \<in> K" using assms(3,4) by (auto simp: dict_over_def)
  then show "starts k (fst p) = (fst p = k)" using assms(1,2) by (auto simp: prefix_free_def starts_def)
qed


lemma dict_over_set_chain:
  assumes "dict_over K n d" "dict_inv (set_chain d b c m)" "length c \<le> Suc n"
    "distinct (map fst c)" "fst ` set c \<subseteq> K"
  shows "dict_over K (Suc n) (set_chain d b c m)"
proof -
  have "length (d_members (set_chain d b c m) ! i) \<le> Suc n \<and>
      distinct (map fst (d_members (set_chain d b c m) ! i)) \<and>
      fst ` set (d_members (set_chain d b c m) ! i) \<subseteq> K"
    if "i < length (d_members (set_chain d b c m))" for i
    using assms that by (cases "b = i") (auto simp: dict_over_def)
  then show ?thesis using assms(2) unfolding dict_over_def by blast
qed

lemma dict_over_mono: "dict_over K n d \<Longrightarrow> dict_over K (Suc n) d"
  unfolding dict_over_def by auto

lemma dict_lookup_set_chain:
  assumes "dict_inv d"
  shows "dict_lookup (set_chain d b c m) k = (if bucket d k = b then map_of c k else dict_lookup d k)"
  using bucket_in [OF assms, of k] by (auto simp: dict_lookup_def)

text \<open>A changed chain changes the map where the chain does.\<close>

lemma dict_lookup_update:
  assumes inv: "dict_inv d" and c: "map_of c = (map_of (d_members d ! bucket d k))(k := v)"
  shows "dict_lookup (set_chain d (bucket d k) c m) = (dict_lookup d)(k := v)"
proof
  fix k'
  show "dict_lookup (set_chain d (bucket d k) c m) k' = ((dict_lookup d)(k := v)) k'"
    using dict_lookup_set_chain [OF inv, of "bucket d k" c m k'] c
    by (cases "bucket d k' = bucket d k") (auto simp: dict_lookup_def [of d])
qed

lemma dict_step_put:
  assumes K: "prefix_free K" "k \<in> K" and d: "dict_over K n d" and n: "n < 4294967295"
  shows "\<exists>r d'. dict_step d (Put k v) = Inr (r, d') \<and> dict_over K (Suc n) d' \<and>
    map_spec (dict_lookup d) (Put k v) = (r, dict_lookup d')"
proof -
  have inv: "dict_inv d" and k: "0 \<notin> set k" using d K by (auto simp: dict_over_def prefix_free_def)
  note b = bucket_in [OF inv, of k]
  let ?c = "d_members d ! bucket d k"
  have c: "length ?c \<le> n" "distinct (map fst ?c)" "fst ` set ?c \<subseteq> K"
    using d b by (auto simp: dict_over_def)
  have pos: "first_pos (\<lambda>p. starts k (fst p)) ?c = None \<longleftrightarrow> dict_lookup d k = None"
    by (simp add: first_pos_over [OF K d b] dict_lookup_def map_of_first_pos)
  show ?thesis
  proof (cases "dict_lookup d k")
    case None
    let ?d = "set_chain d (bucket d k) ((k, v) # ?c) (d_count d + 1)"
    have "dict_put d k v = Inr (True, ?d)"
      using None pos by (simp add: dict_put_eq [OF inv k] first_pos_None)
    moreover have "dict_over K (Suc n) ?d"
    proof (rule dict_over_set_chain [OF d])
      show "dict_inv ?d" using c(1) n by (intro dict_inv_put [OF inv k]) simp
      show "distinct (map fst ((k, v) # ?c))"
        using None c(2) by (simp add: dict_lookup_def map_of_eq_None_iff)
    qed (use c K in auto)
    moreover have "dict_lookup ?d = (dict_lookup d)(k \<mapsto> v)"
      by (rule dict_lookup_update [OF inv]) simp
    ultimately show ?thesis using None by simp
  next
    case (Some w)
    then have "dict_put d k v = Inr (False, d)"
      using pos by (simp add: dict_put_eq [OF inv k] first_pos_None)
    then show ?thesis using Some dict_over_mono [OF d] by simp
  qed
qed

lemma dict_get_over:
  assumes K: "prefix_free K" "k \<in> K" and d: "dict_over K n d"
  shows "dict_get d k = Inr (dict_lookup d k)"
proof -
  have inv: "dict_inv d" and k: "0 \<notin> set k" using d K by (auto simp: dict_over_def prefix_free_def)
  show ?thesis
    by (simp add: dict_get_def dict_find_eq [OF inv k] first_pos_over [OF K d bucket_in [OF inv]]
        dict_lookup_def map_of_first_pos split: option.splits)
qed

lemma dict_step_del:
  assumes K: "prefix_free K" "k \<in> K" and d: "dict_over K n d"
  shows "\<exists>r d'. dict_step d (Del k) = Inr (r, d') \<and> dict_over K (Suc n) d' \<and>
    map_spec (dict_lookup d) (Del k) = (r, dict_lookup d')"
proof -
  have inv: "dict_inv d" and k: "0 \<notin> set k" using d K by (auto simp: dict_over_def prefix_free_def)
  note b = bucket_in [OF inv, of k]
  let ?c = "d_members d ! bucket d k"
  have c: "length ?c \<le> n" "distinct (map fst ?c)" "fst ` set ?c \<subseteq> K"
    using d b by (auto simp: dict_over_def)
  note pos = first_pos_over [OF K d b]
  show ?thesis
  proof (cases "first_pos (\<lambda>p. fst p = k) ?c")
    case None
    then have "dict_lookup d k = None" by (simp add: dict_lookup_def map_of_first_pos)
    then have "map_spec (dict_lookup d) (Del k) = (Deleted (- 1) None, dict_lookup d)"
      by (simp add: fun_upd_idem)
    then show ?thesis using None pos dict_over_mono [OF d] by (simp add: dict_del_eq [OF inv k])
  next
    case (Some i)
    let ?c' = "take i ?c @ drop (Suc i) ?c"
    let ?d = "set_chain d (bucket d k) ?c' (d_count d - 1)"
    have i: "i < length ?c" using first_pos_Some [OF Some] by simp
    have "dict_del d k = Inr (0, Some (snd (?c ! i)), ?d)"
      using Some pos by (simp add: dict_del_eq [OF inv k] Let_def)
    moreover have "dict_lookup d k = Some (snd (?c ! i))"
      using Some by (simp add: dict_lookup_def map_of_first_pos)
    moreover have "dict_over K (Suc n) ?d"
    proof (rule dict_over_set_chain [OF d dict_inv_del [OF inv i]])
      have "map fst ?c' = take i (map fst ?c) @ drop (Suc i) (map fst ?c)"
        by (simp add: take_map drop_map)
      then show "distinct (map fst ?c')"
        using c(2) by (auto dest: set_take_disj_set_drop_if_distinct [of _ i "Suc i"])
    qed (use c i in \<open>auto dest: in_set_takeD in_set_dropD\<close>)
    moreover have "dict_lookup ?d = (dict_lookup d)(k := None)"
      by (rule dict_lookup_update [OF inv]) (rule map_of_deleted [OF c(2) Some])
    ultimately show ?thesis by simp
  qed
qed

lemma dict_step_law:
  assumes "prefix_free K" "dict_over K n d" "op_key p \<in> K" "n < 4294967295"
  shows "\<exists>r d'. dict_step d p = Inr (r, d') \<and> dict_over K (Suc n) d' \<and>
    map_spec (dict_lookup d) p = (r, dict_lookup d')"
proof (cases p)
  case (Put k v)
  then show ?thesis using dict_step_put assms by (metis op_key.simps(1))
next
  case (Get k)
  then show ?thesis using dict_get_over [of K k n d] dict_over_mono [of K n d] assms by simp
next
  case (Del k)
  then show ?thesis using dict_step_del assms by (metis op_key.simps(3))
qed


interpretation dict: map_table dict_step "\<lambda>n d. prefix_free K \<and> dict_over K n d" dict_lookup K 4294967295
  for K by unfold_locales (use dict_step_law in blast)

text \<open>A successful insertion into a dictionary.\<close>

lemma dict_put_added:
  assumes "prefix_free K" "k \<in> K" "dict_over K n d" "n < 4294967295" "dict_put d k v = Inr (True, d')"
  shows "dict_over K (Suc n) d' \<and> dict_lookup d' = (dict_lookup d)(k \<mapsto> v)"
  using dict_step_put [OF assms(1-4), of v] assms(5) by (auto split: if_splits)

lemma dict_put_new:
  assumes "prefix_free K" "k \<in> K" "dict_over K n d" "n < 4294967295" "dict_lookup d k = None"
  shows "\<exists>d'. dict_put d k v = Inr (True, d') \<and> dict_over K (Suc n) d' \<and> dict_lookup d' = (dict_lookup d)(k \<mapsto> v)"
  using dict_step_put [OF assms(1-4), of v] assms(5) by (auto simp: rbind_eq_Inr)

lemma dict_over_create: "0 < max_count \<Longrightarrow> dict_over K 0 (dict_create max_count hash_fn)"
  by (simp add: dict_over_def dict_create_def dict_inv_init) (simp add: dict_init_def)

lemma dict_create_members [simp]: "d_members (dict_create max_count hash_fn) = replicate (unat max_count) []"
  by (simp add: dict_create_def dict_init_def)

lemma dict_inv_create: "0 < max_count \<Longrightarrow> dict_inv (dict_create max_count hash_fn)"
  by (simp add: dict_create_def dict_inv_init)

lemma bucket_create: "0 < max_count \<Longrightarrow> bucket (dict_create max_count hash_fn) k < unat max_count"
  using bucket_in [OF dict_inv_create, of max_count hash_fn k] by (simp add: dict_create_members)

lemma dict_lookup_create: "0 < max_count \<Longrightarrow> dict_lookup (dict_create max_count hash_fn) = Map.empty"
  by (simp add: dict_lookup_def bucket_create fun_eq_iff)

lemma dict_dump_eq: "dict_inv d \<Longrightarrow> dict_dump d = concat (d_members d)"
proof -
  assume inv: "dict_inv d"
  have "(if d_member_count d ! i > 0 then d_members d ! i else []) = d_members d ! i"
    if "i < unat (d_max_count d)" for i
    using inv that unat_of_nat_in(1) [of "length (d_members d ! i)"]
    by (auto simp: dict_inv_def word_less_nat_alt)
  then have "dict_dump d = concat (map (\<lambda>i. d_members d ! i) [0 ..< unat (d_max_count d)])"
    by (auto simp: dict_dump_def intro!: arg_cong [where f = concat])
  then show ?thesis using inv map_nth [of "d_members d"] by (simp add: dict_inv_def)
qed

section \<open>Properties of the dictionary\<close>

text \<open>
  (C7) A dictionary behaves as a map: for keys none of which is a proper prefix of another, any
  sequence of \<^verbatim>\<open>dict_put\<close>, \<^verbatim>\<open>dict_get\<close> and \<^verbatim>\<open>dict_del\<close> on a new dictionary answers as the same
  sequence on a finite map, whatever the hash function and the number of buckets: a key is added only
  once, a lookup finds the value added, a deletion removes it.
\<close>

theorem dict_refines_map:
  assumes "prefix_free K" "op_key ` set ps \<subseteq> K" "length ps \<le> 4294967295" "0 < max_count"
  shows "\<exists>d. run_steps dict_step (dict_create max_count hash_fn) ps = Inr (map_specs Map.empty ps, d)"
  using dict.run [of K 0 "dict_create max_count hash_fn" ps] assms
  by (auto simp: dict_over_create dict_lookup_create)

theorem dict_refines_map_witness:
  "\<exists>d. run_steps dict_step (dict_create 7 None) [Put [97, 98] (5 :: int), Get [97, 98], Put [99] 6, Del [97, 98], Get [97, 98]]
    = Inr ([Added True, Found (Some 5), Added True, Deleted 0 (Some 5), Found None], d)"
proof -
  have "prefix_free {[97, 98], [99 :: u8]}" by (simp add: prefix_free_def starts_def)
  from dict_refines_map [OF this, of "[Put [97, 98] (5 :: int), Get [97, 98], Put [99] 6, Del [97, 98], Get [97, 98]]" 7 None]
  show ?thesis by simp
qed

text \<open>
  Every operation on a well-formed dictionary returns, without a read out of bounds, and leaves
  it well-formed: every pair in the bucket of its key, the counters of the buckets and of the table
  equal to the numbers of pairs. This holds of any keys, prefixes of one another included.
\<close>

theorem dict_step_inv:
  assumes inv: "dict_inv d" and key: "0 \<notin> set (op_key p)"
    and room: "length (d_members d ! bucket d (op_key p)) < 4294967295"
  shows "\<exists>r d'. dict_step d p = Inr (r, d') \<and> dict_inv d'"
proof (cases p)
  case (Put k v)
  then show ?thesis using dict_inv_put [OF inv _ room] key inv by (simp add: dict_put_eq [OF inv])
next
  case (Get k)
  then show ?thesis using key inv by (simp add: dict_get_def dict_find_eq [OF inv] split: option.splits)
next
  case (Del k)
  then show ?thesis using key inv dict_inv_del [OF inv, of _ k]
    by (auto simp: dict_del_eq [OF inv] Let_def dest!: first_pos_Some split: option.splits)
qed

theorem dict_step_inv_witness:
  "\<exists>r d'. dict_step (dict_create 3 None) (Put [97] (1 :: int)) = Inr (r, d') \<and> dict_inv d'"
proof -
  let ?d = "dict_create 3 None :: int dict_t"
  have "bucket ?d [97] < unat (3 :: u32)" by (rule bucket_create) simp
  then have "d_members ?d ! bucket ?d [97] = []" by simp
  moreover have "dict_inv ?d" by (rule dict_inv_create) simp
  ultimately show ?thesis using dict_step_inv [of ?d "Put [97] 1"] by simp
qed

text \<open>
  The comparison of the keys stops at the length of the key searched for, so a stored key
  shadows its own prefixes in its bucket: in a dictionary of one bucket that holds \<open>k\<close>, adding a
  prefix of \<open>k\<close> is refused and looking it up gives the value stored under \<open>k\<close>.
\<close>

theorem dict_prefix_shadowed:
  fixes v w :: 'v
  assumes "0 \<notin> set k" "starts key k"
  shows "\<exists>d. run_steps dict_step (dict_create 1 hash_fn) [Put k v, Put key w, Get key] =
    Inr ([Added True, Added False, Found (Some v)], d)"
proof -
  have key: "0 \<notin> set key" using assms by (metis in_set_takeD starts_def)
  let ?d0 = "dict_create 1 hash_fn :: 'v dict_t"
  have inv: "dict_inv ?d0" by (simp add: dict_inv_create)
  have b: "bucket ?d0 x = 0" for x using bucket_create [of 1 hash_fn x] by simp
  have m: "d_members ?d0 = [[]]" by simp
  let ?d1 = "set_chain ?d0 0 [(k, v)] (d_count ?d0 + 1)"
  have put: "dict_put ?d0 k v = Inr (True, ?d1)" using assms by (simp add: dict_put_eq [OF inv] b m)
  have inv1: "dict_inv ?d1" using dict_inv_put [OF inv assms(1), of v] by (simp add: b m)
  have "dict_put ?d1 key w = Inr (False, ?d1)" "dict_get ?d1 key = Inr (Some v)"
    using assms by (simp_all add: dict_put_eq [OF inv1 key] dict_get_def dict_find_eq [OF inv1 key] b m)
  then show ?thesis using put by simp
qed

theorem dict_prefix_shadowed_witness:
  "\<exists>d. run_steps dict_step (dict_create 1 None) [Put [97, 98] (5 :: int), Put [97] 6, Get [97]] =
    Inr ([Added True, Added False, Found (Some 5)], d)"
  using dict_prefix_shadowed [of "[97, 98]" "[97]" None 5 6] by (simp add: starts_def)

text \<open>
  \<^verbatim>\<open>dict_deinit\<close> hands every stored value to the callback, each once, and leaves all the counters at
  zero.
\<close>

theorem dict_deinit_all:
  assumes inv: "dict_inv d"
  shows "fst (dict_deinit d) = map snd (concat (d_members d)) \<and> d_count (snd (dict_deinit d)) = 0 \<and>
    d_member_count (snd (dict_deinit d)) = replicate (unat (d_max_count d)) 0"
proof -
  have "d_member_count (snd (dict_deinit d)) = replicate (unat (d_max_count d)) 0"
    using inv by (intro nth_equalityI) (auto simp: dict_deinit_def dict_inv_def word_gt_0)
  then show ?thesis using inv by (simp add: dict_deinit_def dict_dump_eq) (simp add: dict_inv_def)
qed

theorem dict_deinit_all_witness:
  "fst (dict_deinit (dict_create 2 None :: int dict_t)) = []"
proof -
  have "dict_inv (dict_create 2 None :: int dict_t)" by (rule dict_inv_create) simp
  from dict_deinit_all [OF this] show ?thesis by simp
qed

end
