(* ===== verification/Hashmap.thy ===== *)
theory Hashmap
  imports Dict
begin

text \<open>
  Model of \<^verbatim>\<open>base/c_hashmap.c\<close> and \<^verbatim>\<open>base/c_hashmap.h\<close>: a hash map of byte strings with chaining. A pointer
  to \<open>n\<close> readable bytes is the list of these bytes, a null pointer \<open>None\<close>. A bucket is the list of
  its pairs along \<^verbatim>\<open>next\<close>. The hash and the comparison are the callbacks of the caller; a free
  callback is the event that it is called on a pointer.
\<close>

section \<open>c_hashmap.h and c_hashmap.c\<close>

record c_member_pair_t =
  p_key :: bytes
  p_val :: bytes

record 'e c_hashmap_t =
  h_max_count :: u64
  h_cur_count :: u64
  h_ptr :: "c_member_pair_t list list"
  h_hash_cb :: "bytes \<Rightarrow> u64 \<Rightarrow> u32"
  h_cmp_cb :: "bytes \<Rightarrow> bytes \<Rightarrow> u64 \<Rightarrow> int"
  h_key_free_cb :: "(bytes \<Rightarrow> 'e) option"
  h_val_free_cb :: "(bytes \<Rightarrow> 'e) option"

text \<open>\<^verbatim>\<open>memcpy(dst, src, n)\<close> into an object of \<open>n\<close> bytes.\<close>

definition memcpy_all :: "bytes \<Rightarrow> u64 \<Rightarrow> bytes res" where
  "memcpy_all src n = (if unat n \<le> length src then Inr (take (unat n) src) else Inl OutOfBounds)"

text \<open>\<^verbatim>\<open>c_member_pair_alloc\<close> copies the key into the value, too.\<close>

definition c_member_pair_alloc :: "bytes option \<Rightarrow> u64 \<Rightarrow> bytes option \<Rightarrow> u64 \<Rightarrow> c_member_pair_t option res" where
  "c_member_pair_alloc key key_sz val val_sz =
     (case (key, val) of
        (Some k, Some v) \<Rightarrow>
          if key_sz > 0 \<and> val_sz > 0
          then rbind (memcpy_all k key_sz) (\<lambda>pk.
               rbind (memcpy_all k val_sz) (\<lambda>pv. Inr (Some \<lparr>p_key = pk, p_val = pv\<rparr>)))
          else Inr None
      | _ \<Rightarrow> Inr None)"

text \<open>The loop of \<^verbatim>\<open>c_hashmap_jump_consistent\<close> is the one of \<^verbatim>\<open>dict_jump_consistent\<close>, with a 64-bit bound.\<close>

definition c_hashmap_jump_consistent :: "u64 \<Rightarrow> u64 \<Rightarrow> u64 res" where
  "c_hashmap_jump_consistent key num_buckets =
     (case dict_jump_loop key (unat num_buckets) (- 1) 0 of
        None \<Rightarrow> Inl NoReturn
      | Some b \<Rightarrow> Inr (word_of_int (if b < 0 then NOT b + 1 else b)))"

definition bucket_at :: "'e c_hashmap_t \<Rightarrow> u32 \<Rightarrow> c_member_pair_t list res" where
  "bucket_at d index =
     (if unat index < length (h_ptr d) then Inr (h_ptr d ! unat index) else Inl OutOfBounds)"

text \<open>\<^verbatim>\<open>c_hashmap_search\<close>: the position of the pair in its bucket.\<close>

definition c_hashmap_search :: "'e c_hashmap_t \<Rightarrow> u32 \<Rightarrow> bytes \<Rightarrow> u64 \<Rightarrow> nat option res" where
  "c_hashmap_search d index key key_sz =
     rbind (bucket_at d index) (\<lambda>chain.
     Inr (first_pos (\<lambda>p. h_cmp_cb d (p_key p) key key_sz = 0) chain))"

definition c_hashmap_get_index :: "'e c_hashmap_t \<Rightarrow> bytes \<Rightarrow> u64 \<Rightarrow> u32 res" where
  "c_hashmap_get_index d key key_sz =
     rbind (c_hashmap_jump_consistent (ucast (h_hash_cb d key key_sz)) (h_max_count d)) (\<lambda>i. Inr (ucast i))"

definition c_hashmap_set_free_cb ::
    "'e c_hashmap_t option \<Rightarrow> (bytes \<Rightarrow> 'e) option \<Rightarrow> (bytes \<Rightarrow> 'e) option \<Rightarrow> 'e c_hashmap_t option" where
  "c_hashmap_set_free_cb d key_free_cb val_free_cb =
     map_option (\<lambda>d. d\<lparr>h_key_free_cb := key_free_cb, h_val_free_cb := val_free_cb\<rparr>) d"

definition c_member_pair_free ::
    "c_member_pair_t \<Rightarrow> (bytes \<Rightarrow> 'e) option \<Rightarrow> (bytes \<Rightarrow> 'e) option \<Rightarrow> 'e list" where
  "c_member_pair_free pair key_free val_free =
     (case key_free of None \<Rightarrow> [] | Some f \<Rightarrow> [f (p_key pair)]) @
     (case val_free of None \<Rightarrow> [] | Some f \<Rightarrow> [f (p_val pair)])"

text \<open>\<^verbatim>\<open>c_hashmap_init\<close> leaves \<^verbatim>\<open>max_count\<close> as it finds it.\<close>

definition c_hashmap_init :: "'e c_hashmap_t option \<Rightarrow> u64 \<Rightarrow> (bytes \<Rightarrow> u64 \<Rightarrow> u32) option \<Rightarrow>
    (bytes \<Rightarrow> bytes \<Rightarrow> u64 \<Rightarrow> int) option \<Rightarrow> int \<times> 'e c_hashmap_t option" where
  "c_hashmap_init d max_count hash_cb cmp_cb =
     (case (d, hash_cb, cmp_cb) of
        (Some d, Some h, Some c) \<Rightarrow>
          if max_count > 0
          then (0, Some (d\<lparr>h_ptr := replicate (unat max_count) [], h_hash_cb := h, h_cmp_cb := c,
                           h_cur_count := 0, h_key_free_cb := None, h_val_free_cb := None\<rparr>))
          else (- 1, Some d)
      | _ \<Rightarrow> (- 1, d))"

text \<open>\<^verbatim>\<open>c_hashmap_alloc\<close> starts from a structure of zeros; the callbacks of such a structure are null and are never called.\<close>

definition c_hashmap_zero :: "'e c_hashmap_t" where
  "c_hashmap_zero = \<lparr>h_max_count = 0, h_cur_count = 0, h_ptr = [], h_hash_cb = (\<lambda>_ _. 0),
     h_cmp_cb = (\<lambda>_ _ _. 0), h_key_free_cb = None, h_val_free_cb = None\<rparr>"

definition c_hashmap_alloc :: "u64 \<Rightarrow> (bytes \<Rightarrow> u64 \<Rightarrow> u32) option \<Rightarrow>
    (bytes \<Rightarrow> bytes \<Rightarrow> u64 \<Rightarrow> int) option \<Rightarrow> 'e c_hashmap_t option" where
  "c_hashmap_alloc max_count hash_cb cmp_cb =
     (if max_count > 0 \<and> hash_cb \<noteq> None \<and> cmp_cb \<noteq> None
      then let (r, m) = c_hashmap_init (Some c_hashmap_zero) max_count hash_cb cmp_cb
           in if r \<noteq> 0 then None else m
      else None)"

text \<open>
  \<^verbatim>\<open>c_hashmap_put\<close>: the copies that \<^verbatim>\<open>c_member_pair_alloc\<close> makes are replaced by fresh blocks of zeros,
  eight times as long as the key and the value.
\<close>

definition c_hashmap_put :: "'e c_hashmap_t option \<Rightarrow> bytes option \<Rightarrow> u64 \<Rightarrow> bytes option \<Rightarrow> u64 \<Rightarrow>
    (int \<times> 'e c_hashmap_t option) res" where
  "c_hashmap_put d key key_sz val val_sz =
     (case (d, key, val) of
        (Some m, Some k, Some v) \<Rightarrow>
          if key_sz > 0 \<and> val_sz > 0
          then if h_cur_count m < h_max_count m
               then rbind (c_member_pair_alloc key key_sz val val_sz) (\<lambda>pair.
                    case pair of
                      None \<Rightarrow> Inl OutOfBounds
                    | Some p \<Rightarrow>
                        let p = p\<lparr>p_key := replicate (unat (8 * key_sz)) 0, p_val := replicate (unat (8 * val_sz)) 0\<rparr> in
                        rbind (c_hashmap_get_index m k key_sz) (\<lambda>index.
                        rbind (bucket_at m index) (\<lambda>chain.
                        Inr (0, Some (m\<lparr>h_ptr := (h_ptr m)[unat index := p # chain],
                                         h_cur_count := h_cur_count m + 1\<rparr>)))))
               else Inr (- 1, d)
          else Inr (- 1, d)
      | _ \<Rightarrow> Inr (- 1, d))"

definition c_hashmap_get :: "'e c_hashmap_t option \<Rightarrow> bytes \<Rightarrow> u64 \<Rightarrow> bytes option res" where
  "c_hashmap_get d key key_sz =
     (case d of
        None \<Rightarrow> Inr None
      | Some m \<Rightarrow>
          if h_cur_count m > 0
          then rbind (c_hashmap_get_index m key key_sz) (\<lambda>index.
               rbind (bucket_at m index) (\<lambda>chain.
               if chain \<noteq> []
               then rbind (c_hashmap_search m index key key_sz) (\<lambda>dst.
                    Inr (map_option (\<lambda>i. p_val (chain ! i)) dst))
               else Inr None))
          else Inr None)"

text \<open>\<^verbatim>\<open>c_hashmap_del\<close>: its result, the map, the calls of the free callbacks.\<close>

definition c_hashmap_del :: "'e c_hashmap_t option \<Rightarrow> bytes option \<Rightarrow> u64 \<Rightarrow>
    (int \<times> 'e c_hashmap_t option \<times> 'e list) res" where
  "c_hashmap_del d key key_sz =
     (case (d, key) of
        (Some m, Some k) \<Rightarrow>
          rbind (c_hashmap_get_index m k key_sz) (\<lambda>index.
          rbind (bucket_at m index) (\<lambda>chain.
          case first_pos (\<lambda>p. h_cmp_cb m (p_key p) k key_sz = 0) chain of
            None \<Rightarrow> Inr (0, Some m, [])
          | Some i \<Rightarrow>
              Inr (0, Some (m\<lparr>h_ptr := (h_ptr m)[unat index := take i chain @ drop (Suc i) chain],
                               h_cur_count := h_cur_count m - 1\<rparr>),
                   c_member_pair_free (chain ! i) (h_key_free_cb m) (h_val_free_cb m))))
      | _ \<Rightarrow> Inr (- 1, d, []))"

text \<open>The pairs that the loops of \<^verbatim>\<open>c_hashmap_traverse\<close> and \<^verbatim>\<open>c_hashmap_deinit\<close> visit.\<close>

definition visited :: "'e c_hashmap_t \<Rightarrow> c_member_pair_t list res" where
  "visited m =
     (if unat (h_max_count m) \<le> length (h_ptr m)
      then Inr (concat (take (unat (h_max_count m)) (h_ptr m))) else Inl OutOfBounds)"

definition c_hashmap_traverse :: "'e c_hashmap_t option \<Rightarrow> (int \<times> (bytes \<times> bytes) list) res" where
  "c_hashmap_traverse d =
     (case d of
        None \<Rightarrow> Inr (- 1, [])
      | Some m \<Rightarrow>
          if h_cur_count m > 0
          then rbind (visited m) (\<lambda>ps. Inr (0, map (\<lambda>p. (p_key p, p_val p)) ps))
          else Inr (- 1, []))"

definition c_hashmap_deinit :: "'e c_hashmap_t option \<Rightarrow> (int \<times> 'e list) res" where
  "c_hashmap_deinit d =
     (case d of
        None \<Rightarrow> Inr (- 1, [])
      | Some m \<Rightarrow>
          if h_cur_count m > 0
          then rbind (visited m) (\<lambda>ps.
               Inr (0, concat (map (\<lambda>p. c_member_pair_free p (h_key_free_cb m) (h_val_free_cb m)) ps)))
          else Inr (- 1, []))"

text \<open>\<^verbatim>\<open>c_hashmap_destroy\<close>: whether the structure is freed, and the calls of the free callbacks.\<close>

definition c_hashmap_destroy :: "'e c_hashmap_t option \<Rightarrow> (bool \<times> 'e list) res" where
  "c_hashmap_destroy d = rbind (c_hashmap_deinit d) (\<lambda>(r, es). Inr (r \<noteq> - 1, es))"

definition c_hashmap_count :: "'e c_hashmap_t option \<Rightarrow> u64" where
  "c_hashmap_count d = (case d of None \<Rightarrow> - 1 | Some m \<Rightarrow> h_cur_count m)"

definition c_hashmap_empty :: "'e c_hashmap_t \<Rightarrow> bool" where
  "c_hashmap_empty d = (if h_cur_count d \<le> 0 then False else True)"

section \<open>The invariant\<close>

text \<open>
  A map with as many buckets as \<^verbatim>\<open>max_count\<close> says, fewer than \<open>2^32\<close>, and a count of all the pairs, no more than
  \<^verbatim>\<open>max_count\<close>.
\<close>

definition hm_inv :: "'e c_hashmap_t \<Rightarrow> bool" where
  "hm_inv m \<longleftrightarrow> 0 < unat (h_max_count m) \<and> unat (h_max_count m) < 4294967296 \<and>
     length (h_ptr m) = unat (h_max_count m) \<and>
     unat (h_cur_count m) = length (concat (h_ptr m)) \<and>
     length (concat (h_ptr m)) \<le> unat (h_max_count m)"

lemma hashmap_jump_returns:
  assumes "0 < unat n" "unat n < 4294967296"
  shows "\<exists>i. c_hashmap_jump_consistent key n = Inr i \<and> unat i < unat n"
proof -
  obtain r where r: "dict_jump_loop key (unat n) (- 1) 0 = Some r" "0 \<le> r" "r < int (unat n)"
    using dict_jump_loop_returns [of "unat n" "- 1" 0 key] assms by auto
  have "word_of_int r = (of_nat (nat r) :: u64)" using r(2) by simp
  moreover have "unat (of_nat (nat r) :: u64) = nat r"
    by (rule unat_of_nat_in) (use r assms(2) in linarith)
  ultimately have "unat (word_of_int r :: u64) = nat r" by (simp only:)
  moreover have "nat r < unat n" using r by linarith
  ultimately show ?thesis using r by (simp add: c_hashmap_jump_consistent_def)
qed

lemma get_index_in:
  assumes "hm_inv m"
  obtains index where "c_hashmap_get_index m key key_sz = Inr index" "unat index < length (h_ptr m)"
    "bucket_at m index = Inr (h_ptr m ! unat index)"
proof -
  obtain i where i: "c_hashmap_jump_consistent (ucast (h_hash_cb m key key_sz)) (h_max_count m) = Inr i"
      "unat i < unat (h_max_count m)"
    using hashmap_jump_returns assms unfolding hm_inv_def by blast
  have "unat (ucast i :: u32) = unat i" using i(2) assms by (simp add: unat_ucast_down hm_inv_def)
  then show thesis using that [of "ucast i"] i assms
    by (simp add: c_hashmap_get_index_def bucket_at_def hm_inv_def)
qed

lemma hm_inv_set_bucket:
  assumes "hm_inv m" "i < length (h_ptr m)"
    and "length (concat ((h_ptr m)[i := c])) \<le> unat (h_max_count m)"
    and "unat n = length (concat ((h_ptr m)[i := c]))"
  shows "hm_inv (m\<lparr>h_ptr := (h_ptr m)[i := c], h_cur_count := n\<rparr>)"
  using assms by (simp add: hm_inv_def)


text \<open>What a successful insertion does.\<close>

definition zero_pair :: "u64 \<Rightarrow> u64 \<Rightarrow> c_member_pair_t" where
  "zero_pair key_sz val_sz =
     \<lparr>p_key = replicate (unat (8 * key_sz)) 0, p_val = replicate (unat (8 * val_sz)) 0\<rparr>"

lemma hashmap_put_eq:
  assumes inv: "hm_inv m" and k: "0 < key_sz" "unat key_sz \<le> length k" and v: "0 < val_sz" "unat val_sz \<le> length k"
    and room: "h_cur_count m < h_max_count m" and ix: "c_hashmap_get_index m k key_sz = Inr index"
    "bucket_at m index = Inr (h_ptr m ! unat index)"
  shows "c_hashmap_put (Some m) (Some k) key_sz (Some w) val_sz =
    Inr (0, Some (m\<lparr>h_ptr := (h_ptr m)[unat index := zero_pair key_sz val_sz # h_ptr m ! unat index],
                    h_cur_count := h_cur_count m + 1\<rparr>))"
  using assms by (simp add: c_hashmap_put_def c_member_pair_alloc_def memcpy_all_def zero_pair_def)

lemma hm_inv_put:
  assumes inv: "hm_inv m" and room: "h_cur_count m < h_max_count m" and i: "i < length (h_ptr m)"
  shows "hm_inv (m\<lparr>h_ptr := (h_ptr m)[i := p # h_ptr m ! i], h_cur_count := h_cur_count m + 1\<rparr>)"
proof (rule hm_inv_set_bucket [OF inv i])
  have lt: "unat (h_cur_count m) < unat (h_max_count m)" using room by (simp add: word_less_nat_alt)
  have c: "length (concat ((h_ptr m)[i := p # h_ptr m ! i])) = Suc (length (concat (h_ptr m)))"
    using length_concat_update [OF i, of "p # h_ptr m ! i"] by simp
  show "length (concat ((h_ptr m)[i := p # h_ptr m ! i])) \<le> unat (h_max_count m)"
    unfolding c using lt inv by (simp add: hm_inv_def)
  have "unat (h_cur_count m + 1) = unat (h_cur_count m) + unat (1 :: u64)"
    using lt inv by (intro unat_add_nowrap) (simp add: hm_inv_def)
  then show "unat (h_cur_count m + 1) = length (concat ((h_ptr m)[i := p # h_ptr m ! i]))"
    unfolding c using inv by (simp add: hm_inv_def)
qed

lemma hm_inv_del:
  assumes inv: "hm_inv m" and i: "i < length (h_ptr m)" and j: "j < length (h_ptr m ! i)"
  shows "hm_inv (m\<lparr>h_ptr := (h_ptr m)[i := take j (h_ptr m ! i) @ drop (Suc j) (h_ptr m ! i)],
    h_cur_count := h_cur_count m - 1\<rparr>)"
proof (rule hm_inv_set_bucket [OF inv i])
  let ?c = "take j (h_ptr m ! i) @ drop (Suc j) (h_ptr m ! i)"
  have "length (h_ptr m ! i) = Suc (length ?c)" using j by simp
  then have c: "length (concat (h_ptr m)) = Suc (length (concat ((h_ptr m)[i := ?c])))"
    using length_concat_update [OF i, of ?c] by linarith
  then show "length (concat ((h_ptr m)[i := ?c])) \<le> unat (h_max_count m)"
    using inv by (simp add: hm_inv_def)
  have "unat (h_cur_count m) = length (concat (h_ptr m))" using inv by (simp add: hm_inv_def)
  then have pos: "unat (h_cur_count m) = Suc (length (concat ((h_ptr m)[i := ?c])))" using c by linarith
  then have "h_cur_count m \<noteq> 0" by auto
  then have "unat (h_cur_count m - 1) = unat (h_cur_count m) - 1" by (rule unat_minus_one)
  then show "unat (h_cur_count m - 1) = length (concat ((h_ptr m)[i := ?c]))" using pos by linarith
qed

section \<open>Properties of the hash map\<close>

text \<open>The first pair of a chain that the comparison takes for the key, and the chain without it.\<close>

definition hits :: "'e c_hashmap_t \<Rightarrow> bytes \<Rightarrow> u64 \<Rightarrow> c_member_pair_t \<Rightarrow> bool" where
  "hits m k key_sz p \<longleftrightarrow> h_cmp_cb m (p_key p) k key_sz = 0"

fun drop_first :: "('a \<Rightarrow> bool) \<Rightarrow> 'a list \<Rightarrow> 'a list" where
  "drop_first P [] = []"
| "drop_first P (x # xs) = (if P x then xs else x # drop_first P xs)"

lemma first_pos_find:
  "(case first_pos P xs of None \<Rightarrow> find P xs = None \<and> drop_first P xs = xs
    | Some i \<Rightarrow> i < length xs \<and> find P xs = Some (xs ! i) \<and> drop_first P xs = take i xs @ drop (Suc i) xs)"
  by (induction xs) (auto split: option.splits)

lemma hashmap_del_eq:
  assumes ix: "c_hashmap_get_index m k key_sz = Inr index" "bucket_at m index = Inr chain"
  shows "c_hashmap_del (Some m) (Some k) key_sz =
    (case find (hits m k key_sz) chain of
       None \<Rightarrow> Inr (0, Some m, [])
     | Some p \<Rightarrow> Inr (0, Some (m\<lparr>h_ptr := (h_ptr m)[unat index := drop_first (hits m k key_sz) chain],
                              h_cur_count := h_cur_count m - 1\<rparr>),
                     c_member_pair_free p (h_key_free_cb m) (h_val_free_cb m)))"
proof -
  have "(\<lambda>p. h_cmp_cb m (p_key p) k key_sz = 0) = hits m k key_sz" by (simp add: hits_def fun_eq_iff)
  then show ?thesis using first_pos_find [of "hits m k key_sz" chain] ix
    by (auto simp: c_hashmap_del_def split: option.splits)
qed

lemma hashmap_get_eq:
  assumes inv: "hm_inv m" and ix: "c_hashmap_get_index m k key_sz = Inr index" "bucket_at m index = Inr (h_ptr m ! unat index)"
    and i: "unat index < length (h_ptr m)"
  shows "c_hashmap_get (Some m) k key_sz = Inr (map_option p_val (find (hits m k key_sz) (h_ptr m ! unat index)))"
proof (cases "h_ptr m ! unat index = []")
  case True
  then show ?thesis using ix by (simp add: c_hashmap_get_def)
next
  case False
  then have "length (concat (h_ptr m)) \<noteq> 0" using nth_mem [OF i] by auto
  then have "h_cur_count m > 0" using inv by (auto simp: hm_inv_def word_gt_0)
  moreover have "(\<lambda>p. h_cmp_cb m (p_key p) k key_sz = 0) = hits m k key_sz" by (simp add: hits_def fun_eq_iff)
  ultimately show ?thesis using False ix first_pos_find [of "hits m k key_sz" "h_ptr m ! unat index"]
    by (auto simp: c_hashmap_get_def c_hashmap_search_def split: option.splits)
qed

lemma hm_inv_drop_first:
  assumes "hm_inv m" "i < length (h_ptr m)" "find P (h_ptr m ! i) = Some p"
  shows "hm_inv (m\<lparr>h_ptr := (h_ptr m)[i := drop_first P (h_ptr m ! i)], h_cur_count := h_cur_count m - 1\<rparr>)"
  using first_pos_find [of P "h_ptr m ! i"] hm_inv_del [OF assms(1,2)] assms(3) by (auto split: option.splits)


definition some_map :: "unit c_hashmap_t" where
  "some_map = \<lparr>h_max_count = 3, h_cur_count = 0, h_ptr = [[], [], []], h_hash_cb = (\<lambda>k n. 0),
     h_cmp_cb = (\<lambda>a b n. if take (unat n) a = take (unat n) b then 0 else 1), h_key_free_cb = None, h_val_free_cb = None\<rparr>"

lemma some_map_inv: "hm_inv some_map"
  by (simp add: hm_inv_def some_map_def)


lemma hashmap_alloc_full:
  "c_hashmap_alloc max_count hash_cb cmp_cb = Some m \<Longrightarrow> h_max_count m = 0 \<and> h_cur_count m = 0"
  by (auto simp: c_hashmap_alloc_def c_hashmap_init_def c_hashmap_zero_def split: if_splits)

lemma hashmap_put_full:
  "\<not> h_cur_count m < h_max_count m \<Longrightarrow> c_hashmap_put (Some m) key key_sz val val_sz = Inr (- 1, Some m)"
  by (simp add: c_hashmap_put_def split: option.splits)

text \<open>
  (C40) \<^verbatim>\<open>c_hashmap_alloc\<close> never sets \<^verbatim>\<open>max_count\<close>, so every insertion into a map it returned is refused and
  leaves the map as it is, and every lookup finds nothing.
\<close>

theorem hashmap_alloc_refuses_put:
  assumes "c_hashmap_alloc max_count hash_cb cmp_cb = Some m"
  shows "c_hashmap_put (Some m) key key_sz val val_sz = Inr (- 1, Some m) \<and> c_hashmap_get (Some m) k n = Inr None"
  using hashmap_alloc_full [OF assms] by (simp add: hashmap_put_full c_hashmap_get_def)

theorem hashmap_alloc_refuses_put_witness:
  "\<exists>m :: unit c_hashmap_t. c_hashmap_alloc 8 (Some (\<lambda>k n. 5)) (Some (\<lambda>a b n. 0)) = Some m \<and>
    c_hashmap_put (Some m) (Some [1]) 1 (Some [2]) 1 = Inr (- 1, Some m)"
proof -
  obtain m :: "unit c_hashmap_t" where m: "c_hashmap_alloc 8 (Some (\<lambda>k n. 5)) (Some (\<lambda>a b n. 0)) = Some m"
    by (simp add: c_hashmap_alloc_def c_hashmap_init_def word_less_nat_alt)
  then show ?thesis using hashmap_alloc_refuses_put [OF m, of "Some [1]" 1 "Some [2]" 1] by blast
qed

text \<open>
  Also in a map with room an insertion is lost: the stored key is a block of zeros, so a lookup
  of the key just inserted, when the comparison tells it from zeros, gives what it gave before.
\<close>

theorem hashmap_put_is_lost:
  assumes inv: "hm_inv m" and k: "0 < key_sz" "unat key_sz \<le> length k" and v: "0 < val_sz" "unat val_sz \<le> length k"
    and room: "h_cur_count m < h_max_count m"
    and cmp: "h_cmp_cb m (replicate (unat (8 * key_sz)) 0) k key_sz \<noteq> 0"
  shows "\<exists>m'. c_hashmap_put (Some m) (Some k) key_sz (Some w) val_sz = Inr (0, Some m') \<and>
    c_hashmap_get (Some m') k key_sz = c_hashmap_get (Some m) k key_sz"
proof -
  obtain index where ix: "c_hashmap_get_index m k key_sz = Inr index" "unat index < length (h_ptr m)"
      "bucket_at m index = Inr (h_ptr m ! unat index)" using get_index_in [OF inv] .
  let ?c = "h_ptr m ! unat index"
  let ?m = "m\<lparr>h_ptr := (h_ptr m)[unat index := zero_pair key_sz val_sz # ?c], h_cur_count := h_cur_count m + 1\<rparr>"
  have ix': "c_hashmap_get_index ?m k key_sz = Inr index" "bucket_at ?m index = Inr (zero_pair key_sz val_sz # ?c)"
    using ix by (simp_all add: c_hashmap_get_index_def bucket_at_def)
  have "hm_inv ?m" by (rule hm_inv_put [OF inv room ix(2)])
  then have "unat (h_cur_count ?m) \<noteq> 0"
    using length_concat_update [OF ix(2), of "zero_pair key_sz val_sz # ?c"] by (simp add: hm_inv_def)
  then have pos: "h_cur_count ?m > 0" by (simp add: word_gt_0 unat_eq_zero)
  have "h_cur_count m = 0 \<Longrightarrow> ?c = []"
    using inv ix(2) nth_mem [OF ix(2)] by (auto simp: hm_inv_def)
  then have "c_hashmap_get (Some ?m) k key_sz = c_hashmap_get (Some m) k key_sz"
    using ix ix' pos cmp
    by (cases "h_cur_count m = 0")
      (auto simp: c_hashmap_get_def c_hashmap_search_def zero_pair_def option.map_comp comp_def word_gt_0)
  then show ?thesis using hashmap_put_eq [OF inv k v room ix(1,3), of w] by blast
qed

theorem hashmap_put_is_lost_witness:
  "\<exists>m'. c_hashmap_put (Some some_map) (Some [1, 2]) 2 (Some [7]) 1 = Inr (0, Some m') \<and>
    c_hashmap_get (Some m') [1, 2] 2 = Inr None"
proof -
  have "c_hashmap_get (Some some_map) [1, 2] 2 = Inr None" by (simp add: c_hashmap_get_def some_map_def)
  moreover have "h_cmp_cb some_map (replicate (unat (8 * 2 :: u64)) 0) [1, 2] 2 \<noteq> 0"
    by (simp add: some_map_def) (simp add: numeral_2_eq_2)
  moreover have "h_cur_count some_map < h_max_count some_map" by (simp add: some_map_def word_less_nat_alt)
  ultimately show ?thesis using hashmap_put_is_lost [OF some_map_inv, of 2 "[1, 2]" 1 "[7]"]
    by (simp add: word_less_nat_alt)
qed

end
