(* ===== verification/Utils.thy ===== *)
theory Utils
  imports Prelude
begin

text \<open>
  Model of \<^verbatim>\<open>base/utils.c\<close>: the generator of identifiers, the test for digits and the splitting of
  strings. A C string is the list of its bytes without the terminator.
\<close>

section \<open>utils.c\<close>

definition runes :: bytes where
  "runes = [113, 119, 101, 114, 116, 121, 117, 105, 111, 112, 97, 115, 100, 102, 103, 104, 106, 107,
     108, 122, 120, 99, 118, 98, 110, 109, 48, 57, 56, 55, 54, 53, 52, 51, 50, 49]"

text \<open>The loop of \<^verbatim>\<open>gen_uuid\<close>. \<^verbatim>\<open>rand_r\<close> of the C library gives a number and the next seed.\<close>

fun uuid_loop :: "(u32 \<Rightarrow> u32 \<times> u32) \<Rightarrow> nat \<Rightarrow> u32 \<Rightarrow> bytes" where
  "uuid_loop rand_r 0 seed = []"
| "uuid_loop rand_r (Suc n) seed =
     (let (r, seed') = rand_r seed in runes ! (unat r mod length runes) # uuid_loop rand_r n seed')"

text \<open>\<^verbatim>\<open>gen_uuid\<close>: its result and the content of the buffer of \<open>n\<close> bytes or more.\<close>

definition gen_uuid :: "(u32 \<Rightarrow> u32 \<times> u32) \<Rightarrow> bytes option \<Rightarrow> nat \<Rightarrow> (int \<times> bytes option) res" where
  "gen_uuid rand_r buf n =
     (case buf of
        Some b \<Rightarrow>
          if n > 0
          then if n \<le> length b then Inr (0, Some (uuid_loop rand_r n 0x19610910 @ drop n b)) else Inl OutOfBounds
          else Inr (- 1, buf)
      | None \<Rightarrow> Inr (- 1, None))"

definition isdigit :: "u8 \<Rightarrow> bool" where
  "isdigit c \<longleftrightarrow> 48 \<le> c \<and> c \<le> 57"

fun digits_loop :: "bytes \<Rightarrow> nat \<Rightarrow> nat \<Rightarrow> bool res" where
  "digits_loop buf 0 i = Inr True"
| "digits_loop buf (Suc n) i =
     rbind (rd 1 (!) buf i) (\<lambda>c. if \<not> isdigit c then Inr False else digits_loop buf n (Suc i))"

definition is_digit :: "bytes option \<Rightarrow> nat \<Rightarrow> bool res" where
  "is_digit buf n =
     (case buf of None \<Rightarrow> Inr False | Some b \<Rightarrow> if n \<le> 0 then Inr False else digits_loop b n 0)"

definition STRING_SPLIT_MAX_COUNT :: nat where
  "STRING_SPLIT_MAX_COUNT = 4096"

text \<open>
  The loop of \<^verbatim>\<open>string_split\<close>: \<open>tmp\<close> is the part of the table that is filled, \<open>j\<close> its length, \<open>k\<close> the start
  of the current field. A field is a block of \<open>i - k + 1\<close> zeros into which the field is copied;
  then a terminator is stored at index \<open>i\<close> of the block.
\<close>

fun split_loop :: "bytes \<Rightarrow> u8 \<Rightarrow> nat \<Rightarrow> nat \<Rightarrow> nat \<Rightarrow> bytes list \<Rightarrow> (nat \<times> bytes list) res" where
  "split_loop buf delimit 0 i k tmp = Inr (k, tmp)"
| "split_loop buf delimit (Suc n) i k tmp =
     (if buf ! i = delimit
      then if length tmp < STRING_SPLIT_MAX_COUNT
           then let field = strncpy (replicate (i - k + 1) 0) (drop k buf) (i - k) in
                if i < length field
                then split_loop buf delimit n (Suc i) (Suc i) (tmp @ [field[i := 0]])
                else Inl OutOfBounds
           else Inl OutOfBounds
      else split_loop buf delimit n (Suc i) k tmp)"

text \<open>
  \<^verbatim>\<open>string_split\<close>: its result and the fields stored through \<^verbatim>\<open>ptr\<close> and \<^verbatim>\<open>count\<close>, \<open>None\<close> when these are left
  alone. \<^verbatim>\<open>strdup\<close> copies a block up to its terminator.
\<close>

definition string_split :: "bytes option \<Rightarrow> u8 \<Rightarrow> bool \<Rightarrow> (int \<times> bytes list option) res" where
  "string_split buf delimit has_ptr =
     (case buf of
        Some b \<Rightarrow>
          if has_ptr
          then rbind (split_loop b delimit (length b) 0 0 []) (\<lambda>(k, tmp).
               rbind (if tmp \<noteq> [] \<and> k < length b
                      then if length tmp < STRING_SPLIT_MAX_COUNT
                           then Inr (tmp @ [strncpy (replicate (length b - k + 1) 0) (drop k b) (length b - k)])
                           else Inl OutOfBounds
                      else Inr tmp) (\<lambda>tmp.
               if tmp \<noteq> [] then Inr (0, Some (map (takeWhile (\<lambda>c. c \<noteq> 0)) tmp)) else Inr (0, None)))
          else Inr (- 1, None)
      | None \<Rightarrow> Inr (- 1, None))"

section \<open>Lemmas\<close>

lemma split_loop_skip:
  assumes "\<forall>j. i \<le> j \<and> j < i + n \<longrightarrow> buf ! j \<noteq> delimit"
  shows "split_loop buf delimit (n + m) i k tmp = split_loop buf delimit m (i + n) k tmp"
  using assms by (induction n arbitrary: i) auto

lemma strncpy_field:
  assumes "n \<le> length s" "0 \<notin> set s"
  shows "strncpy (replicate (n + 1) 0) s n = take n s @ [0]"
proof -
  have "takeWhile (\<lambda>b. b \<noteq> 0) s = s" using assms(2) by (auto simp: takeWhile_eq_all_conv)
  then have "strncpy (replicate (n + 1) 0) s n = take n s @ replicate (n - n) 0 @ drop n (replicate (n + 1) 0)"
    using assms(1) by (simp only: strncpy_def Let_def length_take min_absorb2)
  then show ?thesis by (simp only: drop_replicate) simp
qed

lemma length_strncpy: "length (strncpy (replicate (n + 1) 0) s n) = n + 1"
  by (simp add: strncpy_def Let_def)

lemma split_loop_overflow:
  assumes "buf ! i = d" "k \<le> i" "0 < k"
  shows "split_loop buf d (Suc n) i k tmp = Inl OutOfBounds"
proof -
  have "\<not> i < length (strncpy (replicate (i - k + 1) 0) (drop k buf) (i - k))"
    unfolding length_strncpy using assms(2,3) by linarith
  then show ?thesis using assms(1) by (simp only: split_loop.simps Let_def if_True if_False if_cancel refl)
qed

lemma takeWhile_field: "0 \<notin> set s \<Longrightarrow> takeWhile (\<lambda>c. c \<noteq> 0) (s @ [0]) = (s :: bytes)"
  by (induction s) auto

lemma split_loop_first:
  assumes "d \<notin> set a" "0 \<notin> set (a @ d # b)"
  shows "split_loop (a @ d # b) d (length (a @ d # b)) 0 0 [] =
    split_loop (a @ d # b) d (length b) (Suc (length a)) (Suc (length a)) [a @ [0]]"
proof -
  have "split_loop (a @ d # b) d (length a + Suc (length b)) 0 0 [] =
      split_loop (a @ d # b) d (Suc (length b)) (0 + length a) 0 []"
    by (rule split_loop_skip) (use assms(1) in \<open>auto simp: nth_append\<close>)
  moreover have "strncpy (replicate (length a + 1) 0) (a @ d # b) (length a) = a @ [0]"
    using strncpy_field [of "length a" "a @ d # b"] assms(2) by simp
  ultimately show ?thesis by (simp add: STRING_SPLIT_MAX_COUNT_def)
qed

lemma split_loop_second:
  assumes "b = b1 @ d # b2" "d \<notin> set b1"
  shows "split_loop (a @ d # b) d (length b) (Suc (length a)) (Suc (length a)) [x] = Inl OutOfBounds"
proof -
  let ?buf = "a @ d # b"
  have nth: "?buf ! (Suc (length a) + j) = b ! j" for j by (simp add: nth_append)
  have "split_loop ?buf d (length b1 + Suc (length b2)) (Suc (length a)) (Suc (length a)) [x] =
      split_loop ?buf d (Suc (length b2)) (Suc (length a) + length b1) (Suc (length a)) [x]"
  proof (rule split_loop_skip, intro allI impI)
    fix j
    assume j: "Suc (length a) \<le> j \<and> j < Suc (length a) + length b1"
    then obtain i where "j = Suc (length a) + i" "i < length b1" by (metis add_less_cancel_left le_Suc_ex)
    then show "?buf ! j \<noteq> d" using nth [of i] assms by (auto simp: nth_append)
  qed
  moreover have "?buf ! (Suc (length a) + length b1) = d" using nth [of "length b1"] assms(1) by simp
  ultimately show ?thesis
    using assms(1) split_loop_overflow [of ?buf "Suc (length a) + length b1" d "Suc (length a)" "length b2" "[x]"]
    by (simp del: split_loop.simps)
qed

lemma string_split_second:
  assumes "d \<notin> set a" "0 \<notin> set (a @ d # b)" "d \<in> set b"
  shows "string_split (Some (a @ d # b)) d True = Inl OutOfBounds"
proof -
  obtain b1 b2 where "b = b1 @ d # b2" "d \<notin> set b1" using assms(3) by (metis split_list_first)
  then show ?thesis using split_loop_second [of b b1 d b2 a "a @ [0]"] split_loop_first [OF assms(1,2)]
    by (simp add: string_split_def)
qed

lemma split_loop_no_delimit:
  assumes "\<forall>j. i \<le> j \<and> j < i + n \<longrightarrow> buf ! j \<noteq> delimit"
  shows "split_loop buf delimit n i k tmp = Inr (k, tmp)"
  using split_loop_skip [OF assms, of 0] by simp

lemma string_split_none: "d \<notin> set b \<Longrightarrow> string_split (Some b) d True = Inr (0, None)"
proof -
  assume "d \<notin> set b"
  then have "split_loop b d (length b) 0 0 [] = Inr (0, [])" by (intro split_loop_no_delimit) auto
  then show ?thesis by (simp add: string_split_def)
qed

lemma string_split_single:
  assumes "d \<notin> set a" "0 \<notin> set (a @ d # b)" "d \<notin> set b"
  shows "string_split (Some (a @ d # b)) d True = Inr (0, Some (a # (if b = [] then [] else [b])))"
proof -
  have "split_loop (a @ d # b) d (length b) (Suc (length a)) (Suc (length a)) [a @ [0]] =
      Inr (Suc (length a), [a @ [0]])"
  proof (rule split_loop_no_delimit, intro allI impI)
    fix j
    assume j: "Suc (length a) \<le> j \<and> j < Suc (length a) + length b"
    then have "(a @ d # b) ! j = b ! (j - Suc (length a))" "j - Suc (length a) < length b"
      by (auto simp: nth_append nth_Cons')
    then show "(a @ d # b) ! j \<noteq> d" using assms(3) nth_mem by metis
  qed
  then have loop: "split_loop (a @ d # b) d (length (a @ d # b)) 0 0 [] = Inr (Suc (length a), [a @ [0]])"
    using split_loop_first [OF assms(1,2)] by simp
  have "strncpy (replicate (length b + 1) 0) b (length b) = b @ [0]"
    using strncpy_field [of "length b" b] assms(2) by simp
  then show ?thesis using loop assms(2)
    by (simp add: string_split_def STRING_SPLIT_MAX_COUNT_def takeWhile_field)
qed

section \<open>Properties\<close>

text \<open>
  \<^verbatim>\<open>string_split\<close> splits a string at its only delimiter, as the callers need it for \<^verbatim>\<open>host:port\<close>, leaving out an
  empty second field. At a second delimiter it stores the terminator of the field at the
  position the delimiter has in the whole string, which is outside of the block of the field.
\<close>

theorem string_split_at_first:
  assumes "d \<notin> set a" "0 \<notin> set (a @ d # b)"
  shows "string_split (Some (a @ d # b)) d True =
    (if d \<in> set b then Inl OutOfBounds else Inr (0, Some (a # (if b = [] then [] else [b]))))"
  using string_split_second [OF assms] string_split_single [OF assms] by auto

theorem string_split_at_first_witness:
  "string_split (Some [49, 58, 50, 51]) 58 True = Inr (0, Some [[49], [50, 51]]) \<and>
   string_split (Some [49, 58, 50, 58, 51]) 58 True = Inl OutOfBounds"
  using string_split_at_first [of 58 "[49]" "[50, 51]"] string_split_at_first [of 58 "[49]" "[50, 58, 51]"] by simp

text \<open>\<^verbatim>\<open>is_digit\<close> tests that the first \<open>n\<close> bytes are digits, and that there are some.\<close>

lemma digits_loop_eq:
  "i + n \<le> length b \<Longrightarrow> digits_loop b n i = Inr (\<forall>c \<in> set (take n (drop i b)). isdigit c)"
proof (induction n arbitrary: i)
  case (Suc n)
  then have "take (Suc n) (drop i b) = b ! i # take n (drop (Suc i) b)"
    by (simp add: Cons_nth_drop_Suc [symmetric])
  then show ?case using Suc by (simp add: rd_in)
qed simp

lemma is_digit_eq:
  "n \<le> length b \<Longrightarrow> is_digit (Some b) n = Inr (0 < n \<and> (\<forall>c \<in> set (take n b). isdigit c))"
  using digits_loop_eq [of 0 n b] by (simp add: is_digit_def)

text \<open>
  \<^verbatim>\<open>gen_uuid\<close> starts from the same seed every time: an identifier is the start of every longer one.
\<close>

lemma length_uuid [simp]: "length (uuid_loop rand_r n seed) = n"
  by (induction n arbitrary: seed) (simp_all split: prod.splits)

lemma uuid_prefix: "n \<le> m \<Longrightarrow> take n (uuid_loop rand_r m seed) = uuid_loop rand_r n seed"
proof (induction n arbitrary: m seed)
  case (Suc n)
  then obtain m' where "m = Suc m'" by (cases m) auto
  then show ?case using Suc by (simp split: prod.splits)
qed simp

end
