(* ===== verification/Test_programs.thy ===== *)
theory Test_programs
  imports Utils Mixers
begin

text \<open>
  The test programs at the ends of \<^verbatim>\<open>base/utils.c\<close> and of \<^verbatim>\<open>base/c_hash.c\<close>. \<^verbatim>\<open>rand\<close> is a parameter, and so are \<^verbatim>\<open>md5_string\<close> and
  \<^verbatim>\<open>gfs_hashfn\<close>, which are not in the repository.
\<close>

section \<open>utils.c\<close>

text \<open>\<^verbatim>\<open>main\<close> of \<^verbatim>\<open>utils.c\<close>: what it prints. The count is 0 when \<^verbatim>\<open>string_split\<close> leaves it alone.\<close>

definition utils_test_main :: "bytes res" where
  "utils_test_main =
     rbind (string_split (Some (lit ''127.0.0.1:9090'')) 58 True) (\<lambda>(ret, ptr).
     Inr (lit ''count='' @ dec (case ptr of None \<Rightarrow> 0 | Some fs \<Rightarrow> length fs) @ [10]))"

section \<open>c_hash.c\<close>

definition TEST_N :: nat where
  "TEST_N = 100"

text \<open>\<^verbatim>\<open>strlen\<close> of an array.\<close>

definition array_strlen :: "bytes \<Rightarrow> nat res" where
  "array_strlen a = (if 0 \<in> set a then Inr (length (takeWhile (\<lambda>c. c \<noteq> 0) a)) else Inl OutOfBounds)"

text \<open>
  One turn of the first loop of \<^verbatim>\<open>main\<close>: \<open>rnd k\<close> is the \<open>k\<close>-th result of \<^verbatim>\<open>rand\<close>, taken in the order of the text, \<open>md5\<close> gives the
  32 bytes of \<^verbatim>\<open>md5_str\<close> after the call. The product of two results wraps around. The lines that are printed are left out.
\<close>

definition hash_test_turn :: "(nat \<Rightarrow> u32) \<Rightarrow> (bytes \<Rightarrow> bytes) \<Rightarrow> (bytes \<Rightarrow> u32) \<Rightarrow> nat \<Rightarrow> nat list \<Rightarrow> nat list res" where
  "hash_test_turn rnd md5 gfs i counts =
     (let buf = snprintf 1024 (dec_int (sint (rnd (3 * i))) @ lit ''_'' @
            dec_int (sint (rnd (3 * i + 1) * rnd (3 * i + 2))) @ lit ''.txt'');
          md5_str = md5 buf
      in rbind (array_strlen md5_str) (\<lambda>len.
         let h = unat (c_hash_jump_consistent (ucast (gfs (take len md5_str))) (of_nat TEST_N)) in
         if h < length counts then Inr (counts[h := Suc (counts ! h)]) else Inl OutOfBounds))"

fun hash_test_loop :: "(nat \<Rightarrow> u32) \<Rightarrow> (bytes \<Rightarrow> bytes) \<Rightarrow> (bytes \<Rightarrow> u32) \<Rightarrow> nat \<Rightarrow> nat \<Rightarrow> nat list \<Rightarrow> nat list res" where
  "hash_test_loop rnd md5 gfs i 0 counts = Inr counts"
| "hash_test_loop rnd md5 gfs i (Suc n) counts =
     rbind (hash_test_turn rnd md5 gfs i counts) (hash_test_loop rnd md5 gfs (Suc i) n)"

text \<open>The second loop: the numbers \<^verbatim>\<open>k\<close> and \<^verbatim>\<open>m\<close>.\<close>

definition used_buckets :: "nat list \<Rightarrow> nat \<times> nat" where
  "used_buckets counts = foldl (\<lambda>(k, m) c. if c > 0 then (Suc k, m) else (k, Suc m)) (0, 0) counts"

text \<open>\<^verbatim>\<open>main\<close> of \<^verbatim>\<open>c_hash.c\<close>: the counts, \<^verbatim>\<open>k\<close>, \<^verbatim>\<open>m\<close> and the rate, a division of integers.\<close>

definition hash_test_main :: "(nat \<Rightarrow> u32) \<Rightarrow> (bytes \<Rightarrow> bytes) \<Rightarrow> (bytes \<Rightarrow> u32) \<Rightarrow> (nat list \<times> nat \<times> nat \<times> nat) res" where
  "hash_test_main rnd md5 gfs =
     rbind (hash_test_loop rnd md5 gfs 0 TEST_N (replicate TEST_N 0)) (\<lambda>counts.
     let (k, m) = used_buckets counts in Inr (counts, k, m, k div TEST_N))"

section \<open>Properties\<close>

text \<open>The test of \<^verbatim>\<open>string_split\<close> prints that there are two fields.\<close>

theorem utils_test_counts_two: "utils_test_main = Inr (lit ''count=2'' @ [10])"
proof -
  have "lit ''127.0.0.1:9090'' = lit ''127.0.0.1'' @ 58 # lit ''9090''" by (simp add: lit_def)
  moreover have "string_split (Some (lit ''127.0.0.1'' @ 58 # lit ''9090'')) 58 True =
      Inr (0, Some (lit ''127.0.0.1'' # (if lit ''9090'' = [] then [] else [lit ''9090''])))"
    by (rule string_split_single) (simp_all add: lit_def)
  moreover have "dec (Suc (Suc 0)) = lit ''2''" by (simp add: dec.simps lit_def)
  ultimately show ?thesis by (simp add: utils_test_main_def) (simp add: lit_def)
qed

lemma jump_in_buckets: "unat (c_hash_jump_consistent key (of_nat TEST_N)) < TEST_N"
proof -
  have n: "sint (of_nat TEST_N :: u32) = 100" by (simp add: TEST_N_def)
  then have "0 < sint (of_nat TEST_N :: u32)" by simp
  from jump_result [OF this, of key] jump_loop_range [of "- 1" 0 "of_nat TEST_N" key] this
  have "int (unat (c_hash_jump_consistent key (of_nat TEST_N))) < 100" unfolding n by linarith
  then show ?thesis unfolding TEST_N_def by linarith
qed

lemma sum_list_incr: "h < length xs \<Longrightarrow> sum_list (xs[h := Suc (xs ! h)]) = Suc (sum_list xs)"
proof (induction xs arbitrary: h)
  case (Cons x xs)
  then show ?case by (cases h) simp_all
qed simp

lemma hash_test_turn_in:
  assumes "\<forall>s. 0 \<in> set (md5 s)" "length counts = TEST_N"
  shows "\<exists>h < TEST_N. hash_test_turn rnd md5 gfs i counts = Inr (counts[h := Suc (counts ! h)])"
proof -
  define s where "s = md5 (snprintf 1024 (dec_int (sint (rnd (3 * i))) @ lit ''_'' @
    dec_int (sint (rnd (3 * i + 1) * rnd (3 * i + 2))) @ lit ''.txt''))"
  have "array_strlen s = Inr (length (takeWhile (\<lambda>c. c \<noteq> 0) s))" using assms(1) by (simp add: array_strlen_def s_def)
  then show ?thesis using jump_in_buckets [of "ucast (gfs (take (length (takeWhile (\<lambda>c. c \<noteq> 0) s)) s))"] assms(2)
    unfolding hash_test_turn_def Let_def s_def [symmetric] by auto
qed

lemma hash_test_loop_counts:
  assumes "\<forall>s. 0 \<in> set (md5 s)" "length counts = TEST_N"
  shows "\<exists>counts'. hash_test_loop rnd md5 gfs i n counts = Inr counts' \<and> length counts' = TEST_N \<and>
    sum_list counts' = sum_list counts + n"
  using assms(2)
proof (induction n arbitrary: i counts)
  case (Suc n)
  obtain h where h: "h < TEST_N" "hash_test_turn rnd md5 gfs i counts = Inr (counts[h := Suc (counts ! h)])"
    using hash_test_turn_in [OF assms(1) Suc.prems] by blast
  then show ?case using Suc.IH [of "counts[h := Suc (counts ! h)]" "Suc i"] Suc.prems by (auto simp: sum_list_incr)
qed simp

lemma used_buckets_count: "used_buckets counts = (length (filter (\<lambda>c. 0 < c) counts), length (filter (\<lambda>c. c = 0) counts))"
proof -
  have "foldl (\<lambda>(k, m) c. if c > 0 then (Suc k, m) else (k, Suc m)) (k, m) counts =
      (k + length (filter (\<lambda>c. 0 < c) counts), m + length (filter (\<lambda>c. c = 0) counts))" for k m
    by (induction counts arbitrary: k m) simp_all
  then show ?thesis by (simp add: used_buckets_def)
qed

text \<open>
  The test of the jump hash counts every one of its 100 keys in a bucket, never out of bounds, and its two numbers are the
  buckets that are used and not used, whatever the digests are, as long as they end inside of their array. The rate that it
  prints is 1 when all the buckets are used and 0 otherwise.
\<close>

theorem hash_test_counts_keys:
  assumes "\<forall>s. 0 \<in> set (md5 s)"
  shows "\<exists>counts. hash_test_main rnd md5 gfs = Inr (counts, length (filter (\<lambda>c. 0 < c) counts),
      length (filter (\<lambda>c. c = 0) counts), if 0 \<in> set counts then 0 else 1) \<and>
    length counts = 100 \<and> sum_list counts = 100"
proof -
  obtain counts where c: "hash_test_loop rnd md5 gfs 0 TEST_N (replicate TEST_N 0) = Inr counts" "length counts = TEST_N"
      "sum_list counts = 100"
    using hash_test_loop_counts [OF assms, of "replicate TEST_N 0" rnd gfs 0 TEST_N] by (auto simp: TEST_N_def)
  have "length (filter (\<lambda>c. 0 < c) counts) div 100 = (if 0 \<in> set counts then 0 else 1)"
  proof (cases "0 \<in> set counts")
    case True
    then have "length (filter (\<lambda>c. 0 < c) counts) < length counts" by (intro length_filter_less) auto
    then show ?thesis using True c(2) by (simp add: TEST_N_def)
  next
    case False
    then have "filter (\<lambda>c. 0 < c) counts = counts" by (auto simp: filter_id_conv intro!: gr0I)
    then show ?thesis using False c(2) by (simp add: TEST_N_def)
  qed
  then show ?thesis using c by (auto simp: hash_test_main_def used_buckets_count TEST_N_def)
qed

theorem hash_test_counts_keys_witness:
  "\<exists>counts. hash_test_main (\<lambda>k. of_nat k) (\<lambda>s. replicate 32 0) (\<lambda>s. 7) = Inr (counts, length (filter (\<lambda>c. 0 < c) counts),
      length (filter (\<lambda>c. c = 0) counts), if 0 \<in> set counts then 0 else 1) \<and> sum_list counts = 100"
  using hash_test_counts_keys [of "\<lambda>s. replicate 32 0" "\<lambda>k. of_nat k" "\<lambda>s. 7"] by auto

end
