(* ===== verification/C_log.thy ===== *)
theory C_log
  imports Prelude
begin

text \<open>
  Model of \<^verbatim>\<open>base/c_log.c\<close>: the logger of the servers. The time, the process number, \<^verbatim>\<open>open\<close> and the formatting of
  the message by \<^verbatim>\<open>vsnprintf\<close> are parameters. A record of the log is the descriptor it is written to and
  its bytes.
\<close>

section \<open>c_log.c\<close>

record c_log_t =
  cl_log_file :: "bytes option"
  cl_fd :: int
  cl_log_level :: int
  cl_is_init :: bool

text \<open>The static variable at the start of the program.\<close>

definition g_log :: c_log_t where
  "g_log = \<lparr>cl_log_file = None, cl_fd = 0, cl_log_level = 0, cl_is_init = False\<rparr>"

definition LOG_ERR :: int where "LOG_ERR = 0"
definition LOG_WARNING :: int where "LOG_WARNING = 1"
definition LOG_INFO :: int where "LOG_INFO = 2"
definition LOG_DEBUG :: int where "LOG_DEBUG = 3"

lemmas log_levels = LOG_ERR_def LOG_WARNING_def LOG_INFO_def LOG_DEBUG_def

definition C_LOG_FILE :: int where
  "C_LOG_FILE = 3"

definition c_log_level_str :: "bytes list" where
  "c_log_level_str = [lit ''ERR'', lit ''WARN'', lit ''INFO'', lit ''DEBUG'']"

text \<open>The escape sequences of the macros \<^verbatim>\<open>RED\<close>, \<^verbatim>\<open>B_RED\<close> and so on.\<close>

definition colour :: "nat \<Rightarrow> bytes \<Rightarrow> bytes" where
  "colour c s = 27 # lit ''['' @ dec c @ lit ''m'' @ s @ 27 # lit ''[0m''"

definition bold :: "nat \<Rightarrow> bytes \<Rightarrow> bytes" where
  "bold c s = 27 # lit ''[1;'' @ dec c @ lit ''m'' @ s @ 27 # lit ''[0m''"

definition c_log_init :: "(bytes \<Rightarrow> int) \<Rightarrow> int \<Rightarrow> bytes option \<Rightarrow> c_log_t \<Rightarrow> (int \<times> c_log_t) res" where
  "c_log_init open_append type file_name g =
     (if \<not> cl_is_init g
      then rbind (case file_name of
                    Some f \<Rightarrow>
                      if type = C_LOG_FILE
                      then let fd = open_append f in ASSERT (fd \<noteq> - 1) (Inr (g\<lparr>cl_log_file := Some f, cl_fd := fd\<rparr>))
                      else Inr g
                  | None \<Rightarrow> Inr g) (\<lambda>g.
           let g = (if cl_fd g < 0 then g\<lparr>cl_fd := type\<rparr> else g) in
           Inr (0, g\<lparr>cl_log_level := LOG_INFO\<rparr>))
      else Inr (- 1, g))"

definition c_log_set_level :: "int \<Rightarrow> c_log_t \<Rightarrow> c_log_t" where
  "c_log_set_level level g = (if cl_is_init g then g\<lparr>cl_log_level := level\<rparr> else g)"

text \<open>What the system tells the logger: the date in the two formats, the milliseconds, the process.\<close>

record log_env =
  le_date :: "bool \<Rightarrow> bytes"
  le_ms :: nat
  le_pid :: int

definition pad :: "nat \<Rightarrow> u8 \<Rightarrow> bytes \<Rightarrow> bytes" where
  "pad n c s = replicate (n - length s) c @ s"

definition c_log_get_time :: "log_env \<Rightarrow> nat \<Rightarrow> int \<Rightarrow> bytes" where
  "c_log_get_time env len flag_name =
     (let date_fmt = snprintf 20 (le_date env (flag_name = 0)); date_ms = snprintf 32 (pad 3 48 (dec (le_ms env))) in
      if flag_name = 0 then snprintf len (lit ''['' @ date_fmt @ lit ''.'' @ date_ms @ lit '']'')
      else snprintf len (date_fmt @ lit ''_'' @ date_ms @ lit ''.log''))"

text \<open>\<^verbatim>\<open>c_log_write\<close>: the record that \<^verbatim>\<open>writev\<close> gets. Another level has no name in the table.\<close>

definition c_log_write :: "log_env \<Rightarrow> int \<Rightarrow> bytes \<Rightarrow> int \<Rightarrow> bytes \<Rightarrow> bytes \<Rightarrow> c_log_t \<Rightarrow> (int \<times> (int \<times> bytes)) res" where
  "c_log_write env lvl file_name line func msg g =
     (if 0 \<le> lvl \<and> nat lvl < length c_log_level_str
      then let s_time = c_log_get_time env 32 0;
               name = lit ''['' @ pad 7 32 (c_log_level_str ! nat lvl) @ lit '']'';
               (s_lvl, s_msg) =
                 (if lvl = LOG_ERR then (bold 31 name, colour 31 msg)
                  else if lvl = LOG_WARNING then (bold 33 name, colour 33 msg)
                  else if lvl = LOG_INFO then (bold 32 name, colour 32 msg)
                  else if lvl = LOG_DEBUG then (bold 37 name, colour 37 msg)
                  else (name, msg));
               s_pid = snprintf 32 (lit ''[pid:'' @ dec_int (le_pid env) @ lit '']'');
               s_file = snprintf 256 (lit ''['' @ file_name @ lit '':'' @ pad 3 32 (dec_int line) @ lit '': '' @ func @ lit ''] '' @ [10])
           in Inr (0, cl_fd g, s_time @ s_pid @ snprintf 32 s_lvl @ s_file @ snprintf 1024 s_msg)
      else Inl OutOfBounds)"

text \<open>
  \<^verbatim>\<open>c_log_print\<close>: \<open>n\<close> is the result of \<^verbatim>\<open>vsnprintf\<close> and \<open>txt\<close> the formatted message. It gives its result, the
  logger and the records written.
\<close>

definition c_log_print :: "(bytes \<Rightarrow> int) \<Rightarrow> log_env \<Rightarrow> int \<Rightarrow> bytes \<Rightarrow> int \<Rightarrow> bytes \<Rightarrow> int \<Rightarrow> bytes \<Rightarrow> c_log_t \<Rightarrow>
    (int \<times> c_log_t \<times> (int \<times> bytes) list) res" where
  "c_log_print open_append env lvl file_name line func n txt g =
     rbind (if \<not> cl_is_init g
            then let g = c_log_set_level lvl g in rbind (c_log_init open_append 0 None g) (\<lambda>(r, g). Inr g)
            else Inr g) (\<lambda>g.
     if lvl < LOG_ERR \<or> lvl > LOG_DEBUG then Inr (- 1, g, [])
     else if n < 0 then Inr (- 1, g, [])
     else rbind (c_log_write env lvl file_name line func (snprintf 1024 txt) g) (\<lambda>(ret, rec). Inr (ret, g, [rec])))"

text \<open>\<^verbatim>\<open>c_log_deinit\<close>: the descriptors closed and the logger.\<close>

definition c_log_deinit :: "c_log_t \<Rightarrow> int list \<times> c_log_t" where
  "c_log_deinit g = (if cl_is_init g then ([cl_fd g], g\<lparr>cl_is_init := False\<rparr>) else ([], g))"

section \<open>Uses of the logger\<close>

datatype log_op =
    Init int "bytes option"
  | SetLevel int
  | Print log_env int bytes int bytes int bytes
  | Deinit

fun c_log_op :: "(bytes \<Rightarrow> int) \<Rightarrow> log_op \<Rightarrow> c_log_t \<Rightarrow> ((int \<times> bytes) list \<times> c_log_t) res" where
  "c_log_op open_append (Init type f) g = rbind (c_log_init open_append type f g) (\<lambda>(r, g). Inr ([], g))"
| "c_log_op open_append (SetLevel l) g = Inr ([], c_log_set_level l g)"
| "c_log_op open_append (Print env lvl f line func n txt) g =
     rbind (c_log_print open_append env lvl f line func n txt g) (\<lambda>(r, g, recs). Inr (recs, g))"
| "c_log_op open_append Deinit g = Inr ([], snd (c_log_deinit g))"

fun c_log_ops :: "(bytes \<Rightarrow> int) \<Rightarrow> log_op list \<Rightarrow> c_log_t \<Rightarrow> ((int \<times> bytes) list \<times> c_log_t) res" where
  "c_log_ops open_append [] g = Inr ([], g)"
| "c_log_ops open_append (p # ps) g =
     rbind (c_log_op open_append p g) (\<lambda>(recs, g).
     rbind (c_log_ops open_append ps g) (\<lambda>(recs', g). Inr (recs @ recs', g)))"

text \<open>The messages that the levels and \<^verbatim>\<open>vsnprintf\<close> let through, whatever level was set.\<close>

fun printed :: "log_op \<Rightarrow> bool" where
  "printed (Print env lvl f line func n txt) \<longleftrightarrow> LOG_ERR \<le> lvl \<and> lvl \<le> LOG_DEBUG \<and> 0 \<le> n"
| "printed _ \<longleftrightarrow> False"

text \<open>The record of a message: the time, the process, the level in its colour, the place and the message in its colour.\<close>

definition log_record :: "log_env \<Rightarrow> int \<Rightarrow> bytes \<Rightarrow> int \<Rightarrow> bytes \<Rightarrow> bytes \<Rightarrow> bytes" where
  "log_record env lvl file_name line func txt =
     (let c = [31, 33, 32, 37] ! nat lvl in
      c_log_get_time env 32 0 @ snprintf 32 (lit ''[pid:'' @ dec_int (le_pid env) @ lit '']'') @
      snprintf 32 (bold c (lit ''['' @ pad 7 32 (c_log_level_str ! nat lvl) @ lit '']'')) @
      snprintf 256 (lit ''['' @ file_name @ lit '':'' @ pad 3 32 (dec_int line) @ lit '': '' @ func @ lit ''] '' @ [10]) @
      snprintf 1024 (colour c (snprintf 1024 txt)))"

text \<open>The records of a sequence of calls: those of the messages let through, on the descriptor of the last log file opened.\<close>

fun log_fd :: "(bytes \<Rightarrow> int) \<Rightarrow> log_op \<Rightarrow> int \<Rightarrow> int" where
  "log_fd open_append (Init type (Some f)) fd = (if type = C_LOG_FILE then open_append f else fd)"
| "log_fd open_append _ fd = fd"

fun log_records :: "(bytes \<Rightarrow> int) \<Rightarrow> int \<Rightarrow> log_op list \<Rightarrow> (int \<times> bytes) list" where
  "log_records open_append fd [] = []"
| "log_records open_append fd (p # ps) =
     (case p of
        Print env lvl f line func n txt \<Rightarrow> if printed p then [(fd, log_record env lvl f line func txt)] else []
      | _ \<Rightarrow> []) @ log_records open_append (log_fd open_append p fd) ps"

text \<open>The states of the logger: never initialised, on the descriptor 0 or on that of a log file.\<close>

definition log_inv :: "(bytes \<Rightarrow> int) \<Rightarrow> c_log_t \<Rightarrow> bool" where
  "log_inv open_append g \<longleftrightarrow> \<not> cl_is_init g \<and> cl_log_level g \<in> {0, LOG_INFO} \<and>
     (case cl_log_file g of None \<Rightarrow> cl_fd g = 0 | Some f \<Rightarrow> cl_fd g = open_append f \<and> 0 \<le> open_append f)"

lemma log_inv_fd: "log_inv open_append g \<Longrightarrow> 0 \<le> cl_fd g"
  by (auto simp: log_inv_def split: option.splits)

lemma log_inv_init:
  assumes "log_inv open_append g" "\<forall>f. - 1 \<le> open_append f" "c_log_init open_append type f g = Inr (r, g')"
  shows "log_inv open_append g' \<and> cl_fd g' = log_fd open_append (Init type f) (cl_fd g)"
proof (cases "f \<noteq> None \<and> type = C_LOG_FILE")
  case True
  then obtain x where x: "f = Some x" "type = C_LOG_FILE" by blast
  then have "open_append x \<noteq> - 1" using assms(1,3) by (auto simp: c_log_init_def log_inv_def ASSERT_def Let_def)
  then have "0 \<le> open_append x" using assms(2) [rule_format, of x] by linarith
  then have "g' = g\<lparr>cl_log_file := Some x, cl_fd := open_append x, cl_log_level := LOG_INFO\<rparr>"
    using x assms(1,3) by (simp add: c_log_init_def log_inv_def ASSERT_def Let_def)
  then show ?thesis using assms(1) \<open>0 \<le> open_append x\<close> x by (simp add: log_inv_def)
next
  case False
  have "\<not> cl_fd g < 0" using log_inv_fd [OF assms(1)] by simp
  then have "g' = g\<lparr>cl_log_level := LOG_INFO\<rparr>"
    using False assms(1,3) by (auto simp: c_log_init_def log_inv_def split: option.splits)
  moreover have "log_fd open_append (Init type f) fd = fd" for fd using False by (cases f) auto
  ultimately show ?thesis using assms(1) by (auto simp: log_inv_def split: option.splits)
qed

lemma c_log_write_record:
  assumes "LOG_ERR \<le> lvl" "lvl \<le> LOG_DEBUG"
  shows "c_log_write env lvl f line func (snprintf 1024 m) g = Inr (0, cl_fd g, log_record env lvl f line func m)"
proof -
  consider "lvl = 0" | "lvl = 1" | "lvl = 2" | "lvl = 3" using assms by (force simp: log_levels)
  then show ?thesis
    by cases (simp_all add: c_log_write_def log_record_def log_levels c_log_level_str_def Let_def)
qed

lemma c_log_print_record:
  assumes "log_inv open_append g"
  shows "\<exists>r. c_log_print open_append env lvl f line func n m g = Inr (r, g\<lparr>cl_log_level := LOG_INFO\<rparr>,
    if LOG_ERR \<le> lvl \<and> lvl \<le> LOG_DEBUG \<and> 0 \<le> n then [(cl_fd g, log_record env lvl f line func m)] else [])"
proof -
  have "\<not> cl_is_init g" "\<not> cl_fd g < 0" using assms log_inv_fd [OF assms] by (simp_all add: log_inv_def)
  then have "rbind (c_log_init open_append 0 None (c_log_set_level lvl g)) (\<lambda>(r, g). Inr g) = Inr (g\<lparr>cl_log_level := LOG_INFO\<rparr>)"
    by (simp add: c_log_init_def c_log_set_level_def)
  then show ?thesis
    using \<open>\<not> cl_is_init g\<close> c_log_write_record [of lvl env f line func m "g\<lparr>cl_log_level := LOG_INFO\<rparr>"]
    by (auto simp: c_log_print_def Let_def)
qed

lemma log_inv_op:
  assumes "log_inv open_append g" "\<forall>f. - 1 \<le> open_append f" "c_log_op open_append p g = Inr (recs, g')"
  shows "log_inv open_append g' \<and> cl_fd g' = log_fd open_append p (cl_fd g) \<and> recs = log_records open_append (cl_fd g) [p]"
proof (cases p)
  case (Init type f)
  then obtain r where "c_log_init open_append type f g = Inr (r, g')" "recs = []"
    using assms(3) by (auto simp: rbind_eq_Inr)
  then show ?thesis using log_inv_init [OF assms(1,2)] Init by simp
next
  case (SetLevel l)
  then show ?thesis using assms by (auto simp: c_log_set_level_def log_inv_def)
next
  case (Print env lvl f line func n m)
  then show ?thesis using assms(1,3) c_log_print_record [OF assms(1), of env lvl f line func n m]
    by (auto simp: log_inv_def split: option.splits)
next
  case Deinit
  then show ?thesis using assms by (auto simp: c_log_deinit_def log_inv_def)
qed

lemma log_inv_ops:
  assumes "\<forall>f. - 1 \<le> open_append f" "log_inv open_append g0" "c_log_ops open_append ps g0 = Inr (recs, g)"
  shows "log_inv open_append g \<and> recs = log_records open_append (cl_fd g0) ps"
  using assms(2,3)
proof (induction ps arbitrary: g0 recs)
  case (Cons p ps)
  then obtain r1 g1 r2 where "c_log_op open_append p g0 = Inr (r1, g1)" "c_log_ops open_append ps g1 = Inr (r2, g)" "recs = r1 @ r2"
    by (auto simp: rbind_eq_Inr)
  then show ?case using Cons.IH [of g1 r2] log_inv_op [OF Cons.prems(1) assms(1), of p r1 g1] by auto
qed simp

text \<open>
  (C34) Whatever sequence of calls is made of the logger, it is never marked as initialised and the level that
  \<^verbatim>\<open>c_log_set_level\<close> asks for is never set. The records written are those of all messages of the four levels that \<^verbatim>\<open>vsnprintf\<close>
  can format, in order, each with its time, process, level, place and text, on the descriptor of the last log file opened
  before and, while none was opened, on the descriptor 0, also after \<^verbatim>\<open>c_log_init(C_LOG_STDERR, NULL)\<close>. The calls return,
  unless a log file cannot be opened (hypothesis); \<^verbatim>\<open>open\<close> gives at least \<open>-1\<close>.
\<close>

theorem c_log_never_initialised:
  assumes "\<forall>f. - 1 \<le> open_append f" "c_log_ops open_append ps g_log = Inr (recs, g)"
  shows "\<not> cl_is_init g \<and> cl_log_level g \<in> {0, LOG_INFO} \<and> recs = log_records open_append 0 ps \<and>
    (case cl_log_file g of None \<Rightarrow> cl_fd g = 0 | Some f \<Rightarrow> cl_fd g = open_append f)"
proof -
  have "log_inv open_append g_log" by (simp add: log_inv_def g_log_def)
  from log_inv_ops [OF assms(1) this assms(2)] show ?thesis
    by (auto simp: log_inv_def g_log_def split: option.splits)
qed

theorem c_log_never_initialised_witness:
  "\<exists>recs g. c_log_ops (\<lambda>_. 5) [Init 2 None, SetLevel 0, Print \<lparr>le_date = (\<lambda>_. [50]), le_ms = 7, le_pid = 9\<rparr> 3 [97] 1 [98] 1 [99]] g_log =
      Inr (recs, g) \<and> map fst recs = [0] \<and> cl_fd g = 0"
proof -
  let ?ps = "[Init 2 None, SetLevel 0, Print \<lparr>le_date = (\<lambda>_. [50]), le_ms = 7, le_pid = 9\<rparr> 3 [97] 1 [98] 1 [99]]"
  obtain recs g where r: "c_log_ops (\<lambda>_. 5) ?ps g_log = Inr (recs, g)" "cl_log_file g = None"
    by (simp add: c_log_init_def c_log_set_level_def c_log_print_def c_log_write_def g_log_def log_levels
        c_log_level_str_def Let_def)
  from c_log_never_initialised [OF _ r(1)] r show ?thesis by (auto simp: log_levels)
qed

end
