(* ===== verification/Net.thy ===== *)
theory Net
  imports Prelude
begin

text \<open>
  Model of \<^verbatim>\<open>base/net_sock.c\<close>: a server that accepts connections in one thread and hands them to worker
  threads through pipes, in turn. libuv and the sockets are not in the repository: what a callback asks of them is a
  list of requests, and their results are arguments of the callbacks. A connection has the type \<open>'c\<close>.
\<close>

section \<open>net_sock.c\<close>

text \<open>A worker thread; \<open>nt_thread_loop\<close> says whether \<^verbatim>\<open>thread_loop\<close> has been set, it is null before.\<close>

record net_sock_thread_t =
  nt_thread_loop :: bool
  nt_notify_receive_fd :: int
  nt_counter :: u64
  nt_id :: int

record net_sock_t =
  sk_addr :: bytes
  sk_backlog :: int
  sk_port :: int
  sk_counter :: u64
  sk_num_threads :: u32
  sk_threads :: "net_sock_thread_t list"
  sk_pipe :: "int list"
  sk_round_robin_counter :: u64

text \<open>The requests of the callbacks to libuv.\<close>

datatype uv_request =
    Write bytes            \<comment> \<open>\<^verbatim>\<open>uv_write\<close> to the client\<close>
  | CloseClient            \<comment> \<open>\<^verbatim>\<open>uv_close\<close> of the client\<close>
  | CloseQueue             \<comment> \<open>\<^verbatim>\<open>uv_close\<close> of the pipe\<close>
  | ReadStart              \<comment> \<open>\<^verbatim>\<open>uv_read_start\<close> on the client\<close>
  | SendTo nat             \<comment> \<open>\<^verbatim>\<open>uv_write2\<close> of the client to a pipe\<close>
  | FreeBuf                \<comment> \<open>\<^verbatim>\<open>free\<close> of the buffer of the read\<close>

record uv_buf_t =
  ub_base :: bytes
  ub_len :: u64

text \<open>\<^verbatim>\<open>alloc_buffer\<close>; \<open>malloc n\<close> is the block that \<^verbatim>\<open>malloc\<close> gives.\<close>

definition alloc_buffer :: "(nat \<Rightarrow> bytes) \<Rightarrow> u64 \<Rightarrow> uv_buf_t" where
  "alloc_buffer malloc suggested_size = \<lparr>ub_base = malloc (unat suggested_size), ub_len = suggested_size\<rparr>"

text \<open>\<^verbatim>\<open>free_write_req\<close> frees the buffer of a write, with the request; \<^verbatim>\<open>write_cb\<close> calls it whatever the status is.\<close>

definition free_write_req :: "uv_request list" where
  "free_write_req = [FreeBuf]"

definition write_cb :: "int \<Rightarrow> uv_request list" where
  "write_cb status = free_write_req"

text \<open>\<^verbatim>\<open>read_cb\<close> sends back what it got. The messages about errors are left out.\<close>

definition read_cb :: "int \<Rightarrow> bytes \<Rightarrow> uv_request list res" where
  "read_cb nread base =
     (if nread > 0
      then if nat nread \<le> length base then Inr [Write (take (nat nread) base)] else Inl OutOfBounds
      else Inr ((if nread < 0 then [CloseClient] else []) @ [FreeBuf]))"

datatype uv_handle_type = UV_TCP | UV_NAMED_PIPE | UV_UDP | UV_UNKNOWN_HANDLE

text \<open>
  \<^verbatim>\<open>thread_new_connection_cb\<close>: the arguments after \<^verbatim>\<open>nread\<close> are the results of \<^verbatim>\<open>uv_pipe_pending_count\<close>,
  \<^verbatim>\<open>uv_pipe_pending_type\<close> and \<^verbatim>\<open>uv_accept\<close>.
\<close>

definition thread_new_connection_cb :: "int \<Rightarrow> int \<Rightarrow> uv_handle_type \<Rightarrow> int \<Rightarrow> net_sock_thread_t \<Rightarrow>
    (uv_request list \<times> net_sock_thread_t) res" where
  "thread_new_connection_cb nread pending_count pending accept skt =
     (if nread < 0 then Inr ([CloseQueue], skt)
      else if pending_count = 0 then Inr ([], skt)
      else ASSERT (pending = UV_TCP)
        (if accept = 0 then Inr ([ReadStart], skt\<lparr>nt_counter := nt_counter skt + 1\<rparr>)
         else Inr ([CloseClient], skt)))"

text \<open>
  \<^verbatim>\<open>main_new_connection_cb\<close>: \<open>accept\<close> is the result of \<^verbatim>\<open>uv_accept\<close>. In \<^verbatim>\<open>round_robin_counter % num_threads\<close> the
  signed number of threads is converted to 64 bits.
\<close>

definition main_new_connection_cb :: "int \<Rightarrow> int \<Rightarrow> net_sock_t \<Rightarrow> (uv_request list \<times> net_sock_t) res" where
  "main_new_connection_cb status accept sk =
     (if status = - 1 then Inr ([], sk)
      else
        let sk = sk\<lparr>sk_counter := sk_counter sk + 1\<rparr> in
        if accept = 0
        then if sk_num_threads sk = 0 then Inl DivByZero
             else let index = ucast (sk_round_robin_counter sk mod scast (sk_num_threads sk)) :: u32 in
                  if 0 \<le> sint index \<and> nat (sint index) < length (sk_pipe sk)
                  then Inr ([SendTo (nat (sint index))], sk\<lparr>sk_round_robin_counter := sk_round_robin_counter sk + 1\<rparr>)
                  else Inl OutOfBounds
        else Inr ([CloseClient], sk))"

text \<open>
  The loop of \<^verbatim>\<open>net_sock_init\<close>: \<open>socketpair i\<close> is the result of the \<open>i\<close>-th call. The receiving ends go to the
  threads, the sending ends to the pipes.
\<close>

fun socketpairs :: "(nat \<Rightarrow> (int \<times> int) option) \<Rightarrow> nat \<Rightarrow> nat \<Rightarrow> net_sock_t \<Rightarrow> int \<times> net_sock_t" where
  "socketpairs socketpair i 0 sk = (0, sk)"
| "socketpairs socketpair i (Suc n) sk =
     (case socketpair i of
        None \<Rightarrow> (- 1, sk)
      | Some (fd0, fd1) \<Rightarrow>
          socketpairs socketpair (Suc i) n
            (sk\<lparr>sk_pipe := (sk_pipe sk)[i := fd0],
                sk_threads := (sk_threads sk)[i := (sk_threads sk ! i)\<lparr>nt_notify_receive_fd := fd1\<rparr>]\<rparr>))"

text \<open>The threads that \<^verbatim>\<open>calloc\<close> gives.\<close>

definition thread0 :: net_sock_thread_t where
  "thread0 = \<lparr>nt_thread_loop = False, nt_notify_receive_fd = 0, nt_counter = 0, nt_id = 0\<rparr>"

text \<open>\<^verbatim>\<open>net_sock_init\<close>; the results of \<^verbatim>\<open>uv_tcp_bind\<close> and \<^verbatim>\<open>uv_listen\<close> are not used.\<close>

definition net_sock_init :: "(nat \<Rightarrow> (int \<times> int) option) \<Rightarrow> net_sock_t option \<Rightarrow> bytes option \<Rightarrow> int \<Rightarrow> int \<Rightarrow> u32 \<Rightarrow>
    (int \<times> net_sock_t) res" where
  "net_sock_init socketpair sk addr port backlog num_threads =
     (case sk of
        None \<Rightarrow> Inl AssertFail
      | Some sk \<Rightarrow>
          let tmp_addr = (case addr of None \<Rightarrow> [48, 46, 48, 46, 48, 46, 48] | Some a \<Rightarrow> a);
              n = nat (sint num_threads)
          in Inr (socketpairs socketpair 0 n
               (sk\<lparr>sk_num_threads := num_threads, sk_addr := tmp_addr, sk_backlog := backlog, sk_port := port,
                   sk_threads := replicate n thread0, sk_pipe := replicate n 0\<rparr>)))"

text \<open>\<^verbatim>\<open>net_sock_create\<close> does not use the result of \<^verbatim>\<open>net_sock_init\<close>.\<close>

definition net_sock_create :: "(nat \<Rightarrow> (int \<times> int) option) \<Rightarrow> bytes option \<Rightarrow> int \<Rightarrow> int \<Rightarrow> u32 \<Rightarrow> net_sock_t res" where
  "net_sock_create socketpair addr port backlog num_threads =
     rbind (net_sock_init socketpair
       (Some \<lparr>sk_addr = [], sk_backlog = 0, sk_port = 0, sk_counter = 0, sk_num_threads = 0, sk_threads = [],
              sk_pipe = [], sk_round_robin_counter = 0\<rparr>) addr port backlog num_threads) (\<lambda>(r, sk). Inr sk)"

text \<open>One round of \<^verbatim>\<open>net_handle_metric\<close>: the three numbers that it prints.\<close>

definition net_handle_metric :: "net_sock_t \<Rightarrow> u64 \<times> u64 \<times> u64" where
  "net_handle_metric sk =
     (let success = fold (\<lambda>i s. s + nt_counter (sk_threads sk ! i)) [0 ..< nat (sint (sk_num_threads sk))] 0
      in (sk_counter sk, success, sk_counter sk - success))"

text \<open>\<^verbatim>\<open>net_sock_run\<close> up to the start of the main loop: every thread gets its number and is started.\<close>

definition net_sock_run :: "net_sock_t \<Rightarrow> net_sock_t" where
  "net_sock_run sk =
     sk\<lparr>sk_threads := fold (\<lambda>i ts. ts[i := (ts ! i)\<lparr>nt_id := int i\<rparr>]) [0 ..< nat (sint (sk_num_threads sk))] (sk_threads sk)\<rparr>"

text \<open>The calls that set up, run and stop a loop, for a thread or for the main loop.\<close>

datatype loop_request = LoopInit | PipeInit | PipeOpen int | PipeReadStart | LoopRun | LoopStop | LoopClose | ThreadJoin

text \<open>\<^verbatim>\<open>net_sock_thread_init\<close>, the function of a worker thread.\<close>

definition net_sock_thread_init :: "net_sock_thread_t \<Rightarrow> loop_request list \<times> net_sock_thread_t" where
  "net_sock_thread_init skt =
     (let skt = skt\<lparr>nt_thread_loop := True\<rparr> in
      ([LoopInit, PipeInit, PipeOpen (nt_notify_receive_fd skt), PipeReadStart, LoopRun], skt))"

text \<open>\<^verbatim>\<open>net_sock_thread_deinit\<close>: \<^verbatim>\<open>uv_stop\<close> writes to the loop, so a loop that is null is a fault.\<close>

definition net_sock_thread_deinit :: "net_sock_thread_t option \<Rightarrow> loop_request list res" where
  "net_sock_thread_deinit skt =
     (case skt of
        None \<Rightarrow> Inr []
      | Some skt \<Rightarrow> if nt_thread_loop skt then Inr [LoopStop, LoopClose, ThreadJoin] else Inl OutOfBounds)"

text \<open>The loop of \<^verbatim>\<open>net_sock_deinit\<close> over the threads; a request comes with the number of its thread.\<close>

fun deinit_threads :: "net_sock_t \<Rightarrow> nat \<Rightarrow> nat \<Rightarrow> (nat option \<times> loop_request) list res" where
  "deinit_threads sk i 0 = Inr []"
| "deinit_threads sk i (Suc n) =
     (if i < length (sk_threads sk)
      then rbind (net_sock_thread_deinit (Some (sk_threads sk ! i))) (\<lambda>rs.
           rbind (deinit_threads sk (Suc i) n) (\<lambda>rest. Inr (map (Pair (Some i)) rs @ rest)))
      else Inl OutOfBounds)"

definition net_sock_deinit :: "net_sock_t option \<Rightarrow> (nat option \<times> loop_request) list res" where
  "net_sock_deinit sk =
     (case sk of
        None \<Rightarrow> Inr []
      | Some sk \<Rightarrow> rbind (deinit_threads sk 0 (nat (sint (sk_num_threads sk)))) (\<lambda>rs. Inr (rs @ [(None, LoopStop)])))"

text \<open>A pointer to a structure that may have been freed; an access through it then is a fault.\<close>

datatype 'a cptr = Null | Live 'a | Freed

definition net_sock_destroy :: "net_sock_t cptr \<Rightarrow> ((nat option \<times> loop_request) list \<times> net_sock_t cptr) res" where
  "net_sock_destroy sk =
     (case sk of
        Null \<Rightarrow> Inr ([], Null)
      | Freed \<Rightarrow> Inl OutOfBounds
      | Live k \<Rightarrow> rbind (net_sock_deinit (Some k)) (\<lambda>rs. Inr (rs, Freed)))"

section \<open>The server\<close>

text \<open>
  The server with its clients: those in the pipe of each thread, those that each thread serves or has
  refused, and those that the main thread has refused.
\<close>

record 'c server =
  sv_sk :: net_sock_t
  sv_queue :: "'c list list"
  sv_served :: "'c list list"
  sv_refused :: "'c list list"
  sv_closed :: "'c list"

text \<open>
  What becomes of the requests: \<^verbatim>\<open>uv_write2\<close> puts the client into the pipe. Its result is not looked at by the code; here it
  succeeds.
\<close>

fun main_request :: "'c \<Rightarrow> 'c server \<Rightarrow> uv_request \<Rightarrow> 'c server" where
  "main_request c s (SendTo i) = s\<lparr>sv_queue := (sv_queue s)[i := sv_queue s ! i @ [c]]\<rparr>"
| "main_request c s CloseClient = s\<lparr>sv_closed := sv_closed s @ [c]\<rparr>"
| "main_request c s _ = s"

fun thread_request :: "nat \<Rightarrow> 'c \<Rightarrow> 'c server \<Rightarrow> uv_request \<Rightarrow> 'c server" where
  "thread_request i c s ReadStart = s\<lparr>sv_served := (sv_served s)[i := sv_served s ! i @ [c]]\<rparr>"
| "thread_request i c s CloseClient = s\<lparr>sv_refused := (sv_refused s)[i := sv_refused s ! i @ [c]]\<rparr>"
| "thread_request i c s _ = s"

text \<open>
  The steps: a new connection comes to the main thread, or a thread takes the next client from its
  pipe. \<open>net_reach k s\<close>: the state \<open>s\<close> is reached with \<open>k\<close> new connections.
\<close>

definition server0 :: "net_sock_t \<Rightarrow> 'c server" where
  "server0 sk = \<lparr>sv_sk = sk, sv_queue = map (\<lambda>_. []) (sk_pipe sk), sv_served = map (\<lambda>_. []) (sk_pipe sk),
     sv_refused = map (\<lambda>_. []) (sk_pipe sk), sv_closed = []\<rparr>"

inductive net_reach :: "net_sock_t \<Rightarrow> nat \<Rightarrow> 'c server \<Rightarrow> bool" for sk0 where
  start: "net_reach sk0 0 (server0 sk0)"
| connect: "net_reach sk0 k s \<Longrightarrow> status \<noteq> - 1 \<Longrightarrow> main_new_connection_cb status accept (sv_sk s) = Inr (reqs, sk) \<Longrightarrow>
    net_reach sk0 (Suc k) (foldl (main_request c) (s\<lparr>sv_sk := sk\<rparr>) reqs)"
| receive: "net_reach sk0 k s \<Longrightarrow> i < length (sv_queue s) \<Longrightarrow> sv_queue s ! i = c # cs \<Longrightarrow> 0 \<le> nread \<Longrightarrow> pending \<noteq> 0 \<Longrightarrow>
    thread_new_connection_cb nread pending UV_TCP accept (sk_threads (sv_sk s) ! i) = Inr (reqs, skt) \<Longrightarrow>
    net_reach sk0 k (foldl (thread_request i c)
      (s\<lparr>sv_queue := (sv_queue s)[i := cs], sv_sk := (sv_sk s)\<lparr>sk_threads := (sk_threads (sv_sk s))[i := skt]\<rparr>\<rparr>) reqs)"

section \<open>The turns\<close>

text \<open>The share of thread \<open>i\<close> when \<open>r\<close> clients have been handed to \<open>n\<close> threads in turn.\<close>

definition share :: "nat \<Rightarrow> nat \<Rightarrow> nat \<Rightarrow> nat" where
  "share r n i = r div n + (if i < r mod n then 1 else 0)"

lemma share_Suc: "i < n \<Longrightarrow> share (Suc r) n i = share r n i + (if r mod n = i then 1 else 0)"
  by (cases "Suc (r mod n) = n") (auto simp: share_def div_Suc mod_Suc)

lemma share_le: "0 < n \<Longrightarrow> share r n i \<le> r"
proof -
  assume "0 < n"
  then have "r div n \<le> n * (r div n)" by simp
  then have "r div n + r mod n \<le> r" using mult_div_mod_eq [of n r] by linarith
  then show ?thesis unfolding share_def by (simp split: if_splits)
qed

lemma sum_share: "0 < n \<Longrightarrow> (\<Sum>i < n. share r n i) = r"
proof (induction r)
  case 0
  then show ?case by (simp add: share_def)
next
  case (Suc r)
  have "(\<Sum>i < n. share (Suc r) n i) = (\<Sum>i < n. share r n i) + (\<Sum>i < n. if r mod n = i then 1 else 0)"
    by (simp add: share_Suc sum.distrib)
  then show ?case using Suc by simp
qed

lemma pipe_index:
  assumes "0 < sint (n :: u32)"
  shows "sint (ucast (r mod scast n :: u64) :: u32) = int (unat r mod nat (sint n))"
proof -
  define m where "m = nat (sint n)"
  have m: "sint n = int m" "0 < m" "m < 2147483648" using assms sint_lt [of n] by (simp_all add: m_def)
  have "scast n = (of_nat m :: u64)" by (simp add: scast_eq m(1))
  then have u: "unat (r mod scast n :: u64) = unat r mod m" using m(3) by (simp add: unat_mod unat_of_nat)
  have l: "unat r mod m < m" using m(2) by simp
  have "unat (ucast (r mod scast n :: u64) :: u32) = unat r mod m"
    using u l m(3) by (simp add: unsigned_ucast_eq take_bit_nat_eq_self)
  then show ?thesis using l m(1,3) by (simp add: sint_nonneg_unat)
qed

text \<open>
  The invariant: the counters are the numbers of clients, and the clients handed to each thread, be they
  in its pipe, served or refused, are its share.
\<close>

definition net_inv :: "nat \<Rightarrow> nat \<Rightarrow> 'c server \<Rightarrow> bool" where
  "net_inv n k s \<longleftrightarrow>
     0 < n \<and> 0 < sint (sk_num_threads (sv_sk s)) \<and> nat (sint (sk_num_threads (sv_sk s))) = n \<and>
     length (sk_pipe (sv_sk s)) = n \<and> length (sk_threads (sv_sk s)) = n \<and>
     length (sv_queue s) = n \<and> length (sv_served s) = n \<and> length (sv_refused s) = n \<and>
     unat (sk_counter (sv_sk s)) = k \<and> unat (sk_round_robin_counter (sv_sk s)) + length (sv_closed s) = k \<and>
     (\<forall>i < n. length (sv_queue s ! i) + length (sv_served s ! i) + length (sv_refused s ! i) =
        share (unat (sk_round_robin_counter (sv_sk s))) n i) \<and>
     (\<forall>i < n. unat (nt_counter (sk_threads (sv_sk s) ! i)) = length (sv_served s ! i))"

lemma unat_Suc_u64: "Suc (unat w) < 18446744073709551616 \<Longrightarrow> unat (w + 1) = Suc (unat w)" for w :: u64
  by (simp add: unat_word_ariths)

lemma net_inv_connect:
  assumes inv: "net_inv n k s" and k: "Suc k < 18446744073709551616" and "status \<noteq> - 1"
    and cb: "main_new_connection_cb status accept (sv_sk s) = Inr (reqs, sk)"
  shows "net_inv n (Suc k) (foldl (main_request c) (s\<lparr>sv_sk := sk\<rparr>) reqs)"
proof (cases "accept = 0")
  case False
  then show ?thesis using assms by (auto simp: main_new_connection_cb_def Let_def net_inv_def unat_Suc_u64)
next
  case True
  let ?rr = "unat (sk_round_robin_counter (sv_sk s))"
  have rr: "Suc ?rr < 18446744073709551616" using inv k by (simp add: net_inv_def)
  have ix: "nat (sint (ucast (sk_round_robin_counter (sv_sk s) mod scast (sk_num_threads (sv_sk s))) :: u32)) = ?rr mod n"
    using pipe_index [of "sk_num_threads (sv_sk s)" "sk_round_robin_counter (sv_sk s)"] inv by (simp add: net_inv_def)
  have sk: "reqs = [SendTo (?rr mod n)]" "sk = (sv_sk s)\<lparr>sk_counter := sk_counter (sv_sk s) + 1,
      sk_round_robin_counter := sk_round_robin_counter (sv_sk s) + 1\<rparr>"
    using cb True assms(3) by (auto simp: main_new_connection_cb_def Let_def ix split: if_splits)
  have "length ((sv_queue s)[?rr mod n := sv_queue s ! (?rr mod n) @ [c]] ! i) + length (sv_served s ! i) +
      length (sv_refused s ! i) = share (Suc ?rr) n i" if "i < n" for i
    using inv that by (cases "?rr mod n = i") (auto simp: net_inv_def share_Suc)
  then show ?thesis using inv k rr by (simp add: sk net_inv_def unat_Suc_u64)
qed

lemma net_inv_receive:
  assumes inv: "net_inv n k s" and k: "k < 18446744073709551616" and i: "i < length (sv_queue s)" "sv_queue s ! i = c # cs"
    and "0 \<le> nread" "pending \<noteq> 0"
    and cb: "thread_new_connection_cb nread pending UV_TCP accept (sk_threads (sv_sk s) ! i) = Inr (reqs, skt)"
  shows "net_inv n k (foldl (thread_request i c)
    (s\<lparr>sv_queue := (sv_queue s)[i := cs], sv_sk := (sv_sk s)\<lparr>sk_threads := (sk_threads (sv_sk s))[i := skt]\<rparr>\<rparr>) reqs)"
proof -
  let ?t = "sk_threads (sv_sk s) ! i"
  have n: "i < n" using inv i(1) by (simp add: net_inv_def)
  have len: "length (sv_queue s ! j) + length (sv_served s ! j) + length (sv_refused s ! j) =
      share (unat (sk_round_robin_counter (sv_sk s))) n j"
    and cnt: "unat (nt_counter (sk_threads (sv_sk s) ! j)) = length (sv_served s ! j)" if "j < n" for j
    using inv that by (simp_all add: net_inv_def)
  have leni: "Suc (length cs + length (sv_served s ! i) + length (sv_refused s ! i)) =
      share (unat (sk_round_robin_counter (sv_sk s))) n i" using len [OF n] i(2) by simp
  show ?thesis
  proof (cases "accept = 0")
    case True
    have "share (unat (sk_round_robin_counter (sv_sk s))) n i \<le> unat (sk_round_robin_counter (sv_sk s))"
      using n by (intro share_le) simp
    then have "Suc (unat (nt_counter ?t)) < 18446744073709551616"
      using len [OF n] cnt [OF n] i(2) inv k by (simp add: net_inv_def)
    then have "unat (nt_counter ?t + 1) = Suc (length (sv_served s ! i))" using cnt [OF n] by (simp add: unat_Suc_u64)
    moreover have "reqs = [ReadStart]" "skt = ?t\<lparr>nt_counter := nt_counter ?t + 1\<rparr>"
      using cb True assms(5,6) by (simp_all add: thread_new_connection_cb_def split: if_splits)
    ultimately show ?thesis using inv len leni n by (auto simp: net_inv_def nth_list_update)
  next
    case False
    then have "reqs = [CloseClient]" "skt = ?t"
      using cb assms(5,6) by (simp_all add: thread_new_connection_cb_def split: if_splits)
    then show ?thesis using inv len leni n by (auto simp: net_inv_def nth_list_update)
  qed
qed

lemma map_update_same: "g x = g (xs ! i) \<Longrightarrow> map g (xs[i := x]) = map g xs"
  by (cases "i < length xs") (simp_all add: map_update list_update_same_conv list_update_beyond)

definition same_server :: "net_sock_t \<Rightarrow> net_sock_t \<Rightarrow> bool" where
  "same_server sk sk' \<longleftrightarrow> length (sk_pipe sk') = length (sk_pipe sk) \<and> sk_num_threads sk' = sk_num_threads sk \<and>
     sk_counter sk' = sk_counter sk \<and> sk_round_robin_counter sk' = sk_round_robin_counter sk \<and>
     map nt_counter (sk_threads sk') = map nt_counter (sk_threads sk)"

lemma socketpairs_ok:
  assumes "\<forall>i. socketpair i \<noteq> None"
  shows "\<exists>sk'. socketpairs socketpair i m sk = (0, sk') \<and> same_server sk sk'"
proof (induction m arbitrary: i sk)
  case (Suc m)
  from assms obtain fd0 fd1 where fd: "socketpair i = Some (fd0, fd1)" by fastforce
  let ?sk = "sk\<lparr>sk_pipe := (sk_pipe sk)[i := fd0],
    sk_threads := (sk_threads sk)[i := (sk_threads sk ! i)\<lparr>nt_notify_receive_fd := fd1\<rparr>]\<rparr>"
  have "same_server sk ?sk" by (simp add: same_server_def map_update_same)
  then show ?case using Suc [of "Suc i" ?sk] fd by (auto simp: same_server_def)
qed (simp add: same_server_def)

lemma net_sock_run_same: "same_server sk (net_sock_run sk)"
proof -
  have "map nt_counter (fold (\<lambda>i ts. ts[i := (ts ! i)\<lparr>nt_id := int i\<rparr>]) is ts) = map nt_counter ts" for "is" ts
    by (induction "is" arbitrary: ts) (simp_all add: map_update_same)
  then show ?thesis by (simp add: net_sock_run_def same_server_def)
qed

lemma net_inv_start:
  assumes "net_sock_create socketpair addr port backlog num_threads = Inr sk" "\<forall>i. socketpair i \<noteq> None"
    and n: "0 < sint num_threads"
  shows "net_inv (nat (sint num_threads)) 0 (server0 (net_sock_run sk))"
proof -
  let ?n = "nat (sint num_threads)"
  define sk0 where "sk0 = \<lparr>sk_addr = (case addr of None \<Rightarrow> [48, 46, 48, 46, 48, 46, 48] | Some a \<Rightarrow> a), sk_backlog = backlog,
    sk_port = port, sk_counter = 0, sk_num_threads = num_threads, sk_threads = replicate ?n thread0, sk_pipe = replicate ?n 0,
    sk_round_robin_counter = 0\<rparr>"
  have "same_server sk0 sk"
    using assms(1) socketpairs_ok [OF assms(2), of 0 ?n sk0]
    by (auto simp: net_sock_create_def net_sock_init_def Let_def sk0_def)
  moreover have sk0: "sk_num_threads sk0 = num_threads" "length (sk_pipe sk0) = ?n" "sk_counter sk0 = 0"
      "sk_round_robin_counter sk0 = 0" "map nt_counter (sk_threads sk0) = replicate ?n 0"
    by (simp_all add: sk0_def thread0_def)
  ultimately have "same_server sk0 (net_sock_run sk)" using net_sock_run_same [of sk] by (simp add: same_server_def)
  then have r: "sk_num_threads (net_sock_run sk) = num_threads" "length (sk_pipe (net_sock_run sk)) = ?n"
      "sk_counter (net_sock_run sk) = 0" "sk_round_robin_counter (net_sock_run sk) = 0"
      "map nt_counter (sk_threads (net_sock_run sk)) = replicate ?n 0"
    using sk0 by (simp_all add: same_server_def)
  have l: "length (sk_threads (net_sock_run sk)) = ?n" using arg_cong [OF r(5), of length] by simp
  then have "nt_counter (sk_threads (net_sock_run sk) ! i) = 0" if "i < ?n" for i
    using r(5) that by (metis nth_map nth_replicate)
  then show ?thesis using r(1-4) l n by (simp add: net_inv_def server0_def share_def)
qed

lemma net_inv_reachable:
  assumes "net_reach sk0 k s" "net_inv n 0 (server0 sk0 :: 'c server)" "k < 18446744073709551616"
  shows "net_inv n k (s :: 'c server)"
  using assms
proof (induction rule: net_reach.induct)
  case (connect k s status accept reqs sk c)
  then show ?case using net_inv_connect [of n k s status accept reqs sk c] by simp
next
  case (receive k s i c cs nread pending accept reqs skt)
  then show ?case using net_inv_receive [of n k s i c cs nread pending accept reqs skt] by simp
qed

lemma of_nat_unat_eq: "unat w = n \<Longrightarrow> w = of_nat n" for w :: u64
  by auto

lemma length_concat_sum: "length xss = n \<Longrightarrow> length (concat xss) = (\<Sum>i < n. length (xss ! i))"
  by (simp add: length_concat sum_list_sum_nth atLeast0LessThan)

lemma fold_add_upt: "fold (\<lambda>i s. s + f i) [0 ..< n] 0 = (\<Sum>i < n. f i)" for f :: "nat \<Rightarrow> u64"
  by (induction n) simp_all

section \<open>Properties\<close>

text \<open>
  (C17) The main thread hands its clients to the worker threads in turn: in every reachable state of a server with \<open>n\<close>
  threads, the number of clients that a thread has got, those in its pipe included, is its share of the clients
  accepted, so two threads differ by one client at most, and the counter of a thread is the number of clients it serves.
\<close>

theorem net_round_robin:
  fixes s :: "'c server"
  assumes "net_sock_create socketpair addr port backlog num_threads = Inr sk" "\<forall>i. socketpair i \<noteq> None"
    and "0 < sint num_threads" "net_reach (net_sock_run sk) k s" "k < 18446744073709551616"
    and "i < nat (sint num_threads)"
  shows "length (sv_queue s ! i) + length (sv_served s ! i) + length (sv_refused s ! i) =
      share (k - length (sv_closed s)) (nat (sint num_threads)) i \<and>
    nt_counter (sk_threads (sv_sk s) ! i) = of_nat (length (sv_served s ! i))"
proof -
  have inv: "net_inv (nat (sint num_threads)) k s"
    using net_inv_reachable [OF assms(4) net_inv_start [OF assms(1-3)] assms(5)] .
  then have "unat (nt_counter (sk_threads (sv_sk s) ! i)) = length (sv_served s ! i)"
    using assms(6) by (simp add: net_inv_def)
  then have "nt_counter (sk_threads (sv_sk s) ! i) = of_nat (length (sv_served s ! i))" by (rule of_nat_unat_eq)
  moreover have "unat (sk_round_robin_counter (sv_sk s)) = k - length (sv_closed s)"
    using inv by (auto simp: net_inv_def)
  ultimately show ?thesis using inv assms(6) by (simp add: net_inv_def)
qed

text \<open>
  What \<^verbatim>\<open>net_handle_metric\<close> prints: the number of connections, the number of clients served, and as failures all
  the others, those refused and those that still wait in a pipe. The difference never wraps.
\<close>

theorem net_metric:
  fixes s :: "'c server"
  assumes "net_sock_create socketpair addr port backlog num_threads = Inr sk" "\<forall>i. socketpair i \<noteq> None"
    and "0 < sint num_threads" "net_reach (net_sock_run sk) k s" "k < 18446744073709551616"
  shows "net_handle_metric (sv_sk s) =
      (of_nat k, of_nat (length (concat (sv_served s))),
       of_nat (length (sv_closed s) + length (concat (sv_refused s)) + length (concat (sv_queue s)))) \<and>
    k = length (concat (sv_served s)) + length (sv_closed s) + length (concat (sv_refused s)) + length (concat (sv_queue s))"
proof -
  let ?n = "nat (sint num_threads)"
  have inv: "net_inv ?n k s"
    using net_inv_reachable [OF assms(4) net_inv_start [OF assms(1-3)] assms(5)] .
  have len: "length (sv_queue s) = ?n" "length (sv_served s) = ?n" "length (sv_refused s) = ?n"
    using inv by (simp_all add: net_inv_def)
  have "length (concat (sv_queue s)) + length (concat (sv_served s)) + length (concat (sv_refused s)) =
      (\<Sum>i < ?n. share (unat (sk_round_robin_counter (sv_sk s))) ?n i)"
    using inv by (simp add: length_concat_sum [OF len(1)] length_concat_sum [OF len(2)] length_concat_sum [OF len(3)]
        net_inv_def flip: sum.distrib)
  then have k: "k = length (concat (sv_served s)) + length (sv_closed s) + length (concat (sv_refused s)) +
      length (concat (sv_queue s))"
    using inv sum_share [of ?n] by (simp add: net_inv_def)
  have cnt: "nt_counter (sk_threads (sv_sk s) ! i) = of_nat (length (sv_served s ! i))" if "i < ?n" for i
    using inv that by (intro of_nat_unat_eq) (simp add: net_inv_def)
  have "fold (\<lambda>i x. x + nt_counter (sk_threads (sv_sk s) ! i)) [0 ..< ?n] 0 = of_nat (length (concat (sv_served s)))"
    by (simp add: fold_add_upt length_concat_sum [OF len(2)] cnt)
  moreover have "sk_counter (sv_sk s) = of_nat k" using inv by (intro of_nat_unat_eq) (simp add: net_inv_def)
  moreover have "nat (sint (sk_num_threads (sv_sk s))) = ?n" using inv by (simp add: net_inv_def)
  ultimately have "net_handle_metric (sv_sk s) = (of_nat k, of_nat (length (concat (sv_served s))),
      of_nat k - of_nat (length (concat (sv_served s))))"
    by (simp add: net_handle_metric_def Let_def)
  moreover have "(of_nat k :: u64) = of_nat (length (concat (sv_served s))) +
      of_nat (length (sv_closed s) + length (concat (sv_refused s)) + length (concat (sv_queue s)))"
    using k by (metis add.assoc of_nat_add)
  ultimately show ?thesis using k by simp
qed

lemma deinit_threads_all:
  assumes "i + n \<le> length (sk_threads sk)"
  shows "deinit_threads sk i n = (if \<forall>j. i \<le> j \<and> j < i + n \<longrightarrow> nt_thread_loop (sk_threads sk ! j)
    then Inr (concat (map (\<lambda>j. [(Some j, LoopStop), (Some j, LoopClose), (Some j, ThreadJoin)]) [i ..< i + n]))
    else Inl OutOfBounds)"
  using assms
proof (induction n arbitrary: i)
  case (Suc n)
  have all: "(\<forall>j. i \<le> j \<and> j < i + Suc n \<longrightarrow> P j) \<longleftrightarrow> P i \<and> (\<forall>j. Suc i \<le> j \<and> j < Suc i + n \<longrightarrow> P j)" for P :: "nat \<Rightarrow> bool"
    using less_Suc_eq_le by (auto simp: Suc_le_eq le_less)
  have "[i ..< i + Suc n] = i # [Suc i ..< Suc i + n]" by (simp add: upt_rec)
  then show ?case using Suc.IH [of "Suc i"] Suc.prems unfolding all by (simp add: net_sock_thread_deinit_def)
qed simp

text \<open>
  \<^verbatim>\<open>net_sock_destroy\<close> on a server whose workers have all started stops the loop of each, closes it and joins the thread,
  in the order of the threads, and then stops the main loop. A worker that has not run \<^verbatim>\<open>net_sock_thread_init\<close> yet, as in
  a server that was never run, has a null loop, and stopping it is a fault.
\<close>

theorem net_sock_destroy_stops:
  assumes "length (sk_threads sk) = nat (sint (sk_num_threads sk))"
  shows "net_sock_destroy (Live sk) =
    (if \<forall>t \<in> set (sk_threads sk). nt_thread_loop t
     then Inr (concat (map (\<lambda>j. [(Some j, LoopStop), (Some j, LoopClose), (Some j, ThreadJoin)])
            [0 ..< length (sk_threads sk)]) @ [(None, LoopStop)], Freed)
     else Inl OutOfBounds)"
  using deinit_threads_all [of 0 "nat (sint (sk_num_threads sk))" sk] assms
  by (auto simp: net_sock_destroy_def net_sock_deinit_def all_set_conv_all_nth)

text \<open>A server of two threads.\<close>

definition some_sk :: net_sock_t where
  "some_sk = \<lparr>sk_addr = [49], sk_backlog = 5, sk_port = 80, sk_counter = 0, sk_num_threads = 2,
     sk_threads = [\<lparr>nt_thread_loop = False, nt_notify_receive_fd = 8, nt_counter = 0, nt_id = 0\<rparr>, \<lparr>nt_thread_loop = False, nt_notify_receive_fd = 8, nt_counter = 0, nt_id = 0\<rparr>],
     sk_pipe = [7, 7], sk_round_robin_counter = 0\<rparr>"

theorem net_sock_destroy_stops_witness:
  "net_sock_destroy (Live (some_sk\<lparr>sk_threads := map (snd \<circ> net_sock_thread_init) (sk_threads some_sk)\<rparr>)) =
     Inr ([(Some 0, LoopStop), (Some 0, LoopClose), (Some 0, ThreadJoin), (Some 1, LoopStop), (Some 1, LoopClose),
       (Some 1, ThreadJoin), (None, LoopStop)], Freed) \<and>
   net_sock_destroy (Live some_sk) = Inl OutOfBounds"
  using net_sock_destroy_stops [of "some_sk\<lparr>sk_threads := map (snd \<circ> net_sock_thread_init) (sk_threads some_sk)\<rparr>"]
    net_sock_destroy_stops [of some_sk]
  by (simp add: some_sk_def net_sock_thread_init_def Let_def numeral_2_eq_2)

text \<open>The same server with a connection.\<close>

lemma some_sk_create: "net_sock_create (\<lambda>_. Some (7, 8)) (Some [49]) 80 5 2 = Inr some_sk"
  by (simp add: net_sock_create_def net_sock_init_def some_sk_def thread0_def numeral_2_eq_2)

lemma some_reach:
  obtains s :: "nat server" where "net_reach (net_sock_run some_sk) 1 s" "sv_queue s = [[42], []]" "sv_served s = [[], []]"
    "sv_refused s = [[], []]" "sv_closed s = []"
proof -
  let ?sk = "net_sock_run some_sk"
  have "main_new_connection_cb 0 0 (sv_sk (server0 ?sk :: nat server)) =
      Inr ([SendTo 0], ?sk\<lparr>sk_counter := 1, sk_round_robin_counter := 1\<rparr>)"
    by (simp add: main_new_connection_cb_def server0_def net_sock_run_def some_sk_def Let_def)
  from net_reach.connect [OF net_reach.start _ this, of 42] that show thesis
    by (simp add: server0_def net_sock_run_def some_sk_def)
qed

theorem net_round_robin_witness:
  "\<exists>s :: nat server. net_reach (net_sock_run some_sk) 1 s \<and>
    length (sv_queue s ! 0) + length (sv_served s ! 0) + length (sv_refused s ! 0) = share 1 2 0"
proof (rule some_reach)
  fix s :: "nat server"
  assume s: "net_reach (net_sock_run some_sk) 1 s" "sv_closed s = []"
  have "length (sv_queue s ! 0) + length (sv_served s ! 0) + length (sv_refused s ! 0) = share 1 2 0"
    using net_round_robin [OF some_sk_create _ _ s(1), of 0] s(2) by simp
  with s(1) show ?thesis by blast
qed

theorem net_metric_witness:
  "\<exists>s :: nat server. net_reach (net_sock_run some_sk) 1 s \<and> net_handle_metric (sv_sk s) = (1, 0, 1)"
proof (rule some_reach)
  fix s :: "nat server"
  assume s: "net_reach (net_sock_run some_sk) 1 s" "sv_queue s = [[42], []]" "sv_served s = [[], []]"
    "sv_refused s = [[], []]" "sv_closed s = []"
  have "net_handle_metric (sv_sk s) = (1, 0, 1)" using net_metric [OF some_sk_create _ _ s(1)] s(2-5) by simp
  with s(1) show ?thesis by blast
qed

end
