(* ===== verification/Connection.thy ===== *)
theory Connection
  imports Net
begin

text \<open>
  A client of the server of \<^verbatim>\<open>base/net_sock.c\<close>: the callbacks \<^verbatim>\<open>alloc_buffer\<close>, \<^verbatim>\<open>read_cb\<close> and \<^verbatim>\<open>write_cb\<close> put together, with
  the buffers that they allocate and free. What is used of libuv is documented: it calls \<^verbatim>\<open>alloc_buffer\<close> before every \<^verbatim>\<open>read_cb\<close>
  and stores at most \<^verbatim>\<open>len\<close> bytes in the buffer; a \<^verbatim>\<open>uv_write\<close> that returns 0 is followed by one call of \<^verbatim>\<open>write_cb\<close>, in the
  order of the writes; one that returns an error is not. The code does not look at that result, so both are possible here.
\<close>

section \<open>The buffers of a connection\<close>

text \<open>
  Buffers have numbers; \<open>cn_mem\<close> has the content of those allocated and not freed, \<open>cn_writes\<close> the writes under way, in
  order, each a buffer and a length, and \<open>cn_sent\<close> what libuv has sent to the client.
\<close>

record conn =
  cn_next :: nat
  cn_mem :: "nat \<rightharpoonup> bytes"
  cn_writes :: "(nat \<times> nat) list"
  cn_sent :: bytes
  cn_closed :: bool

definition conn0 :: conn where
  "conn0 = \<lparr>cn_next = 0, cn_mem = Map.empty, cn_writes = [], cn_sent = [], cn_closed = False\<rparr>"

text \<open>Freeing a buffer that is not in memory is a fault.\<close>

definition free_buffer :: "nat \<Rightarrow> conn \<Rightarrow> conn res" where
  "free_buffer b c = (if b \<in> dom (cn_mem c) then Inr (c\<lparr>cn_mem := (cn_mem c)(b := None)\<rparr>) else Inl OutOfBounds)"

text \<open>The requests of a callback for the buffer \<open>b\<close>; \<open>ok\<close> says whether \<^verbatim>\<open>uv_write\<close> takes the write.\<close>

fun conn_requests :: "nat \<Rightarrow> bool \<Rightarrow> uv_request list \<Rightarrow> conn \<Rightarrow> conn res" where
  "conn_requests b ok [] c = Inr c"
| "conn_requests b ok (Write bs # rs) c =
     conn_requests b ok rs (if ok then c\<lparr>cn_writes := cn_writes c @ [(b, length bs)]\<rparr> else c)"
| "conn_requests b ok (FreeBuf # rs) c = rbind (free_buffer b c) (conn_requests b ok rs)"
| "conn_requests b ok (CloseClient # rs) c = conn_requests b ok rs (c\<lparr>cn_closed := True\<rparr>)"
| "conn_requests b ok (_ # rs) c = conn_requests b ok rs c"

text \<open>What comes from the client: data, or an error or the end of the data as a negative number.\<close>

datatype conn_in = Data bytes | Failed int

text \<open>Data are stored from the start of the buffer; more than it holds is a fault.\<close>

fun uv_fill :: "uv_buf_t \<Rightarrow> conn_in \<Rightarrow> (int \<times> bytes) res" where
  "uv_fill buf (Data ds) =
     (if length ds \<le> length (ub_base buf) then Inr (int (length ds), ds @ drop (length ds) (ub_base buf))
      else Inl OutOfBounds)"
| "uv_fill buf (Failed n) = Inr (n, ub_base buf)"

definition conn_read :: "(nat \<Rightarrow> bytes) \<Rightarrow> u64 \<Rightarrow> conn_in \<Rightarrow> bool \<Rightarrow> conn \<Rightarrow> conn res" where
  "conn_read malloc suggested_size inp ok c =
     rbind (uv_fill (alloc_buffer malloc suggested_size) inp) (\<lambda>(nread, base).
     let b = cn_next c; c = c\<lparr>cn_next := Suc b, cn_mem := (cn_mem c)(b \<mapsto> base)\<rparr> in
     rbind (read_cb nread base) (\<lambda>rs. conn_requests b ok rs c))"

text \<open>
  The first write under way is done: with status 0 the bytes that its buffer holds now have been sent; then
  \<^verbatim>\<open>write_cb\<close> is called.
\<close>

definition conn_written :: "int \<Rightarrow> conn \<Rightarrow> conn res" where
  "conn_written status c =
     (case cn_writes c of
        [] \<Rightarrow> Inl OutOfBounds
      | (b, n) # ws \<Rightarrow>
          (case cn_mem c b of
             None \<Rightarrow> Inl OutOfBounds
           | Some base \<Rightarrow>
               conn_requests b True (write_cb status)
                 (c\<lparr>cn_writes := ws, cn_sent := cn_sent c @ (if status = 0 then take n base else [])\<rparr>)))"

text \<open>
  The states of a connection: \<open>acc\<close> is the list of the data whose write was taken, \<open>sts\<close> the statuses of the writes
  done, \<open>lost\<close> the number of the writes refused. The size of a read is at most \<^verbatim>\<open>len\<close>.
\<close>

inductive conn_reach :: "(nat \<Rightarrow> bytes) \<Rightarrow> bytes list \<Rightarrow> int list \<Rightarrow> nat \<Rightarrow> conn \<Rightarrow> bool" for malloc where
  start: "conn_reach malloc [] [] 0 conn0"
| read: "conn_reach malloc acc sts lost c \<Longrightarrow> length ds \<le> unat (ub_len (alloc_buffer malloc sz)) \<Longrightarrow>
    conn_read malloc sz (Data ds) ok c = Inr c' \<Longrightarrow>
    conn_reach malloc (if ds \<noteq> [] \<and> ok then acc @ [ds] else acc) sts (if ds \<noteq> [] \<and> \<not> ok then Suc lost else lost) c'"
| fail: "conn_reach malloc acc sts lost c \<Longrightarrow> n < 0 \<Longrightarrow> conn_read malloc sz (Failed n) ok c = Inr c' \<Longrightarrow>
    conn_reach malloc acc sts lost c'"
| written: "conn_reach malloc acc sts lost c \<Longrightarrow> conn_written status c = Inr c' \<Longrightarrow>
    conn_reach malloc acc (sts @ [status]) lost c'"

text \<open>What the client should have got: the data of the writes done with status 0.\<close>

definition echoed :: "bytes list \<Rightarrow> int list \<Rightarrow> bytes" where
  "echoed acc sts = concat (map fst (filter (\<lambda>(ds, status). status = 0) (zip acc sts)))"

section \<open>The invariant\<close>

text \<open>The data of a write are still in its buffer.\<close>

definition holds :: "(nat \<rightharpoonup> bytes) \<Rightarrow> nat \<times> nat \<Rightarrow> bytes \<Rightarrow> bool" where
  "holds mem w ds \<longleftrightarrow> snd w = length ds \<and> (\<exists>base. mem (fst w) = Some base \<and> take (length ds) base = ds)"

definition conn_inv :: "bytes list \<Rightarrow> int list \<Rightarrow> nat \<Rightarrow> conn \<Rightarrow> bool" where
  "conn_inv acc sts lost c \<longleftrightarrow> length sts \<le> length acc \<and>
     list_all2 (holds (cn_mem c)) (cn_writes c) (drop (length sts) acc) \<and> distinct (map fst (cn_writes c)) \<and>
     (\<forall>b \<in> dom (cn_mem c). b < cn_next c) \<and> finite (dom (cn_mem c)) \<and>
     card (dom (cn_mem c)) = length (cn_writes c) + lost \<and> cn_sent c = echoed acc sts"

lemma writes_in_mem: "list_all2 (holds mem) ws dss \<Longrightarrow> fst ` set ws \<subseteq> dom mem"
  by (induction rule: list_all2_induct) (auto simp: holds_def)

lemma holds_other: "list_all2 (holds mem) ws dss \<Longrightarrow> b \<notin> fst ` set ws \<Longrightarrow> list_all2 (holds (mem(b := v))) ws dss"
  by (induction rule: list_all2_induct) (auto simp: holds_def)

lemma echoed_accept: "length sts \<le> length acc \<Longrightarrow> echoed (acc @ [ds]) sts = echoed acc sts"
  by (simp add: echoed_def zip_append1)

lemma echoed_done:
  "drop (length sts) acc = ds # dss \<Longrightarrow> length sts \<le> length acc \<Longrightarrow>
   echoed acc (sts @ [status]) = echoed acc sts @ (if status = 0 then ds else [])"
proof -
  assume drop: "drop (length sts) acc = ds # dss" and len: "length sts \<le> length acc"
  have "zip (take (length sts) acc @ drop (length sts) acc) sts = zip (take (length sts) acc) sts"
    using len by (subst zip_append1) simp
  then have eq: "zip (take (length sts) acc) sts = zip acc sts" by (simp only: append_take_drop_id)
  show ?thesis using drop by (simp add: echoed_def zip_append2 eq)
qed

lemma fresh_buffer:
  assumes "conn_inv acc sts lost c"
  shows "cn_mem c (cn_next c) = None" "cn_next c \<notin> fst ` set (cn_writes c)"
proof -
  show "cn_mem c (cn_next c) = None" using assms by (force simp: conn_inv_def)
  then show "cn_next c \<notin> fst ` set (cn_writes c)"
    using writes_in_mem assms unfolding conn_inv_def by blast
qed

lemma conn_data_inv:
  assumes inv: "conn_inv acc sts lost c" and malloc: "\<forall>n. length (malloc n) = n" and len: "length ds \<le> unat sz"
  shows "\<exists>c'. conn_read malloc sz (Data ds) ok c = Inr c' \<and>
    conn_inv (if ds \<noteq> [] \<and> ok then acc @ [ds] else acc) sts (if ds \<noteq> [] \<and> \<not> ok then Suc lost else lost) c'"
proof (cases "ds = []")
  case True
  let ?c = "c\<lparr>cn_next := Suc (cn_next c), cn_mem := (cn_mem c)(cn_next c := None)\<rparr>"
  have "conn_read malloc sz (Data ds) ok c = Inr ?c"
    using True by (simp add: conn_read_def read_cb_def free_buffer_def Let_def)
  moreover have "conn_inv acc sts lost ?c"
    using inv fresh_buffer(1) [OF inv] by (auto simp: conn_inv_def fun_upd_idem intro: less_SucI)
  ultimately show ?thesis using True by simp
next
  case False
  let ?base = "ds @ drop (length ds) (malloc (unat sz))"
  let ?c = "c\<lparr>cn_next := Suc (cn_next c), cn_mem := (cn_mem c)(cn_next c \<mapsto> ?base)\<rparr>"
  have "conn_read malloc sz (Data ds) ok c =
      Inr (if ok then ?c\<lparr>cn_writes := cn_writes c @ [(cn_next c, length ds)]\<rparr> else ?c)"
    using False malloc len by (simp add: conn_read_def read_cb_def alloc_buffer_def Let_def)
  moreover have new: "cn_next c \<notin> dom (cn_mem c)" using fresh_buffer(1) [OF inv] by auto
  have "list_all2 (holds (cn_mem ?c)) (cn_writes c) (drop (length sts) acc)"
    using holds_other fresh_buffer(2) [OF inv] inv by (simp add: conn_inv_def)
  then have "conn_inv (if ok then acc @ [ds] else acc) sts (if \<not> ok then Suc lost else lost)
      (if ok then ?c\<lparr>cn_writes := cn_writes c @ [(cn_next c, length ds)]\<rparr> else ?c)"
    using inv new fresh_buffer(2) [OF inv]
    by (auto simp: conn_inv_def echoed_accept holds_def card_insert_disjoint intro: list_all2_appendI less_SucI)
  ultimately show ?thesis using False by auto
qed

lemma conn_fail_inv:
  assumes inv: "conn_inv acc sts lost c" and "n < 0"
  shows "\<exists>c'. conn_read malloc sz (Failed n) ok c = Inr c' \<and> conn_inv acc sts lost c' \<and> cn_closed c'"
proof -
  let ?c = "c\<lparr>cn_next := Suc (cn_next c), cn_mem := (cn_mem c)(cn_next c := None), cn_closed := True\<rparr>"
  have "conn_read malloc sz (Failed n) ok c = Inr ?c"
    using assms(2) by (simp add: conn_read_def read_cb_def free_buffer_def Let_def)
  moreover have "conn_inv acc sts lost ?c"
    using inv fresh_buffer(1) [OF inv] by (auto simp: conn_inv_def fun_upd_idem intro: less_SucI)
  ultimately show ?thesis by simp
qed

lemma conn_written_inv:
  assumes inv: "conn_inv acc sts lost c" and "cn_writes c \<noteq> []"
  shows "\<exists>c'. conn_written status c = Inr c' \<and> conn_inv acc (sts @ [status]) lost c'"
proof -
  obtain b n ws where w: "cn_writes c = (b, n) # ws" using assms(2) by (metis list.exhaust prod.exhaust)
  then obtain ds dss where ds: "drop (length sts) acc = ds # dss" "holds (cn_mem c) (b, n) ds"
      "list_all2 (holds (cn_mem c)) ws dss"
    using inv by (auto simp: conn_inv_def list_all2_Cons1)
  then obtain base where base: "cn_mem c b = Some base" "take n base = ds" "n = length ds" by (auto simp: holds_def)
  let ?c = "c\<lparr>cn_writes := ws, cn_sent := cn_sent c @ (if status = 0 then ds else []), cn_mem := (cn_mem c)(b := None)\<rparr>"
  have "conn_written status c = Inr ?c"
    using w base by (auto simp: conn_written_def write_cb_def free_write_req_def free_buffer_def)
  moreover have "Suc (length sts) \<le> length acc" using arg_cong [OF ds(1), of length] by simp
  moreover have "drop (Suc (length sts)) acc = dss" using ds(1) by (metis drop_Suc list.sel(3) tl_drop)
  moreover have "list_all2 (holds ((cn_mem c)(b := None))) ws dss"
    using holds_other [OF ds(3), of b None] inv w by (auto simp: conn_inv_def)
  moreover have "card (dom (cn_mem c) - {b}) = length ws + lost"
    using inv w base(1) by (simp add: conn_inv_def card_Diff_singleton domI)
  ultimately have "conn_written status c = Inr ?c" "conn_inv acc (sts @ [status]) lost ?c"
    using inv w echoed_done [OF ds(1)] by (auto simp: conn_inv_def)
  then show ?thesis by blast
qed

lemma conn_reach_inv:
  assumes malloc: "\<forall>n. length (malloc n) = n"
  shows "conn_reach malloc acc sts lost c \<Longrightarrow> conn_inv acc sts lost c"
proof (induction rule: conn_reach.induct)
  case start
  then show ?case by (simp add: conn_inv_def conn0_def echoed_def)
next
  case (read acc sts lost c ds sz ok c')
  have "length ds \<le> unat sz" using read.hyps(2) by (simp add: alloc_buffer_def)
  from conn_data_inv [OF read.IH malloc this, of ok] read.hyps(3) show ?case by auto
next
  case (fail acc sts lost c n sz ok c')
  then show ?case using conn_fail_inv [OF fail.IH fail.hyps(2), of malloc sz ok] by auto
next
  case (written acc sts lost c status c')
  then have "cn_writes c \<noteq> []" by (auto simp: conn_written_def)
  then show ?case using conn_written_inv [OF written.IH, of status] written.hyps(2) by auto
qed

section \<open>Property\<close>

text \<open>
  (C20) While \<^verbatim>\<open>malloc\<close> gives memory, a connection echoes what it reads, for the writes that \<^verbatim>\<open>uv_write\<close> takes: what was sent
  to the client are the data of the writes done without an error, in the order of the reads, and the data of the writes under
  way are still in their buffers. The buffers in memory are as many as the writes under way and the writes that \<^verbatim>\<open>uv_write\<close>
  refused, whose buffers leak because the code does not look at its result. The next read of up to the suggested size, the next
  error and the next \<^verbatim>\<open>write_cb\<close> return without a fault: no buffer is overrun, freed twice or used after it was freed.
\<close>

theorem connection_echoes:
  assumes "\<forall>n. length (malloc n) = n" "conn_reach malloc acc sts lost c"
  shows "cn_sent c = echoed acc sts \<and> list_all2 (holds (cn_mem c)) (cn_writes c) (drop (length sts) acc) \<and>
    card (dom (cn_mem c)) = length (cn_writes c) + lost \<and>
    (\<forall>ds sz ok. length ds \<le> unat sz \<longrightarrow> (\<exists>c'. conn_read malloc sz (Data ds) ok c = Inr c')) \<and>
    (\<forall>n sz ok. n < 0 \<longrightarrow> (\<exists>c'. conn_read malloc sz (Failed n) ok c = Inr c' \<and> cn_closed c')) \<and>
    (\<forall>status. cn_writes c \<noteq> [] \<longrightarrow> (\<exists>c'. conn_written status c = Inr c'))"
proof -
  note inv = conn_reach_inv [OF assms]
  have "\<exists>c'. conn_read malloc sz (Data ds) ok c = Inr c'" if "length ds \<le> unat sz" for ds sz ok
    using conn_data_inv [OF inv assms(1) that, of ok] by blast
  moreover have "\<exists>c'. conn_read malloc sz (Failed n) ok c = Inr c' \<and> cn_closed c'" if "n < 0" for n sz ok
    using conn_fail_inv [OF inv that, of malloc sz ok] by blast
  moreover have "\<exists>c'. conn_written status c = Inr c'" if "cn_writes c \<noteq> []" for status
    using conn_written_inv [OF inv that, of status] by blast
  ultimately show ?thesis using inv by (simp add: conn_inv_def)
qed

text \<open>A read of two bytes that is sent back, and one whose write is refused.\<close>

theorem connection_echoes_witness:
  "\<exists>c. conn_reach (\<lambda>n. replicate n 0) [[104, 105]] [0] 1 c \<and> cn_sent c = [104, 105] \<and> card (dom (cn_mem c)) = 1"
proof -
  let ?m = "\<lambda>n. replicate n (0 :: u8)"
  have m: "\<forall>n. length (?m n) = n" by simp
  note start = conn_reach.start [of ?m]
  obtain c1 where c1: "conn_read ?m 4 (Data [104, 105]) True conn0 = Inr c1"
    using conn_data_inv [OF conn_reach_inv [OF m start] m, of "[104, 105]" 4 True] by auto
  have r1: "conn_reach ?m [[104, 105]] [] 0 c1"
    using conn_reach.read [OF start _ c1] by (simp add: alloc_buffer_def)
  then have "cn_writes c1 \<noteq> []" using conn_reach_inv [OF m r1] by (auto simp: conn_inv_def)
  then obtain c2 where c2: "conn_written 0 c1 = Inr c2" using conn_written_inv [OF conn_reach_inv [OF m r1]] by blast
  have r2: "conn_reach ?m [[104, 105]] [0] 0 c2" using conn_reach.written [OF r1 c2] by simp
  obtain c3 where c3: "conn_read ?m 4 (Data [33]) False c2 = Inr c3"
    using conn_data_inv [OF conn_reach_inv [OF m r2] m, of "[33]" 4 False] by auto
  have r3: "conn_reach ?m [[104, 105]] [0] 1 c3"
    using conn_reach.read [OF r2 _ c3] by (simp add: alloc_buffer_def)
  from connection_echoes [OF m r3] r3 show ?thesis by (intro exI [of _ c3]) (auto simp: echoed_def)
qed

end
