(* ===== verification/Chunk.thy ===== *)
theory Chunk
  imports Hashmap Hash Utils
begin

text \<open>
  Model of \<^verbatim>\<open>chunkserver/chunk.c\<close> and \<^verbatim>\<open>chunkserver/chunk_cache.c\<close>: a chunk is a file that is read and written in
  batches, and the cache of chunks is a hash map. The system calls on files are parameters: a file
  of the environment is a value of type \<open>'f\<close>, and a call gives its result and the file after it.
\<close>

section \<open>chunk.c\<close>

record 'c chunk_t =
  ck_id :: u32
  ck_offset :: u32
  ck_fd :: int
  ck_total :: u32
  ck_ctx :: "'c option"

definition CHUNK_OP_LEN :: u32 where
  "CHUNK_OP_LEN = 65535"

text \<open>\<^verbatim>\<open>min\<close> of \<^verbatim>\<open>chunk.c\<close>, on \<^verbatim>\<open>int\<close>.\<close>

definition c_min :: "u32 \<Rightarrow> u32 \<Rightarrow> u32" where
  "c_min a b = (if sint a < sint b then a else b)"

text \<open>The file name \<^verbatim>\<open>%d.chunk\<close> for a number that is not negative; it fits the buffer of 64 bytes.\<close>

definition chunk_file :: "u32 \<Rightarrow> bytes" where
  "chunk_file i = snprintf 64 (dec (unat i) @ lit ''.chunk'')"

text \<open>
  \<^verbatim>\<open>chunk_init\<close>: opening the file gives a descriptor or \<open>-1\<close>. The thread that is started runs \<^verbatim>\<open>chunk_heal_check\<close>, which
  returns its argument at once; its handle is not part of the model.
\<close>

definition chunk_heal_check :: "'c chunk_t \<Rightarrow> 'c chunk_t" where
  "chunk_heal_check arg = arg"

definition chunk_init :: "(bytes \<Rightarrow> int) \<Rightarrow> 'c chunk_t option \<Rightarrow> u32 \<Rightarrow> 'c option \<Rightarrow> (int \<times> 'c chunk_t option) res" where
  "chunk_init open_rw blk i ctx =
     (case blk of
        Some b \<Rightarrow>
          if sint i \<ge> 0
          then let fd = open_rw (chunk_file i) in
               ASSERT (fd \<noteq> - 1)
                 (Inr (0, Some (b\<lparr>ck_fd := fd, ck_offset := 0, ck_id := i, ck_ctx := ctx\<rparr>)))
          else Inr (- 1, blk)
      | None \<Rightarrow> Inr (- 1, None))"

definition chunk_alloc :: "(bytes \<Rightarrow> int) \<Rightarrow> u32 \<Rightarrow> 'c option \<Rightarrow> 'c chunk_t option res" where
  "chunk_alloc open_rw i ctx =
     rbind (chunk_init open_rw (Some \<lparr>ck_id = 0, ck_offset = 0, ck_fd = 0, ck_total = 0, ck_ctx = None\<rparr>) i ctx)
       (\<lambda>(r, ck). Inr (if r \<noteq> 0 then None else ck))"

text \<open>The number of bytes of the next batch: both arguments of \<^verbatim>\<open>min\<close> are converted to \<^verbatim>\<open>int\<close>.\<close>

definition batch_size :: "u64 \<Rightarrow> u64 \<Rightarrow> u64" where
  "batch_size len tot = scast (c_min (ucast (len - tot)) CHUNK_OP_LEN)"

text \<open>
  The loop of \<^verbatim>\<open>chunk_write\<close>. The test of the unsigned \<^verbatim>\<open>w_sz\<close> for a negative value is never true; the
  result of \<^verbatim>\<open>write\<close> is added to \<^verbatim>\<open>total\<close> whatever it is. Not returning is \<open>None\<close>. A file of the
  environment has the type \<open>'f\<close>; the system calls take the descriptor and the file.
\<close>

partial_function (option) chunk_write_loop ::
    "(int \<Rightarrow> bytes \<Rightarrow> 'f \<Rightarrow> int \<times> 'f) \<Rightarrow> int \<Rightarrow> bytes \<Rightarrow> u64 \<Rightarrow> u64 \<Rightarrow> 'f \<Rightarrow> (u64 \<times> 'f) res option" where
  "chunk_write_loop sys_write fd buf len tot f =
     (if tot < len
      then if unat tot + unat (batch_size len tot) \<le> length buf
           then let (n, f') = sys_write fd (take (unat (batch_size len tot)) (drop (unat tot) buf)) f
                in chunk_write_loop sys_write fd buf len (tot + word_of_int n) f'
           else Some (Inl OutOfBounds)
      else Some (Inr (tot, f)))"

definition chunk_write :: "(int \<Rightarrow> u64 \<Rightarrow> 'f \<Rightarrow> 'f) \<Rightarrow> (int \<Rightarrow> bytes \<Rightarrow> 'f \<Rightarrow> int \<times> 'f) \<Rightarrow>
    'c chunk_t \<Rightarrow> bytes \<Rightarrow> u64 \<Rightarrow> u64 \<Rightarrow> 'f \<Rightarrow> (u64 \<times> 'f) res option" where
  "chunk_write lseek_cur sys_write blk buf pos len f =
     chunk_write_loop sys_write (ck_fd blk) buf len 0 (lseek_cur (ck_fd blk) pos f)"

text \<open>The loop of \<^verbatim>\<open>chunk_read\<close>: \<^verbatim>\<open>read\<close> gives a count, the bytes stored and the file after it.\<close>

partial_function (option) chunk_read_loop ::
    "(int \<Rightarrow> nat \<Rightarrow> 'f \<Rightarrow> int \<times> bytes \<times> 'f) \<Rightarrow> int \<Rightarrow> bytes \<Rightarrow> u64 \<Rightarrow> u64 \<Rightarrow> 'f \<Rightarrow>
       (u64 \<times> bytes \<times> 'f) res option" where
  "chunk_read_loop sys_read fd buf len tot f =
     (if tot < len
      then if unat tot + unat (batch_size len tot) \<le> length buf
           then let (n, bs, f') = sys_read fd (unat (batch_size len tot)) f
                in chunk_read_loop sys_read fd (take (unat tot) buf @ bs @ drop (unat tot + length bs) buf) len
                     (tot + word_of_int n) f'
           else Some (Inl OutOfBounds)
      else Some (Inr (tot, buf, f)))"

definition chunk_read :: "(int \<Rightarrow> u64 \<Rightarrow> 'f \<Rightarrow> 'f) \<Rightarrow> (int \<Rightarrow> nat \<Rightarrow> 'f \<Rightarrow> int \<times> bytes \<times> 'f) \<Rightarrow>
    'c chunk_t \<Rightarrow> bytes \<Rightarrow> u64 \<Rightarrow> u64 \<Rightarrow> 'f \<Rightarrow> (u64 \<times> bytes \<times> 'f) res option" where
  "chunk_read lseek_cur sys_read blk buf pos len f =
     chunk_read_loop sys_read (ck_fd blk) buf len 0 (lseek_cur (ck_fd blk) pos f)"

text \<open>\<^verbatim>\<open>chunk_deinit\<close>: the descriptor closed and the chunk after it.\<close>

definition chunk_deinit :: "'c chunk_t option \<Rightarrow> int list \<times> 'c chunk_t option" where
  "chunk_deinit blk =
     (case blk of None \<Rightarrow> ([], None) | Some b \<Rightarrow> ([ck_fd b], Some (b\<lparr>ck_fd := - 1\<rparr>)))"

definition chunk_destroy :: "'c chunk_t option \<Rightarrow> int list" where
  "chunk_destroy ck = fst (chunk_deinit ck)"

section \<open>chunk_cache.c\<close>

text \<open>
  The cache: its map and the array of its chunks, which is left empty. The event of a free callback is the pointer that it is called on.
\<close>

datatype freed = FreeKey bytes | FreeChunk bytes

record 'c chunk_cache_t =
  cc_cache :: "freed c_hashmap_t option"
  cc_chunks :: "'c chunk_t option list option"

definition hashmap_hash_cb :: "bytes \<Rightarrow> u64 \<Rightarrow> u32" where
  "hashmap_hash_cb k sz = c_hash_fnv1a_64 (take (unat sz) k)"

text \<open>\<^verbatim>\<open>hashmap_key_compare_cb\<close> reads an \<^verbatim>\<open>int\<close> of each key, and gives 1 when they are equal.\<close>

definition hashmap_key_compare_cb :: "bytes \<Rightarrow> bytes \<Rightarrow> u64 \<Rightarrow> int" where
  "hashmap_key_compare_cb k1 k2 len = (if le32 k1 0 = le32 k2 0 then 1 else 0)"

definition chunk_cache_new :: "u32 \<Rightarrow> 'c chunk_cache_t" where
  "chunk_cache_new max_count =
     \<lparr>cc_cache = c_hashmap_alloc (ucast max_count) (Some hashmap_hash_cb) (Some hashmap_key_compare_cb),
      cc_chunks = Some (replicate (unat max_count) None)\<rparr>"

definition chunk_cache_remove :: "'c chunk_cache_t option \<Rightarrow> bytes option \<Rightarrow> u64 \<Rightarrow>
    (int \<times> 'c chunk_cache_t option \<times> freed list) res" where
  "chunk_cache_remove cc key key_sz =
     (case cc of
        Some c \<Rightarrow>
          if cc_cache c \<noteq> None
          then rbind (c_hashmap_del (cc_cache c) key key_sz) (\<lambda>(r, m, es). Inr (r, Some (c\<lparr>cc_cache := m\<rparr>), es))
          else Inr (- 1, cc, [])
      | None \<Rightarrow> Inr (- 1, None, []))"

definition chunk_cache_add :: "'c chunk_cache_t option \<Rightarrow> bytes option \<Rightarrow> u64 \<Rightarrow> bytes option \<Rightarrow> u64 \<Rightarrow>
    (int \<times> 'c chunk_cache_t option) res" where
  "chunk_cache_add cc key key_sz val val_sz =
     (case cc of
        Some c \<Rightarrow>
          if cc_cache c \<noteq> None
          then rbind (c_hashmap_put (cc_cache c) key key_sz val val_sz) (\<lambda>(r, m). Inr (r, Some (c\<lparr>cc_cache := m\<rparr>)))
          else Inr (- 1, cc)
      | None \<Rightarrow> Inr (- 1, None))"

text \<open>\<^verbatim>\<open>chunk_cache_destroy\<close> sets the free callbacks and frees the array; the map and its pairs stay.\<close>

definition chunk_cache_destroy :: "'c chunk_cache_t option \<Rightarrow> 'c chunk_cache_t option" where
  "chunk_cache_destroy cc =
     map_option (\<lambda>c. c\<lparr>cc_cache := c_hashmap_set_free_cb (cc_cache c) (Some FreeKey) (Some FreeChunk),
                      cc_chunks := None\<rparr>) cc"

section \<open>Batches\<close>

lemma c_min_of_nat:
  assumes "a < 2 ^ 31" "b < 2 ^ 31"
  shows "c_min (of_nat a) (of_nat b) = of_nat (min a b)"
proof -
  have "sint (of_nat a :: u32) = int a" "sint (of_nat b :: u32) = int b"
    using assms by (simp_all add: sint_nonneg_unat unat_of_nat_in)
  then show ?thesis by (simp add: c_min_def min_def)
qed

lemma batch_size_eq:
  assumes "unat len < 2 ^ 31" "tot < len"
  shows "unat (batch_size len tot) = min (unat len - unat tot) 65535"
proof -
  define k where "k = unat len - unat tot"
  have k: "len - tot = of_nat k" "k < 2 ^ 31"
    using assms by (auto simp: k_def word_less_nat_alt of_nat_diff)
  have u: "ucast (of_nat n :: u64) = (of_nat n :: u32)" if "n < 2 ^ 31" for n
    using that by (simp add: unsigned_of_nat take_bit_nat_eq_self)
  have "batch_size len tot = scast (of_nat (min k 65535) :: u32)"
    using k(2) c_min_of_nat [of k 65535] by (simp add: batch_size_def k(1) u CHUNK_OP_LEN_def)
  also have "\<dots> = of_nat (min k 65535)"
    using int_return_value [of "min k 65535"] k(2) by (simp add: u)
  finally show ?thesis by (simp add: unat_of_nat_in k_def)
qed

section \<open>A file opened to append\<close>

text \<open>
  What POSIX says of a file with \<^verbatim>\<open>O_APPEND\<close> whose reads and writes do not fail, whose bytes are \<open>content\<close> and whose offset is \<open>offset\<close>:
  \<^verbatim>\<open>lseek\<close> with \<^verbatim>\<open>SEEK_CUR\<close> adds to the offset, \<^verbatim>\<open>write\<close> puts one byte or more at the end of the file and
  leaves the offset there, and \<^verbatim>\<open>read\<close> gives the bytes at the offset, none of them at the end of the file
  only. Both calls may transfer less than they are asked to. What the code does when a call fails is outside of this.
\<close>

definition append_file :: "('f \<Rightarrow> bytes) \<Rightarrow> ('f \<Rightarrow> nat) \<Rightarrow> (int \<Rightarrow> u64 \<Rightarrow> 'f \<Rightarrow> 'f) \<Rightarrow>
    (int \<Rightarrow> bytes \<Rightarrow> 'f \<Rightarrow> int \<times> 'f) \<Rightarrow> (int \<Rightarrow> nat \<Rightarrow> 'f \<Rightarrow> int \<times> bytes \<times> 'f) \<Rightarrow> int \<Rightarrow> bool" where
  "append_file content offset lseek_cur sys_write sys_read fd \<longleftrightarrow>
     (\<forall>f pos. unat pos < 2 ^ 63 \<longrightarrow>
        content (lseek_cur fd pos f) = content f \<and> offset (lseek_cur fd pos f) = offset f + unat pos) \<and>
     (\<forall>f bs. bs \<noteq> [] \<longrightarrow>
        (\<exists>n f'. sys_write fd bs f = (int n, f') \<and> 0 < n \<and> n \<le> length bs \<and>
           content f' = content f @ take n bs \<and> offset f' = length (content f'))) \<and>
     (\<forall>f k. 0 < k \<longrightarrow>
        (\<exists>n f'. sys_read fd k f = (int n, take n (drop (offset f) (content f)), f') \<and> n \<le> k \<and>
           n \<le> length (content f) - offset f \<and> (offset f < length (content f) \<longrightarrow> 0 < n) \<and>
           content f' = content f \<and> offset f' = offset f + n))"

lemma append_file_lseek:
  "append_file content offset lseek_cur sys_write sys_read fd \<Longrightarrow> unat pos < 2 ^ 63 \<Longrightarrow>
   content (lseek_cur fd pos f) = content f \<and> offset (lseek_cur fd pos f) = offset f + unat pos"
  by (simp add: append_file_def)

lemma append_file_write:
  assumes "append_file content offset lseek_cur sys_write sys_read fd" "bs \<noteq> []"
  obtains n f' where "sys_write fd bs f = (int n, f')" "0 < n" "n \<le> length bs"
    "content f' = content f @ take n bs" "offset f' = length (content f')"
proof -
  from assms(1) have "\<forall>f bs. bs \<noteq> [] \<longrightarrow>
      (\<exists>n f'. sys_write fd bs f = (int n, f') \<and> 0 < n \<and> n \<le> length bs \<and>
         content f' = content f @ take n bs \<and> offset f' = length (content f'))"
    unfolding append_file_def by (elim conjE)
  then show thesis using assms(2) that by metis
qed

lemma append_file_read:
  assumes "append_file content offset lseek_cur sys_write sys_read fd" "0 < k"
  obtains n f' where "sys_read fd k f = (int n, take n (drop (offset f) (content f)), f')" "n \<le> k"
    "n \<le> length (content f) - offset f" "offset f < length (content f) \<Longrightarrow> 0 < n"
    "content f' = content f" "offset f' = offset f + n"
proof -
  from assms(1) have "\<forall>f k. 0 < k \<longrightarrow>
      (\<exists>n f'. sys_read fd k f = (int n, take n (drop (offset f) (content f)), f') \<and> n \<le> k \<and>
         n \<le> length (content f) - offset f \<and> (offset f < length (content f) \<longrightarrow> 0 < n) \<and>
         content f' = content f \<and> offset f' = offset f + n)"
    unfolding append_file_def by (elim conjE)
  then show thesis using assms(2) that by metis
qed

text \<open>Adding the count of a batch to \<^verbatim>\<open>total\<close> does not wrap.\<close>

lemma unat_add_count:
  "unat len < 2 ^ 31 \<Longrightarrow> unat tot + n \<le> unat len \<Longrightarrow> unat (tot + word_of_int (int n) :: u64) = unat tot + n"
  for len tot :: u64
  by (simp add: unat_word_ariths unat_of_nat)

lemma chunk_write_loop_appends:
  assumes env: "append_file content offset lseek_cur sys_write sys_read fd"
    and len: "unat len < 2 ^ 31" "unat len \<le> length buf"
  shows "tot \<le> len \<Longrightarrow> tot < len \<or> offset f = length (content f) \<Longrightarrow>
     \<exists>f'. chunk_write_loop sys_write fd buf len tot f = Some (Inr (len, f')) \<and>
          content f' = content f @ take (unat len - unat tot) (drop (unat tot) buf) \<and>
          offset f' = length (content f')"
proof (induction "unat len - unat tot" arbitrary: tot f rule: less_induct)
  case less
  show ?case
  proof (cases "tot < len")
    case False
    then have "tot = len" using less.prems by simp
    then show ?thesis using less.prems by (simp add: chunk_write_loop.simps [of _ _ _ len])
  next
    case True
    define k where "k = min (unat len - unat tot) 65535"
    have bs: "unat (batch_size len tot) = k" using batch_size_eq [OF len(1) True] by (simp add: k_def)
    have lt: "unat tot < unat len" using True by (simp add: word_less_nat_alt)
    then have k: "0 < k" "unat tot + k \<le> unat len" by (auto simp: k_def)
    let ?b = "take k (drop (unat tot) buf)"
    have lb: "length ?b = k" using k len(2) by simp
    then have "?b \<noteq> []" using k(1) by auto
    then obtain n f' where w: "sys_write fd ?b f = (int n, f')" "0 < n" "n \<le> k"
        "content f' = content f @ take n ?b" "offset f' = length (content f')"
      using append_file_write [OF env] lb by metis
    let ?t = "tot + word_of_int (int n)"
    have t: "unat ?t = unat tot + n"
      using unat_add_count [OF len(1)] k(2) w(3) by (meson add_left_mono order_trans)
    have step: "chunk_write_loop sys_write fd buf len tot f = chunk_write_loop sys_write fd buf len ?t f'"
      using True k(2) len(2) w(1) by (subst chunk_write_loop.simps) (simp add: bs)
    have "\<exists>g. chunk_write_loop sys_write fd buf len ?t f' = Some (Inr (len, g)) \<and>
        content g = content f' @ take (unat len - unat ?t) (drop (unat ?t) buf) \<and> offset g = length (content g)"
      using t lt k w(2,3,5) by (intro less.hyps) (auto simp: word_le_nat_alt)
    moreover have "take n ?b @ take (unat len - unat ?t) (drop (unat ?t) buf) =
        take (unat len - unat tot) (drop (unat tot) buf)"
      using w(3) k(2) t by (simp add: min_absorb1 add.commute flip: take_add drop_drop)
    ultimately show ?thesis using step w(4) by auto
  qed
qed

text \<open>One call of \<^verbatim>\<open>read\<close> in the loop of \<^verbatim>\<open>chunk_read\<close>, on a file that is opened to append.\<close>

lemma read_batch:
  assumes env: "append_file content offset lseek_cur sys_write sys_read fd"
    and len: "unat len < 2 ^ 31" and "tot < len"
  obtains n f' where
    "sys_read fd (unat (batch_size len tot)) f = (int n, take n (drop (offset f) (content f)), f')"
    "unat tot + unat (batch_size len tot) \<le> unat len" "unat tot + n \<le> unat len"
    "unat (tot + word_of_int (int n)) = unat tot + n" "offset f < length (content f) \<Longrightarrow> 0 < n"
    "length (take n (drop (offset f) (content f))) = n" "content f' = content f" "offset f' = offset f + n"
proof -
  define k where "k = unat (batch_size len tot)"
  have k: "0 < k" "unat tot + k \<le> unat len"
    using batch_size_eq [OF len assms(3)] assms(3) by (auto simp: k_def word_less_nat_alt)
  obtain n f' where r: "sys_read fd k f = (int n, take n (drop (offset f) (content f)), f')" "n \<le> k"
      "n \<le> length (content f) - offset f" "offset f < length (content f) \<Longrightarrow> 0 < n"
      "content f' = content f" "offset f' = offset f + n"
    using append_file_read [OF env k(1)] by metis
  then show thesis using k unat_add_count [OF len, of tot n] by (intro that [folded k_def]) auto
qed

lemma chunk_read_loop_step:
  assumes "append_file content offset lseek_cur sys_write sys_read fd"
    and "unat len < 2 ^ 31" "unat len \<le> length buf" "tot < len"
  obtains n f' where "unat (tot + word_of_int (int n)) = unat tot + n" "unat tot + n \<le> unat len"
    "length (take n (drop (offset f) (content f))) = n" "offset f < length (content f) \<Longrightarrow> 0 < n"
    "content f' = content f" "offset f' = offset f + n"
    "chunk_read_loop sys_read fd buf len tot f =
       chunk_read_loop sys_read fd (take (unat tot) buf @ take n (drop (offset f) (content f)) @ drop (unat tot + n) buf)
         len (tot + word_of_int (int n)) f'"
proof (rule read_batch [OF assms(1,2,4), of f])
  fix n f'
  assume r: "sys_read fd (unat (batch_size len tot)) f = (int n, take n (drop (offset f) (content f)), f')"
    "unat tot + unat (batch_size len tot) \<le> unat len" "unat tot + n \<le> unat len"
    "unat (tot + word_of_int (int n)) = unat tot + n" "offset f < length (content f) \<Longrightarrow> 0 < n"
    "length (take n (drop (offset f) (content f))) = n" "content f' = content f" "offset f' = offset f + n"
  have "chunk_read_loop sys_read fd buf len tot f =
      chunk_read_loop sys_read fd (take (unat tot) buf @ take n (drop (offset f) (content f)) @ drop (unat tot + n) buf)
        len (tot + word_of_int (int n)) f'"
    using assms(3,4) r(1,2,6) by (subst chunk_read_loop.simps) simp
  then show thesis using r by (intro that)
qed

lemma chunk_read_loop_in_file:
  assumes env: "append_file content offset lseek_cur sys_write sys_read fd" and len: "unat len < 2 ^ 31"
  shows "tot \<le> len \<Longrightarrow> unat len \<le> length buf \<Longrightarrow> offset f + (unat len - unat tot) \<le> length (content f) \<Longrightarrow>
     \<exists>f'. chunk_read_loop sys_read fd buf len tot f =
            Some (Inr (len, take (unat tot) buf @ take (unat len - unat tot) (drop (offset f) (content f)) @
                              drop (unat len) buf, f')) \<and>
          content f' = content f \<and> offset f' = offset f + (unat len - unat tot)"
proof (induction "unat len - unat tot" arbitrary: tot f buf rule: less_induct)
  case less
  show ?case
  proof (cases "tot < len")
    case False
    then have "tot = len" using less.prems by simp
    then show ?thesis by (simp add: chunk_read_loop.simps [of _ _ _ len])
  next
    case True
    then have lt: "unat tot < unat len" by (simp add: word_less_nat_alt)
    obtain n f' where r: "unat (tot + word_of_int (int n)) = unat tot + n" "unat tot + n \<le> unat len"
        "length (take n (drop (offset f) (content f))) = n" "offset f < length (content f) \<Longrightarrow> 0 < n"
        "content f' = content f" "offset f' = offset f + n"
        "chunk_read_loop sys_read fd buf len tot f =
         chunk_read_loop sys_read fd (take (unat tot) buf @ take n (drop (offset f) (content f)) @ drop (unat tot + n) buf)
           len (tot + word_of_int (int n)) f'"
      using chunk_read_loop_step [OF env len less.prems(2) True] by metis
    let ?t = "tot + word_of_int (int n)"
    let ?b = "take (unat tot) buf @ take n (drop (offset f) (content f)) @ drop (unat tot + n) buf"
    have n: "0 < n" using r(4) less.prems(3) lt by simp
    note lb = r(3)
    have "\<exists>g. chunk_read_loop sys_read fd ?b len ?t f' =
            Some (Inr (len, take (unat ?t) ?b @ take (unat len - unat ?t) (drop (offset f') (content f')) @
                              drop (unat len) ?b, g)) \<and>
          content g = content f' \<and> offset g = offset f' + (unat len - unat ?t)"
      using r n lt less.prems(2,3) lb by (intro less.hyps) (auto simp: word_le_nat_alt)
    moreover have "take (unat ?t) ?b = take (unat tot) buf @ take n (drop (offset f) (content f))"
      using r(1,2) less.prems(2) lb by simp
    moreover have "drop (unat len) ?b = drop (unat len) buf"
      using r(2) less.prems(2) lb by (simp add: min_absorb2)
    moreover have "take n (drop (offset f) (content f)) @ take (unat len - unat ?t) (drop (offset f') (content f')) =
        take (unat len - unat tot) (drop (offset f) (content f))"
      using r(1,2,5,6) by (simp add: add.commute flip: take_add drop_drop)
    ultimately show ?thesis using r by auto
  qed
qed

text \<open>A read that asks for more than is left of the file comes to the end of the file and stays there.\<close>

lemma chunk_read_loop_returns_in_file:
  assumes env: "append_file content offset lseek_cur sys_write sys_read fd" and len: "unat len < 2 ^ 31"
    and "chunk_read_loop sys_read fd buf len tot f = Some y"
  shows "unat len \<le> length buf \<Longrightarrow> tot < len \<Longrightarrow> offset f + (unat len - unat tot) \<le> length (content f)"
proof -
  let ?P = "\<lambda>sr fd' b l t f y. sr = sys_read \<longrightarrow> fd' = fd \<longrightarrow> l = len \<longrightarrow> unat len \<le> length b \<longrightarrow> t < len \<longrightarrow>
      offset f + (unat len - unat t) \<le> length (content f)"
  have "?P sys_read fd buf len tot f y"
  proof (rule chunk_read_loop.raw_induct [where P = ?P, OF _ assms(3)])
    fix loop :: "(int \<Rightarrow> nat \<Rightarrow> 'a \<Rightarrow> int \<times> bytes \<times> 'a) \<Rightarrow> int \<Rightarrow> bytes \<Rightarrow> u64 \<Rightarrow> u64 \<Rightarrow> 'a \<Rightarrow> (u64 \<times> bytes \<times> 'a) res option"
      and sr fd' b l and t :: u64 and f y
    assume IH: "\<And>sr fd' b l t f y. loop sr fd' b l t f = Some y \<Longrightarrow> ?P sr fd' b l t f y"
      and body: "(if t < l
        then if unat t + unat (batch_size l t) \<le> length b
             then let (n, bs, f') = sr fd' (unat (batch_size l t)) f
                  in loop sr fd' (take (unat t) b @ bs @ drop (unat t + length bs) b) l (t + word_of_int n) f'
             else Some (Inl OutOfBounds)
        else Some (Inr (t, b, f))) = Some y"
    show "?P sr fd' b l t f y"
    proof (intro impI)
      assume eqs: "sr = sys_read" "fd' = fd" "l = len" and b: "unat len \<le> length b" and t: "t < len"
      obtain n f' where r:
          "sys_read fd (unat (batch_size len t)) f = (int n, take n (drop (offset f) (content f)), f')"
          "unat t + unat (batch_size len t) \<le> unat len" "unat t + n \<le> unat len"
          "unat (t + word_of_int (int n)) = unat t + n" "offset f < length (content f) \<Longrightarrow> 0 < n"
          "length (take n (drop (offset f) (content f))) = n" "content f' = content f" "offset f' = offset f + n"
        using read_batch [OF env len t, of f] by metis
      let ?b = "take (unat t) b @ take n (drop (offset f) (content f)) @ drop (unat t + n) b"
      have "loop sys_read fd ?b len (t + word_of_int (int n)) f' = Some y"
        using body t b r(1,2,6) by (simp add: eqs)
      from IH [OF this] have "unat t + n < unat len \<Longrightarrow> offset f' + (unat len - (unat t + n)) \<le> length (content f')"
        using b r(4,6) by (simp add: word_less_nat_alt)
      then show "offset f + (unat len - unat t) \<le> length (content f)"
        using r(3,5-8) t by (cases "unat t + n < unat len") (auto simp: word_less_nat_alt)
    qed
  qed
  then show "unat len \<le> length buf \<Longrightarrow> tot < len \<Longrightarrow> offset f + (unat len - unat tot) \<le> length (content f)"
    by simp
qed

section \<open>Properties\<close>

text \<open>
  (C26) On a file opened to append, \<^verbatim>\<open>chunk_write\<close> always returns the number of bytes it was given, however short
  the single writes are, and puts the bytes at the end of the file: its argument \<^verbatim>\<open>pos\<close> has no effect on
  where they go.
\<close>

theorem chunk_write_appends:
  assumes "append_file content offset lseek_cur sys_write sys_read (ck_fd blk)"
    and "unat pos < 2 ^ 63" "unat len < 2 ^ 31" "unat len \<le> length buf"
  shows "\<exists>f'. chunk_write lseek_cur sys_write blk buf pos len f = Some (Inr (len, f')) \<and>
           content f' = content f @ take (unat len) buf"
proof (cases "len = 0")
  case True
  then show ?thesis
    using append_file_lseek [OF assms(1,2)] by (simp add: chunk_write_def chunk_write_loop.simps)
next
  case False
  then have "0 < len" by (simp add: word_gt_0)
  then show ?thesis
    using chunk_write_loop_appends [OF assms(1,3,4), of 0 "lseek_cur (ck_fd blk) pos f"]
      append_file_lseek [OF assms(1,2)] by (auto simp: chunk_write_def)
qed

text \<open>
  When the bytes asked for are in the file, \<^verbatim>\<open>chunk_read\<close> returns their number and leaves them at the start of the
  buffer; they are those at \<^verbatim>\<open>pos\<close> bytes after the current offset, which moves past them.
\<close>

theorem chunk_read_in_file:
  assumes "append_file content offset lseek_cur sys_write sys_read (ck_fd blk)"
    and "unat pos < 2 ^ 63" "unat len < 2 ^ 31" "unat len \<le> length buf"
    and "offset f + unat pos + unat len \<le> length (content f)"
  shows "\<exists>f'. chunk_read lseek_cur sys_read blk buf pos len f =
           Some (Inr (len, take (unat len) (drop (offset f + unat pos) (content f)) @ drop (unat len) buf, f')) \<and>
           content f' = content f \<and> offset f' = offset f + unat pos + unat len"
  using chunk_read_loop_in_file [OF assms(1,3), of 0 buf "lseek_cur (ck_fd blk) pos f"]
    append_file_lseek [OF assms(1,2), of f] assms(4,5) by (simp add: chunk_read_def)

text \<open>
  (C35) After \<^verbatim>\<open>chunk_write\<close> the offset is at the end of the file, and a \<^verbatim>\<open>chunk_read\<close> of one byte or more,
  at any \<^verbatim>\<open>pos\<close>, never returns: \<^verbatim>\<open>read\<close> gives no bytes there and the loop goes on.
\<close>

theorem chunk_read_after_write_hangs:
  assumes "append_file content offset lseek_cur sys_write sys_read (ck_fd blk)"
    and "unat pos < 2 ^ 63" "unat len < 2 ^ 31" "unat len \<le> length buf" "0 < len"
    and "unat pos' < 2 ^ 63" "unat len' < 2 ^ 31" "unat len' \<le> length buf'" "0 < len'"
  shows "\<exists>f'. chunk_write lseek_cur sys_write blk buf pos len f = Some (Inr (len, f')) \<and>
           chunk_read lseek_cur sys_read blk buf' pos' len' f' = None"
proof -
  obtain f' where w: "chunk_write lseek_cur sys_write blk buf pos len f = Some (Inr (len, f'))"
      "offset f' = length (content f')"
    using chunk_write_loop_appends [OF assms(1,3,4), of 0 "lseek_cur (ck_fd blk) pos f"] assms(5)
    by (auto simp: chunk_write_def)
  let ?g = "lseek_cur (ck_fd blk) pos' f'"
  have "\<not> offset ?g + unat len' \<le> length (content ?g)"
    using append_file_lseek [OF assms(1,6), of f'] w(2) assms(9) by (simp add: word_less_nat_alt)
  then have "chunk_read_loop sys_read (ck_fd blk) buf' len' 0 ?g \<noteq> Some y" for y
    using chunk_read_loop_returns_in_file [OF assms(1,7), of buf' 0 ?g y] assms(8,9) by auto
  then have "chunk_read lseek_cur sys_read blk buf' pos' len' f' = None"
    by (metis chunk_read_def option.exhaust)
  with w(1) show ?thesis by blast
qed

text \<open>A file in memory, on which a call transfers two bytes at most.\<close>

definition mem_lseek :: "int \<Rightarrow> u64 \<Rightarrow> bytes \<times> nat \<Rightarrow> bytes \<times> nat" where
  "mem_lseek fd pos f = (fst f, snd f + unat pos)"

definition mem_write :: "int \<Rightarrow> bytes \<Rightarrow> bytes \<times> nat \<Rightarrow> int \<times> bytes \<times> nat" where
  "mem_write fd bs f = (let b = take 2 bs in (int (length b), fst f @ b, length (fst f @ b)))"

definition mem_read :: "int \<Rightarrow> nat \<Rightarrow> bytes \<times> nat \<Rightarrow> int \<times> bytes \<times> bytes \<times> nat" where
  "mem_read fd k f = (let b = take (min 2 k) (drop (snd f) (fst f)) in (int (length b), b, fst f, snd f + length b))"

lemma mem_append_file: "append_file fst snd mem_lseek mem_write mem_read fd"
  unfolding append_file_def
proof (intro conjI allI impI)
  fix f :: "bytes \<times> nat" and bs :: bytes
  assume "bs \<noteq> []"
  then show "\<exists>n f'. mem_write fd bs f = (int n, f') \<and> 0 < n \<and> n \<le> length bs \<and>
      fst f' = fst f @ take n bs \<and> snd f' = length (fst f')"
    by (intro exI [of _ "min 2 (length bs)"]) (auto simp: mem_write_def Let_def min_def)
next
  fix f :: "bytes \<times> nat" and k :: nat
  assume "0 < k"
  then show "\<exists>n f'. mem_read fd k f = (int n, take n (drop (snd f) (fst f)), f') \<and> n \<le> k \<and>
      n \<le> length (fst f) - snd f \<and> (snd f < length (fst f) \<longrightarrow> 0 < n) \<and> fst f' = fst f \<and> snd f' = snd f + n"
    by (intro exI [of _ "min (min 2 k) (length (fst f) - snd f)"]) (auto simp: mem_read_def Let_def min_def)
qed (simp_all add: mem_lseek_def)

definition some_chunk :: "unit chunk_t" where
  "some_chunk = \<lparr>ck_id = 7, ck_offset = 0, ck_fd = 3, ck_total = 0, ck_ctx = None\<rparr>"

theorem chunk_write_appends_witness:
  "\<exists>f'. chunk_write mem_lseek mem_write some_chunk [1, 2, 3] 0 3 ([9], 0) = Some (Inr (3, f')) \<and> fst f' = [9, 1, 2, 3]"
  using chunk_write_appends [OF mem_append_file, of 0 3 "[1, 2, 3]" some_chunk "([9], 0)"] by simp

theorem chunk_read_in_file_witness:
  "\<exists>f'. chunk_read mem_lseek mem_read some_chunk [0, 0, 0, 0] 1 3 ([9, 1, 2, 3], 0) =
     Some (Inr (3, [1, 2, 3, 0], f')) \<and> snd f' = 4"
  using chunk_read_in_file [OF mem_append_file, of 1 3 "[0, 0, 0, 0]" "([9, 1, 2, 3], 0)" some_chunk] by auto

theorem chunk_read_after_write_hangs_witness:
  "\<exists>f'. chunk_write mem_lseek mem_write some_chunk [1, 2, 3] 0 3 ([9], 0) = Some (Inr (3, f')) \<and>
     chunk_read mem_lseek mem_read some_chunk [0, 0] 0 2 f' = None"
  using chunk_read_after_write_hangs [OF mem_append_file, of 0 3 "[1, 2, 3]" 0 2 "[0, 0]" some_chunk "([9], 0)"]
  by (simp add: word_gt_0)

lemma chunk_file_eq: "chunk_file i = dec (unat i) @ [46, 99, 104, 117, 110, 107]"
proof -
  have "unat i < 10 ^ 10" using unsigned_less [of i, where ?'a = nat] by simp
  then have "length (dec (unat i)) \<le> 10" by (rule length_dec) simp
  then show ?thesis by (simp add: chunk_file_def snprintf_def lit_def)
qed

text \<open>
  Chunks with different numbers have different files, and \<^verbatim>\<open>is_digit\<close>, the test with which \<^verbatim>\<open>chunk_cache_load\<close> looks
  for the files of chunks in a directory, rejects every name under which \<^verbatim>\<open>chunk_init\<close> creates one.
\<close>

theorem chunk_file_names:
  "(chunk_file i = chunk_file j \<longleftrightarrow> i = j) \<and>
   is_digit (Some (chunk_file i)) (length (chunk_file i)) = Inr False"
proof -
  have "i = j" if "chunk_file i = chunk_file j"
  proof -
    have "dec (unat i) = dec (unat j)" using that by (simp add: chunk_file_eq)
    then have "unat i = unat j" by (metis dec_value)
    then show ?thesis by (simp add: word_unat_eq_iff)
  qed
  moreover have "is_digit (Some (chunk_file i)) (length (chunk_file i)) = Inr False"
    by (simp add: is_digit_eq chunk_file_eq isdigit_def)
  ultimately show ?thesis by blast
qed

text \<open>
  A new cache of chunks refuses every chunk: \<^verbatim>\<open>chunk_cache_add\<close> gives \<^verbatim>\<open>-1\<close> and leaves the cache as it is,
  whatever its capacity.
\<close>

theorem chunk_cache_add_refused:
  "chunk_cache_add (Some (chunk_cache_new n :: 'c chunk_cache_t)) key key_sz val val_sz =
    Inr (- 1, Some (chunk_cache_new n))"
proof (cases "cc_cache (chunk_cache_new n :: 'c chunk_cache_t)")
  case None
  then show ?thesis by (simp add: chunk_cache_add_def)
next
  case (Some m)
  then have "h_max_count m = 0" by (metis chunk_cache_new_def chunk_cache_t.select_convs(1) hashmap_alloc_full)
  then have "c_hashmap_put (Some m) key key_sz val val_sz = Inr (- 1, Some m)"
    by (intro hashmap_put_full) simp
  moreover have "(chunk_cache_new n :: 'c chunk_cache_t)\<lparr>cc_cache := Some m\<rparr> = chunk_cache_new n" by (simp flip: Some)
  ultimately show ?thesis using Some by (simp add: chunk_cache_add_def)
qed

end
