(* ===== verification/Conf.thy ===== *)
theory Conf
  imports Dict
begin

text \<open>
  Model of the two configuration readers, \<^verbatim>\<open>chunkserver/conf.c\<close> and \<^verbatim>\<open>metaserver/conf.c\<close>. The JSON library jansson is not in the
  repository: its parser is a parameter that gives the members of an object in their order.
\<close>

section \<open>JSON\<close>

datatype json = JString bytes | JInteger int | JOther

type_synonym json_object = "(bytes \<times> json) list"

text \<open>\<^verbatim>\<open>json_string_value\<close> is null for a value that is no string, \<^verbatim>\<open>json_integer_value\<close> is 0 for one that is no integer.\<close>

fun json_string_value :: "json \<Rightarrow> bytes option" where
  "json_string_value (JString s) = Some s"
| "json_string_value _ = None"

fun json_integer_value :: "json \<Rightarrow> int" where
  "json_integer_value (JInteger i) = i"
| "json_integer_value _ = 0"

section \<open>chunkserver/conf.c\<close>

record conf_t =
  cf_chunk_root :: bytes
  cf_metaserver_addr :: bytes
  cf_tcp_backlog :: u32
  cf_port :: u32
  cf_work_thread_num :: u32
  cf_chunk_per_size :: u64
  cf_chunk_count :: u64

definition CONF_MAX :: nat where
  "CONF_MAX = 1024 * 1024"

text \<open>\<^verbatim>\<open>strdup(json_string_value(...))\<close>: a null pointer is read.\<close>

definition strdup_value :: "json \<Rightarrow> bytes res" where
  "strdup_value j = (case json_string_value j of None \<Rightarrow> Inl OutOfBounds | Some s \<Rightarrow> Inr s)"

text \<open>The members of the object that are read. Four members of the structure are never set.\<close>

definition conf_members :: "conf_t \<Rightarrow> json_object \<Rightarrow> conf_t option res" where
  "conf_members conf0 obj =
     (case (map_of obj (lit ''chunk_root''), map_of obj (lit ''metaserver_addr''), map_of obj (lit ''tcp_backlog'')) of
        (Some chunk_root, Some metaserver_addr, Some tcp_backlog) \<Rightarrow>
          rbind (strdup_value chunk_root) (\<lambda>r.
          rbind (strdup_value metaserver_addr) (\<lambda>a.
          Inr (Some (conf0\<lparr>cf_chunk_root := r, cf_metaserver_addr := a,
                          cf_tcp_backlog := word_of_int (json_integer_value tcp_backlog)\<rparr>))))
      | _ \<Rightarrow> Inr None)"

text \<open>
  \<^verbatim>\<open>conf_create\<close>: \<open>read_file\<close> gives the content of a file that exists and is \<open>Some None\<close> when \<^verbatim>\<open>read\<close> fails,
  \<open>heap\<close> the bytes of the buffer that \<^verbatim>\<open>malloc\<close> returns and \<open>conf0\<close> those of the structure. The result of
  \<^verbatim>\<open>read\<close> is unsigned, so a failure is not noticed; the text ends at the first zero byte of the buffer.
\<close>

definition conf_create :: "(bytes \<Rightarrow> bytes option option) \<Rightarrow> (bytes \<Rightarrow> json_object option) \<Rightarrow> bytes \<Rightarrow> conf_t \<Rightarrow> bytes option \<Rightarrow>
    conf_t option res" where
  "conf_create read_file json_loads heap conf0 conf_file =
     (case conf_file of
        None \<Rightarrow> Inr None
      | Some path \<Rightarrow>
          (case read_file path of
             None \<Rightarrow> Inr None
           | Some content \<Rightarrow>
               if content = Some [] then Inr None
               else
                 let got = (case content of None \<Rightarrow> [] | Some c \<Rightarrow> take CONF_MAX c);
                     buf = got @ drop (length got) (take CONF_MAX heap) in
                 if 0 \<notin> set buf then Inl OutOfBounds
                 else case json_loads (takeWhile (\<lambda>c. c \<noteq> 0) buf) of
                        None \<Rightarrow> Inr None
                      | Some obj \<Rightarrow> conf_members conf0 obj))"

text \<open>\<^verbatim>\<open>conf_destroy\<close>: the strings that are freed; that of \<^verbatim>\<open>metaserver_addr\<close> is not.\<close>

definition conf_destroy :: "conf_t option \<Rightarrow> bytes list" where
  "conf_destroy mconf = (case mconf of None \<Rightarrow> [] | Some c \<Rightarrow> [cf_chunk_root c])"

section \<open>metaserver/conf.c\<close>

record meta_conf_t =
  mc_conf_file :: bytes
  mc_root :: json_object

text \<open>\<^verbatim>\<open>conf_alloc\<close>: the buffer is one byte longer than the file and cleared, so the text ends with it.\<close>

definition conf_alloc :: "(bytes \<Rightarrow> bytes option) \<Rightarrow> (bytes \<Rightarrow> json_object option) \<Rightarrow> bytes \<Rightarrow> meta_conf_t res" where
  "conf_alloc read_file json_loads conf_file =
     (case read_file conf_file of
        None \<Rightarrow> Inl AssertFail
      | Some buf \<Rightarrow>
          (case json_loads (takeWhile (\<lambda>c. c \<noteq> 0) buf) of
             None \<Rightarrow> Inl AssertFail
           | Some obj \<Rightarrow> Inr \<lparr>mc_conf_file = conf_file, mc_root = obj\<rparr>))"

text \<open>
  The loop of \<^verbatim>\<open>conf_search\<close>: both lengths are those of \<^verbatim>\<open>key\<close>, and \<^verbatim>\<open>strncmp\<close> stops there. A key of the
  object is followed by its terminator.
\<close>

fun conf_loop :: "json_object \<Rightarrow> bytes \<Rightarrow> json option res" where
  "conf_loop [] key = Inr None"
| "conf_loop ((s_key, v) # iter) key =
     (let d_key_sz = length key; s_key_sz = length key in
      rbind (strncmp_eq (s_key @ [0]) key d_key_sz 0) (\<lambda>eq.
      if s_key_sz = d_key_sz \<and> eq then Inr (Some v) else conf_loop iter key))"

definition conf_search :: "meta_conf_t option \<Rightarrow> bytes option \<Rightarrow> json option res" where
  "conf_search cf key =
     (case (cf, key) of (Some c, Some k) \<Rightarrow> conf_loop (mc_root c) k | _ \<Rightarrow> Inr None)"

definition conf_free :: "meta_conf_t option \<Rightarrow> bytes list" where
  "conf_free cf = (case cf of None \<Rightarrow> [] | Some c \<Rightarrow> [mc_conf_file c])"

section \<open>Properties\<close>

text \<open>
  The reader of the chunk server parses the text of the file together with what follows it in the uninitialised buffer, up
  to the first zero byte. What it returns holds the three members it reads; the port, the number of worker threads,
  the size and the number of the chunks are what \<^verbatim>\<open>malloc\<close> left.
\<close>

theorem conf_create_reads:
  assumes "read_file path = Some (Some c)" "c \<noteq> []" "0 \<notin> set c" "length c < CONF_MAX" "length heap = CONF_MAX"
    and "0 \<in> set (drop (length c) heap)"
    and "json_loads (c @ takeWhile (\<lambda>b. b \<noteq> 0) (drop (length c) heap)) = Some obj"
    and "map_of obj (lit ''chunk_root'') = Some (JString r)" "map_of obj (lit ''metaserver_addr'') = Some (JString a)"
    and "map_of obj (lit ''tcp_backlog'') = Some (JInteger n)"
  shows "conf_create read_file json_loads heap conf0 (Some path) =
    Inr (Some \<lparr>cf_chunk_root = r, cf_metaserver_addr = a, cf_tcp_backlog = word_of_int n, cf_port = cf_port conf0,
      cf_work_thread_num = cf_work_thread_num conf0, cf_chunk_per_size = cf_chunk_per_size conf0,
      cf_chunk_count = cf_chunk_count conf0\<rparr>)"
proof -
  have "takeWhile (\<lambda>b. b \<noteq> 0) (c @ drop (length c) heap) = c @ takeWhile (\<lambda>b. b \<noteq> 0) (drop (length c) heap)"
    using assms(3) by (subst takeWhile_append2) auto
  moreover have "\<exists>x. c = x # drop 1 c" using assms(2) by (cases c) auto
  ultimately show ?thesis using assms by (auto simp: conf_create_def conf_members_def strdup_value_def Let_def)
qed

lemma conf_loop_find:
  assumes "\<forall>(k, v) \<in> set obj. 0 \<notin> set k" "0 \<notin> set key"
  shows "conf_loop obj key = Inr (map_option snd (find (\<lambda>(k, v). starts key k) obj))"
  using assms(1) by (induction obj) (auto simp: strncmp_eq_starts [OF _ assms(2)])

text \<open>
  The search of the metadata server gives the first member whose key \<^emph>\<open>starts\<close> with the key searched for. It is the member with
  that key when no other key of the object starts with it.
\<close>

theorem conf_search_prefix:
  assumes "\<forall>(k, v) \<in> set (mc_root c). 0 \<notin> set k" "0 \<notin> set key"
  shows "conf_search (Some c) (Some key) = Inr (map_option snd (find (\<lambda>(k, v). starts key k) (mc_root c))) \<and>
    ((\<forall>(k, v) \<in> set (mc_root c). starts key k \<longrightarrow> k = key) \<longrightarrow>
       conf_search (Some c) (Some key) = Inr (map_of (mc_root c) key))"
proof -
  have "map_option snd (find (\<lambda>(k, v). starts key k) obj) = map_of obj key"
    if "\<forall>(k, v) \<in> set obj. starts key k \<longrightarrow> k = key" for obj :: json_object
    using that by (induction obj) (auto simp: starts_def)
  then show ?thesis using conf_loop_find [OF assms] by (simp add: conf_search_def)
qed

theorem conf_search_prefix_witness:
  "conf_search (Some \<lparr>mc_conf_file = [], mc_root = [([112, 50], JInteger 1), ([112], JInteger 2)]\<rparr>) (Some [112]) =
     Inr (Some (JInteger 1))"
  using conf_search_prefix [of "\<lparr>mc_conf_file = [], mc_root = [([112, 50], JInteger 1), ([112], JInteger 2)]\<rparr>" "[112]"]
  by (simp add: starts_def)

theorem conf_create_reads_witness:
  "\<exists>c. conf_create (\<lambda>_. Some (Some [123, 125]))
      (\<lambda>_. Some [(lit ''chunk_root'', JString [47]), (lit ''metaserver_addr'', JString [104]), (lit ''tcp_backlog'', JInteger 5)])
      (replicate CONF_MAX 0) \<lparr>cf_chunk_root = [], cf_metaserver_addr = [], cf_tcp_backlog = 0, cf_port = 0xDEAD,
        cf_work_thread_num = 0, cf_chunk_per_size = 0, cf_chunk_count = 0\<rparr> (Some [97]) = Inr (Some c) \<and>
    cf_chunk_root c = [47] \<and> cf_port c = 0xDEAD"
proof -
  have "drop 2 (replicate CONF_MAX 0) \<noteq> ([] :: bytes)" by (simp add: CONF_MAX_def)
  then have "(0 :: u8) \<in> set (drop 2 (replicate CONF_MAX 0))"
    by (metis in_set_dropD in_set_replicate last_in_set)
  then show ?thesis
    using conf_create_reads [of "\<lambda>_. Some (Some [123, 125])" "[97]" "[123, 125]" "replicate CONF_MAX 0"
        "\<lambda>_. Some [(lit ''chunk_root'', JString [47]), (lit ''metaserver_addr'', JString [104]), (lit ''tcp_backlog'', JInteger 5)]"]
    by (simp add: lit_def CONF_MAX_def)
qed

end
