(* ===== verification/Chunk_server.thy ===== *)
theory Chunk_server
  imports Chunk Conf Net
begin

text \<open>
  Model of \<^verbatim>\<open>chunkserver/chunk_server.c\<close>, \<^verbatim>\<open>chunk_node_meta.c\<close> and \<^verbatim>\<open>main.c\<close>: the chunk server put together from its configuration, two
  sockets, the cache and the chunks. \<^verbatim>\<open>chunk_cache_alloc\<close>, which \<^verbatim>\<open>chunk_server_alloc\<close> calls, is declared nowhere; it is a
  parameter.
\<close>

section \<open>chunk_server.c\<close>

record 'c chunk_server_t =
  srv_root :: bytes
  srv_meta_sock :: net_sock_t
  srv_chunk_sock :: net_sock_t
  srv_chunks :: "'c chunk_t list"
  srv_chunk_cache :: "'c chunk_cache_t option"
  srv_chunk_per_size :: u64
  srv_chunk_count :: u64

text \<open>\<^verbatim>\<open>atoi\<close> of a string of digits; it stops at the first other byte. A sign and leading white space are read too.\<close>

definition c_isspace :: "u8 \<Rightarrow> bool" where
  "c_isspace c \<longleftrightarrow> c \<in> {32, 9, 10, 11, 12, 13}"

definition digits_value :: "bytes \<Rightarrow> nat" where
  "digits_value s = foldl (\<lambda>n c. 10 * n + (unat c - 48)) 0 (takeWhile isdigit s)"

definition atoi :: "bytes \<Rightarrow> int" where
  "atoi s =
     (let s = dropWhile c_isspace s in
      case s of
        [] \<Rightarrow> 0
      | c # cs \<Rightarrow> if c = 45 then - int (digits_value cs) else if c = 43 then int (digits_value cs) else int (digits_value s))"

text \<open>The loop of \<^verbatim>\<open>chunk_server_alloc\<close> over the chunks; the result of \<^verbatim>\<open>chunk_init\<close> is not used.\<close>

fun init_chunks :: "(bytes \<Rightarrow> int) \<Rightarrow> nat \<Rightarrow> 'c chunk_t list \<Rightarrow> 'c chunk_t list res" where
  "init_chunks open_rw i [] = Inr []"
| "init_chunks open_rw i (ck # cks) =
     rbind (chunk_init open_rw (Some ck) (of_nat i) None) (\<lambda>(r, ck').
     rbind (init_chunks open_rw (Suc i) cks) (\<lambda>cks'. Inr (the ck' # cks')))"

definition chunk0 :: "'c chunk_t" where
  "chunk0 = \<lparr>ck_id = 0, ck_offset = 0, ck_fd = 0, ck_total = 0, ck_ctx = None\<rparr>"

text \<open>
  \<^verbatim>\<open>chunk_server_alloc\<close>: the address of the metadata server is split at the colon, and the fields of the table are
  read without a test of their number.
\<close>

definition chunk_server_alloc :: "(nat \<Rightarrow> (int \<times> int) option) \<Rightarrow> (bytes \<Rightarrow> int) \<Rightarrow> (u64 \<Rightarrow> 'c chunk_cache_t option) \<Rightarrow> conf_t \<Rightarrow>
    'c chunk_server_t res" where
  "chunk_server_alloc socketpair open_rw chunk_cache_alloc cf =
     rbind (net_sock_create socketpair (Some (lit ''127.0.0.1'')) (sint (cf_port cf)) (sint (cf_tcp_backlog cf))
       (cf_work_thread_num cf)) (\<lambda>chunk_sock.
     rbind (string_split (Some (cf_metaserver_addr cf)) 58 True) (\<lambda>(r, meta_addr).
     case meta_addr of
       Some (host # port # rest) \<Rightarrow>
         rbind (net_sock_create socketpair (Some host) (atoi port) (sint (cf_tcp_backlog cf)) 1) (\<lambda>meta_sock.
         rbind (init_chunks open_rw 0 (replicate (unat (cf_chunk_count cf)) chunk0)) (\<lambda>chunks.
         Inr \<lparr>srv_root = cf_chunk_root cf, srv_meta_sock = meta_sock, srv_chunk_sock = chunk_sock, srv_chunks = chunks,
              srv_chunk_cache = chunk_cache_alloc (cf_chunk_count cf), srv_chunk_per_size = cf_chunk_per_size cf,
              srv_chunk_count = cf_chunk_count cf\<rparr>))
     | _ \<Rightarrow> Inl OutOfBounds))"

text \<open>\<^verbatim>\<open>chunk_server_start\<close>: each \<^verbatim>\<open>net_sock_run\<close> returns when its loop ends.\<close>

definition chunk_server_start :: "'c chunk_server_t \<Rightarrow> 'c chunk_server_t" where
  "chunk_server_start srv =
     srv\<lparr>srv_chunk_sock := net_sock_run (srv_chunk_sock srv), srv_meta_sock := net_sock_run (srv_meta_sock srv)\<rparr>"

section \<open>chunk_node_meta.c and main.c\<close>

definition chunk_node_meta_alloc :: "conf_t \<Rightarrow> 'm option" where
  "chunk_node_meta_alloc cf = None"

definition chunk_main :: "int \<times> unit chunk_cache_t option" where
  "chunk_main = (0, chunk_cache_destroy (Some (chunk_cache_new 10)))"

section \<open>Lemmas\<close>

lemma dec_digits: "c \<in> set (dec n) \<Longrightarrow> isdigit c"
proof (induction n rule: dec.induct)
  case (1 n)
  have d: "isdigit (of_nat (48 + k))" if "k < 10" for k
  proof -
    have "unat (of_nat (48 + k) :: u8) = 48 + k" using that by (simp only: unat_of_nat) simp
    then show ?thesis using that by (simp add: isdigit_def word_le_nat_alt)
  qed
  show ?case using 1 d [of n] d [of "n mod 10"] by (subst (asm) dec.simps) (auto split: if_splits)
qed

lemma dec_not_Nil: "dec n \<noteq> []"
  by (subst dec.simps) simp

lemma atoi_dec: "atoi (dec n) = int n"
proof -
  obtain c cs where c: "dec n = c # cs" using dec_not_Nil by (cases "dec n") auto
  have "isdigit c" using dec_digits [of c n] c by simp
  then have "\<not> c_isspace c" "c \<noteq> 45" "c \<noteq> 43" by (auto simp: isdigit_def c_isspace_def)
  moreover have "takeWhile isdigit (dec n) = dec n" using dec_digits by (auto simp: takeWhile_eq_all_conv)
  ultimately show ?thesis using c dec_value [of n] by (simp add: atoi_def digits_value_def)
qed

lemma socketpairs_addr:
  "sk_addr (snd (socketpairs socketpair i n sk)) = sk_addr sk \<and> sk_port (snd (socketpairs socketpair i n sk)) = sk_port sk \<and>
   sk_num_threads (snd (socketpairs socketpair i n sk)) = sk_num_threads sk"
  by (induction n arbitrary: i sk) (auto split: option.splits)

lemma net_sock_create_addr:
  "\<exists>sk. net_sock_create socketpair (Some a) port backlog n = Inr sk \<and> sk_addr sk = a \<and> sk_port sk = port \<and> sk_num_threads sk = n"
  by (simp add: net_sock_create_def net_sock_init_def Let_def split_beta socketpairs_addr)

lemma init_chunks_all:
  assumes "\<forall>f. open_rw f \<noteq> - 1" "i + length cks \<le> 2147483648"
  shows "\<exists>cks'. init_chunks open_rw i cks = Inr cks' \<and> length cks' = length cks \<and>
    (\<forall>j < length cks. ck_id (cks' ! j) = of_nat (i + j) \<and> ck_fd (cks' ! j) = open_rw (chunk_file (of_nat (i + j))))"
  using assms(2)
proof (induction cks arbitrary: i)
  case (Cons ck cks)
  have "Suc i + length cks \<le> 2147483648" using Cons.prems by simp
  from Cons.IH [OF this] obtain cks' where r: "init_chunks open_rw (Suc i) cks = Inr cks'" "length cks' = length cks"
      "\<forall>j < length cks. ck_id (cks' ! j) = of_nat (Suc i + j) \<and> ck_fd (cks' ! j) = open_rw (chunk_file (of_nat (Suc i + j)))"
    by blast
  let ?ck = "ck\<lparr>ck_fd := open_rw (chunk_file (of_nat i)), ck_offset := 0, ck_id := of_nat i, ck_ctx := None\<rparr>"
  have "sint (of_nat i :: u32) = int i" using Cons.prems by (simp add: sint_nonneg_unat unat_of_nat_in)
  then have "chunk_init open_rw (Some ck) (of_nat i) None = Inr (0, Some ?ck)"
    using assms(1) by (simp add: chunk_init_def)
  then have "init_chunks open_rw i (ck # cks) = Inr (?ck # cks')" using r(1) by simp
  then show ?case using r(2,3) by (auto simp: nth_Cons' simp del: init_chunks.simps)
qed simp

section \<open>Properties\<close>

text \<open>
  With an address \<open>host:port\<close> of the metadata server, \<^verbatim>\<open>chunk_server_alloc\<close> returns a server whose socket to it has that host and that
  port, and whose chunks are numbered from 0, each on its own file. With an address that has no colon, or
  two, it reads or writes out of bounds.
\<close>

theorem chunk_server_alloc_parts:
  fixes cf :: conf_t and cache_alloc :: "u64 \<Rightarrow> 'c chunk_cache_t option"
  assumes "\<forall>f. open_rw f \<noteq> - 1" "unat (cf_chunk_count cf) \<le> 2147483648" "58 \<notin> set host" "0 \<notin> set host"
  shows "(cf_metaserver_addr cf = host @ 58 # dec port \<longrightarrow>
      (\<exists>srv. chunk_server_alloc socketpair open_rw cache_alloc cf = Inr srv \<and>
         sk_addr (srv_meta_sock srv) = host \<and> sk_port (srv_meta_sock srv) = int port \<and>
         sk_num_threads (srv_chunk_sock srv) = cf_work_thread_num cf \<and>
         length (srv_chunks srv) = unat (cf_chunk_count cf) \<and>
         (\<forall>i < unat (cf_chunk_count cf). ck_id (srv_chunks srv ! i) = of_nat i \<and>
            ck_fd (srv_chunks srv ! i) = open_rw (chunk_file (of_nat i))))) \<and>
    (cf_metaserver_addr cf = host \<longrightarrow> chunk_server_alloc socketpair open_rw cache_alloc cf = Inl OutOfBounds) \<and>
    (\<forall>rest. cf_metaserver_addr cf = host @ 58 # rest \<and> 58 \<in> set rest \<and> 0 \<notin> set rest \<longrightarrow>
       chunk_server_alloc socketpair open_rw cache_alloc cf = Inl OutOfBounds)"
proof -
  obtain sk where sk: "net_sock_create socketpair (Some (lit ''127.0.0.1'')) (sint (cf_port cf)) (sint (cf_tcp_backlog cf))
      (cf_work_thread_num cf) = Inr sk" "sk_num_threads sk = cf_work_thread_num cf"
    using net_sock_create_addr by metis
  obtain mk where mk: "net_sock_create socketpair (Some host) (int port) (sint (cf_tcp_backlog cf)) 1 = Inr mk"
      "sk_addr mk = host" "sk_port mk = int port"
    using net_sock_create_addr by metis
  obtain cks :: "'c chunk_t list" where cks: "init_chunks open_rw 0 (replicate (unat (cf_chunk_count cf)) chunk0) = Inr cks"
      "length cks = unat (cf_chunk_count cf)"
      "\<forall>i < unat (cf_chunk_count cf). ck_id (cks ! i) = of_nat i \<and> ck_fd (cks ! i) = open_rw (chunk_file (of_nat i))"
    using init_chunks_all [OF assms(1), of 0 "replicate (unat (cf_chunk_count cf)) chunk0"] assms(2) by auto
  have "\<not> isdigit 58" "\<not> isdigit 0" by (simp_all add: isdigit_def)
  then have "58 \<notin> set (dec port)" "0 \<notin> set (dec port)" using dec_digits by blast+
  then have "string_split (Some (host @ 58 # dec port)) 58 True = Inr (0, Some [host, dec port])"
    using string_split_single [of 58 host "dec port"] assms(3,4) by (simp add: dec_not_Nil)
  then show ?thesis
    using sk mk cks string_split_none [OF assms(3)] string_split_second [OF assms(3)] assms(4)
    by (auto simp: chunk_server_alloc_def atoi_dec)
qed

definition some_conf :: conf_t where
  "some_conf = \<lparr>cf_chunk_root = [47], cf_metaserver_addr = [104, 58, 56, 48], cf_tcp_backlog = 5, cf_port = 90,
     cf_work_thread_num = 2, cf_chunk_per_size = 64, cf_chunk_count = 2\<rparr>"

theorem chunk_server_alloc_parts_witness:
  "\<exists>srv :: unit chunk_server_t. chunk_server_alloc (\<lambda>_. Some (7, 8)) (\<lambda>_. 3) (\<lambda>_. None) some_conf = Inr srv \<and>
     sk_addr (srv_meta_sock srv) = [104] \<and> sk_port (srv_meta_sock srv) = 80 \<and> length (srv_chunks srv) = 2"
proof -
  have "dec 80 = [56, 48]" by (simp add: dec.simps)
  then show ?thesis
    using chunk_server_alloc_parts [of "\<lambda>_. 3" some_conf "[104]" 80 "\<lambda>_. Some (7, 8)" "\<lambda>_. None :: unit chunk_cache_t option"]
    by (auto simp: some_conf_def)
qed

end
