(* ===== verification/Chunk_load.thy ===== *)
theory Chunk_load
  imports Chunk_server
begin

text \<open>
  Model of \<^verbatim>\<open>chunk_cache_load\<close> of \<^verbatim>\<open>chunkserver/chunk_cache.c\<close>, which looks for the files of chunks in a directory, and of
  the tear-down of the chunk server. The directory, \<^verbatim>\<open>lstat\<close> and \<^verbatim>\<open>snrpintf\<close>, a function that is declared nowhere, are parameters.
\<close>

section \<open>chunk_cache.c\<close>

record file_stat =
  fs_regular :: bool
  fs_size :: u64

definition VECTOR_SIZE :: nat where
  "VECTOR_SIZE = 65535"

text \<open>
  The loop over the entries of the directory: \<open>buf\<close> is the string in the local buffer of 256 bytes, whose first \<open>root_sz\<close>
  bytes are the directory, and \<open>vec\<close> the part of \<^verbatim>\<open>vector\<close> that is filled. \<open>snrpintf buf pos n s\<close> is the buffer after
  the call with the address of position \<open>pos\<close> and the size \<open>n\<close>. \<^verbatim>\<open>lstat\<close> gives \<open>None\<close> when it fails.
\<close>

fun load_entries :: "(bytes \<Rightarrow> nat \<Rightarrow> nat \<Rightarrow> bytes \<Rightarrow> bytes) \<Rightarrow> (bytes \<Rightarrow> file_stat option) \<Rightarrow> (bytes \<Rightarrow> int) \<Rightarrow> nat \<Rightarrow>
    bytes \<Rightarrow> bytes list \<Rightarrow> 'c chunk_t list \<Rightarrow> 'c chunk_t list res" where
  "load_entries snrpintf lstat open_rw root_sz buf [] vec = Inr vec"
| "load_entries snrpintf lstat open_rw root_sz buf (d_name # names) vec =
     (if d_name = lit ''.'' \<or> d_name = lit ''..'' then load_entries snrpintf lstat open_rw root_sz buf names vec
      else if 256 < root_sz then Inl OutOfBounds
      else
        let buf = snrpintf buf root_sz (256 - root_sz) d_name in
        case lstat buf of
          None \<Rightarrow> load_entries snrpintf lstat open_rw root_sz buf names vec
        | Some st \<Rightarrow>
            rbind (if fs_regular st then is_digit (Some d_name) (length d_name) else Inr False) (\<lambda>isck.
            if isck
            then rbind (chunk_alloc open_rw (word_of_int (atoi d_name)) None) (\<lambda>ck.
                 case ck of
                   None \<Rightarrow> Inl OutOfBounds
                 | Some ck \<Rightarrow>
                     if length vec < VECTOR_SIZE
                     then load_entries snrpintf lstat open_rw root_sz buf names (vec @ [ck\<lparr>ck_total := ucast (fs_size st)\<rparr>])
                     else Inl OutOfBounds)
            else load_entries snrpintf lstat open_rw root_sz buf names vec))"

text \<open>
  \<^verbatim>\<open>chunk_cache_load\<close>. With a chunk in \<^verbatim>\<open>vector\<close> the first turn of the last loop passes the number of the chunk to
  \<^verbatim>\<open>snprintf\<close> as the address of a string. \<^verbatim>\<open>readdir\<close> on the null pointer of an \<^verbatim>\<open>opendir\<close> that fails is a fault too.
\<close>

definition chunk_cache_load :: "(bytes \<Rightarrow> nat \<Rightarrow> nat \<Rightarrow> bytes \<Rightarrow> bytes) \<Rightarrow> (bytes \<Rightarrow> file_stat option) \<Rightarrow> (bytes \<Rightarrow> int) \<Rightarrow>
    (bytes \<Rightarrow> bytes list option) \<Rightarrow> bytes \<Rightarrow> 'c chunk_cache_t res" where
  "chunk_cache_load snrpintf lstat open_rw opendir root_dir =
     (if root_dir = [] then Inl OutOfBounds
      else
        let slash = (root_dir ! (length root_dir - 1) = 47);
            buf = snprintf 256 (if slash then root_dir else root_dir @ lit ''/'');
            root_sz = (if slash then length root_dir else length root_dir + 1)
        in case opendir root_dir of
             None \<Rightarrow> Inl OutOfBounds
           | Some names \<Rightarrow>
               rbind (load_entries snrpintf lstat open_rw root_sz buf names []) (\<lambda>vector :: 'c chunk_t list.
               let cc = chunk_cache_new (of_nat (length vector) + 1) in
               if vector = [] then Inr cc else Inl OutOfBounds))"

text \<open>\<^verbatim>\<open>hashmap_free_cb\<close>: the descriptors that it closes; this is what an event \<open>FreeChunk\<close> of the hash map stands for.\<close>

definition hashmap_free_cb :: "'c chunk_t option \<Rightarrow> int list" where
  "hashmap_free_cb arg = (case arg of None \<Rightarrow> [] | Some ck \<Rightarrow> fst (chunk_deinit (Some ck)))"

section \<open>chunk_server.c\<close>

text \<open>
  \<^verbatim>\<open>chunk_server_destroy\<close>: the requests to libuv, the descriptors that are closed and the cache. The pointer
  \<^verbatim>\<open>srv->chunk_sock\<close> keeps its value when the socket is freed.
\<close>

definition chunk_server_destroy :: "'c chunk_server_t \<Rightarrow>
    ((nat option \<times> loop_request) list \<times> int list \<times> 'c chunk_cache_t option) res" where
  "chunk_server_destroy srv =
     rbind (net_sock_destroy (Live (srv_chunk_sock srv))) (\<lambda>(rs1, chunk_sock).
     rbind (net_sock_destroy chunk_sock) (\<lambda>(rs2, chunk_sock).
     let cc = chunk_cache_destroy (srv_chunk_cache srv) in
     if unat (srv_chunk_count srv) \<le> length (srv_chunks srv)
     then Inr (rs1 @ rs2, concat (map (\<lambda>i. fst (chunk_deinit (Some (srv_chunks srv ! i)))) [0 ..< unat (srv_chunk_count srv)]), cc)
     else Inl OutOfBounds))"

text \<open>\<^verbatim>\<open>chunk_node_meta_start\<close> and \<^verbatim>\<open>chunk_node_meta_destroy\<close> have empty bodies.\<close>

definition chunk_node_meta_start :: "'m option \<Rightarrow> 'm option" where
  "chunk_node_meta_start cn = cn"

definition chunk_node_meta_destroy :: "'m option \<Rightarrow> 'm option" where
  "chunk_node_meta_destroy cn = cn"

section \<open>Properties\<close>

definition all_digits :: "bytes \<Rightarrow> bool" where
  "all_digits n \<longleftrightarrow> n \<noteq> [] \<and> (\<forall>c \<in> set n. isdigit c)"

lemma load_entries_none:
  assumes "root_sz \<le> 256" "\<forall>n \<in> set names. \<not> all_digits n"
  shows "load_entries snrpintf lstat open_rw root_sz buf names vec = Inr vec"
  using assms(2)
proof (induction names arbitrary: buf)
  case (Cons n names)
  have "is_digit (Some n) (length n) = Inr False" using Cons.prems by (auto simp: is_digit_eq all_digits_def)
  then show ?case using Cons assms(1) by (auto simp: Let_def split: option.splits)
qed simp

lemma chunk_file_not_digits: "\<not> all_digits (chunk_file i)"
  by (auto simp: all_digits_def chunk_file_eq isdigit_def)

text \<open>
  (C33) \<^verbatim>\<open>chunk_cache_load\<close> does not load the chunks that \<^verbatim>\<open>chunk_init\<close> has made: for a directory whose name has from 1 to 255 bytes,
  with or without a slash at its end, that can be read and has no entry with a name of digits only, the cache it gives is empty,
  whatever \<^verbatim>\<open>lstat\<close> says and whatever \<^verbatim>\<open>snrpintf\<close> prints. The files of chunks, \<^verbatim>\<open><number>.chunk\<close>, are such entries.
\<close>

theorem chunk_files_not_loaded:
  assumes "root_dir \<noteq> []" "length root_dir < 256" "opendir root_dir = Some names"
    and "\<forall>n \<in> set names. \<not> all_digits n \<or> (\<exists>i. n = chunk_file i)"
  shows "(chunk_cache_load snrpintf lstat open_rw opendir root_dir :: 'c chunk_cache_t res) = Inr (chunk_cache_new 1)"
proof -
  have "\<forall>n \<in> set names. \<not> all_digits n" using assms(4) chunk_file_not_digits by blast
  then have "load_entries snrpintf lstat open_rw root_sz buf names ([] :: 'c chunk_t list) = Inr []" if "root_sz \<le> 256" for root_sz buf
    using load_entries_none [OF that] by blast
  then show ?thesis using assms(1-3) by (simp add: chunk_cache_load_def Let_def)
qed

theorem chunk_files_not_loaded_witness:
  "(chunk_cache_load (\<lambda>buf pos n s. take pos buf @ snprintf n s) (\<lambda>_. Some \<lparr>fs_regular = True, fs_size = 5\<rparr>) (\<lambda>_. 3)
      (\<lambda>_. Some [lit ''..'', chunk_file 7]) [100] :: unit chunk_cache_t res) = Inr (chunk_cache_new 1)"
proof -
  have "\<not> all_digits (lit ''..'')" by (simp add: all_digits_def lit_def isdigit_def)
  then show ?thesis
    by (intro chunk_files_not_loaded [where names = "[lit ''..'', chunk_file 7]"]) auto
qed

text \<open>
  \<^verbatim>\<open>chunk_server_destroy\<close> never returns normally: it destroys \<^verbatim>\<open>chunk_sock\<close> twice, and the second call reads the socket after
  it was freed, if the first one did not fault already on a worker that has not started.
\<close>

theorem chunk_server_destroy_faults:
  "chunk_server_destroy srv = Inl OutOfBounds"
proof (cases "net_sock_destroy (Live (srv_chunk_sock srv))")
  case (Inl f)
  have "deinit_threads sk i n = Inl f \<Longrightarrow> f = OutOfBounds" for sk i n
    by (induction n arbitrary: i) (auto simp: rbind_eq_Inl net_sock_thread_deinit_def split: if_splits)
  then have "f = OutOfBounds" using Inl by (auto simp: net_sock_destroy_def net_sock_deinit_def rbind_eq_Inl)
  then show ?thesis using Inl by (simp add: chunk_server_destroy_def)
next
  case (Inr r)
  then have "snd r = Freed" by (auto simp: net_sock_destroy_def rbind_eq_Inr)
  then show ?thesis using Inr by (cases r) (simp add: chunk_server_destroy_def net_sock_destroy_def)
qed

end
