(* ===== verification/Kvdb.thy ===== *)
theory Kvdb
  imports Dict "HOL-Library.AList"
begin

text \<open>
  Model of \<^verbatim>\<open>metaserver/kv_db.c\<close>: a database of tables, the schemas, over WiredTiger. WiredTiger is not in
  the repository: its calls are the fields of a record, on states of an arbitrary type.
\<close>

section \<open>WiredTiger\<close>

text \<open>
  The methods of a connection, a session (type \<open>'s\<close>) and a cursor (type \<open>'c\<close>) that the code calls. A
  call gives its result and the state after it.
\<close>

record ('w, 's, 'c) wiredtiger =
  wt_open :: "bytes \<Rightarrow> string \<Rightarrow> 'w \<Rightarrow> int \<times> 'w"
  wt_open_session :: "'w \<Rightarrow> int \<times> 's \<times> 'w"
  wt_drop :: "'s \<Rightarrow> bytes \<Rightarrow> string \<Rightarrow> 'w \<Rightarrow> int \<times> 'w"
  wt_create :: "'s \<Rightarrow> bytes \<Rightarrow> string \<Rightarrow> 'w \<Rightarrow> int \<times> 'w"
  wt_open_cursor :: "'s \<Rightarrow> bytes \<Rightarrow> 'w \<Rightarrow> int \<times> 'c \<times> 'w"
  wt_session_close :: "'s \<Rightarrow> 'w \<Rightarrow> 'w"
  wt_cursor_close :: "'c \<Rightarrow> 'w \<Rightarrow> 'w"
  wt_set_key :: "'c \<Rightarrow> bytes \<Rightarrow> 'w \<Rightarrow> 'w"
  wt_set_value :: "'c \<Rightarrow> bytes \<Rightarrow> 'w \<Rightarrow> 'w"
  wt_insert :: "'c \<Rightarrow> 'w \<Rightarrow> int \<times> 'w"
  wt_search :: "'c \<Rightarrow> 'w \<Rightarrow> int \<times> 'w"
  wt_remove :: "'c \<Rightarrow> 'w \<Rightarrow> int \<times> 'w"
  wt_next :: "'c \<Rightarrow> 'w \<Rightarrow> int \<times> 'w"
  wt_get_key :: "'c \<Rightarrow> 'w \<Rightarrow> int \<times> bytes \<times> 'w"
  wt_get_value :: "'c \<Rightarrow> 'w \<Rightarrow> int \<times> bytes \<times> 'w"

section \<open>kv_db.c\<close>

record ('s, 'c) kv_schema_t =
  ks_session :: 's
  ks_cursor :: 'c
  ks_uri :: bytes
  ks_name :: bytes

record ('s, 'c, 'm) kv_db_t =
  kd_database_name :: bytes
  kd_database_dir :: bytes
  kd_schema_ctx :: "('s, 'c) kv_schema_t dict_t"
  kd_schmea_meta_cache :: "'m dict_t option"

definition schema_format :: string where
  "schema_format = ''key_format=u,value_format=u''"

definition SCHEMA_LIMIT :: u32 where
  "SCHEMA_LIMIT = 1024"

text \<open>An item is a pointer and a length; the bytes are those that WiredTiger reads through it.\<close>

definition wt_item_init :: "bytes \<Rightarrow> u64 \<Rightarrow> bytes res" where
  "wt_item_init dat sz = (if unat sz \<le> length dat then Inr (take (unat sz) dat) else Inl OutOfBounds)"

definition kv_db_register_schema :: "('s, 'c, 'm) kv_db_t option \<Rightarrow> ('s, 'c) kv_schema_t option \<Rightarrow>
    (int \<times> ('s, 'c, 'm) kv_db_t option) res" where
  "kv_db_register_schema db schema =
     (case (db, schema) of
        (Some d, Some s) \<Rightarrow>
          rbind (dict_put (kd_schema_ctx d) (ks_name s) s) (\<lambda>(added, ctx).
          Inr (if added then 0 else - 1, Some (d\<lparr>kd_schema_ctx := ctx\<rparr>)))
      | _ \<Rightarrow> Inr (- 1, db))"

definition kv_db_unregister_schema :: "('s, 'c, 'm) kv_db_t option \<Rightarrow> ('s, 'c) kv_schema_t option \<Rightarrow>
    ('s, 'c, 'm) kv_db_t option res" where
  "kv_db_unregister_schema db schema =
     (case (db, schema) of
        (Some d, Some s) \<Rightarrow>
          rbind (dict_del (kd_schema_ctx d) (ks_name s)) (\<lambda>(r, v, ctx). Inr (Some (d\<lparr>kd_schema_ctx := ctx\<rparr>)))
      | _ \<Rightarrow> Inr db)"

text \<open>The buffer of 256 bytes for \<^verbatim>\<open>table:%s\<close> cuts long names.\<close>

definition schema_uri :: "bytes \<Rightarrow> bytes" where
  "schema_uri schema_name = take 255 ([116, 97, 98, 108, 101, 58] @ schema_name)"

text \<open>
  \<^verbatim>\<open>kv_schema_alloc\<close>: the schema, the database and the state of WiredTiger. The asserts compare with -1; the
  result of the registration is not used.
\<close>

definition kv_schema_alloc :: "('w, 's, 'c) wiredtiger \<Rightarrow> bytes \<Rightarrow> ('s, 'c, 'm) kv_db_t option \<Rightarrow> bool \<Rightarrow> 'w \<Rightarrow>
    (('s, 'c) kv_schema_t \<times> ('s, 'c, 'm) kv_db_t option \<times> 'w) res" where
  "kv_schema_alloc wt schema_name db is_force_drop w =
     ASSERT (db \<noteq> None)
       (let (r, session, w) = wt_open_session wt w; schema_buf = schema_uri schema_name in
        ASSERT (r \<noteq> - 1)
          (rbind (if is_force_drop
                  then let (r, w) = wt_drop wt session schema_buf schema_format w in ASSERT (r \<noteq> - 1) (Inr w)
                  else Inr w) (\<lambda>w.
           let (r, w) = wt_create wt session schema_buf schema_format w in
           ASSERT (r \<noteq> - 1)
             (let (r, cursor, w) = wt_open_cursor wt session schema_buf w in
              ASSERT (r \<noteq> - 1)
                (let schema = \<lparr>ks_session = session, ks_cursor = cursor, ks_uri = schema_buf, ks_name = schema_name\<rparr> in
                 rbind (kv_db_register_schema db (Some schema)) (\<lambda>(r, db). Inr (schema, db, w)))))))"

text \<open>\<^verbatim>\<open>kv_schema_destroy\<close>; \<open>db\<close> is the database that \<^verbatim>\<open>schema->ctx\<close> points to.\<close>

definition kv_schema_destroy :: "('w, 's, 'c) wiredtiger \<Rightarrow> ('s, 'c) kv_schema_t option \<Rightarrow> ('s, 'c, 'm) kv_db_t option \<Rightarrow> 'w \<Rightarrow>
    (('s, 'c, 'm) kv_db_t option \<times> 'w) res" where
  "kv_schema_destroy wt schema db w =
     (case schema of
        None \<Rightarrow> Inr (db, w)
      | Some s \<Rightarrow>
          rbind (kv_db_unregister_schema db schema) (\<lambda>db.
          let w = wt_cursor_close wt (ks_cursor s) w;
              (r, w) = wt_drop wt (ks_session s) (ks_uri s) ''remove_files=true'' w;
              w = wt_session_close wt (ks_session s) w
          in Inr (db, w)))"

definition conn_config :: string where
  "conn_config = ''create,cache_size=4GB,session_max=50000,eviction=(threads_min=4,threads_max=8),log=(enabled=false),transaction_sync=(enabled=false),checkpoint_sync=true,checkpoint=(wait=10),statistics=(fast),statistics_log=(json,wait=1)''"

text \<open>
  \<^verbatim>\<open>kv_db_alloc\<close>: \<open>sys_access\<close> and \<open>sys_mkdir\<close> are the system calls on a path, \<open>hash_fn\<close> the function
  \<^verbatim>\<open>hash_fnv1_64\<close> of a header that is not in the repository.
\<close>

definition kv_db_alloc :: "('w, 's, 'c) wiredtiger \<Rightarrow> (bytes \<Rightarrow> int) \<Rightarrow> (bytes \<Rightarrow> int) \<Rightarrow> (bytes \<Rightarrow> u32) \<Rightarrow>
    bytes option \<Rightarrow> bytes option \<Rightarrow> 'w \<Rightarrow> (('s, 'c, 'm) kv_db_t option \<times> 'w) res" where
  "kv_db_alloc wt sys_access sys_mkdir hash_fn database_name database_dir w =
     (case (database_name, database_dir) of
        (Some name, Some dir) \<Rightarrow>
          let base_path = take 2047 (dir @ [47] @ name) in
          if sys_access base_path \<noteq> 0 \<and> sys_mkdir base_path \<noteq> 0 then Inr (None, w)
          else let (r, w) = wt_open wt base_path conn_config w in
               ASSERT (r \<noteq> - 1)
                 (Inr (Some \<lparr>kd_database_name = name, kd_database_dir = dir,
                             kd_schema_ctx = dict_create SCHEMA_LIMIT (Some hash_fn), kd_schmea_meta_cache = None\<rparr>, w))
      | _ \<Rightarrow> Inr (None, w))"

definition kv_db_set :: "('w, 's, 'c) wiredtiger \<Rightarrow> ('s, 'c, 'm) kv_db_t \<Rightarrow> bytes \<Rightarrow> bytes \<Rightarrow> u64 \<Rightarrow> bytes \<Rightarrow> u64 \<Rightarrow> 'w \<Rightarrow>
    (int \<times> 'w) res" where
  "kv_db_set wt db schema_name key key_sz val val_sz w =
     rbind (dict_get (kd_schema_ctx db) schema_name) (\<lambda>schema.
     case schema of
       None \<Rightarrow> Inr (- 1, w)
     | Some s \<Rightarrow>
         rbind (wt_item_init key key_sz) (\<lambda>key_item.
         rbind (wt_item_init val val_sz) (\<lambda>value_item.
         Inr (wt_insert wt (ks_cursor s) (wt_set_value wt (ks_cursor s) value_item
                (wt_set_key wt (ks_cursor s) key_item w))))))"

definition kv_db_search :: "('w, 's, 'c) wiredtiger \<Rightarrow> ('s, 'c, 'm) kv_db_t \<Rightarrow> bytes \<Rightarrow> bytes \<Rightarrow> u64 \<Rightarrow> 'w \<Rightarrow>
    (int \<times> 'w) res" where
  "kv_db_search wt db schmea_name key key_sz w =
     rbind (dict_get (kd_schema_ctx db) schmea_name) (\<lambda>schema.
     case schema of
       None \<Rightarrow> Inr (- 1, w)
     | Some s \<Rightarrow>
         rbind (wt_item_init key key_sz) (\<lambda>key_item.
         Inr (wt_search wt (ks_cursor s) (wt_set_key wt (ks_cursor s) key_item w))))"

text \<open>\<^verbatim>\<open>kv_db_get\<close>: the value found, whose length goes to \<^verbatim>\<open>value_size\<close>.\<close>

definition kv_db_get :: "('w, 's, 'c) wiredtiger \<Rightarrow> ('s, 'c, 'm) kv_db_t \<Rightarrow> bytes \<Rightarrow> bytes \<Rightarrow> u64 \<Rightarrow> 'w \<Rightarrow>
    (bytes option \<times> 'w) res" where
  "kv_db_get wt db schema_name key key_sz w =
     rbind (dict_get (kd_schema_ctx db) schema_name) (\<lambda>schema.
     case schema of
       None \<Rightarrow> Inr (None, w)
     | Some s \<Rightarrow>
         rbind (wt_item_init key key_sz) (\<lambda>key_item.
         let (r, w) = wt_search wt (ks_cursor s) (wt_set_key wt (ks_cursor s) key_item w) in
         if r \<noteq> 0 then Inr (None, w)
         else let (r, value_item, w) = wt_get_value wt (ks_cursor s) w in Inr (Some value_item, w)))"

text \<open>\<^verbatim>\<open>kv_db_del\<close> does not test that there is a schema.\<close>

definition kv_db_del :: "('w, 's, 'c) wiredtiger \<Rightarrow> ('s, 'c, 'm) kv_db_t \<Rightarrow> bytes \<Rightarrow> bytes \<Rightarrow> u64 \<Rightarrow> 'w \<Rightarrow>
    (int \<times> 'w) res" where
  "kv_db_del wt db schema_name key key_sz w =
     rbind (dict_get (kd_schema_ctx db) schema_name) (\<lambda>schema.
     case schema of
       None \<Rightarrow> Inl OutOfBounds
     | Some s \<Rightarrow>
         rbind (wt_item_init key key_sz) (\<lambda>key_item.
         Inr (wt_remove wt (ks_cursor s) (wt_set_key wt (ks_cursor s) key_item w))))"

text \<open>
  \<^verbatim>\<open>kv_db_destroy\<close>: \<^verbatim>\<open>dict_deinit\<close> passes the address of the slot of a value to the callback, which takes it
  for a schema and reads its \<^verbatim>\<open>ctx\<close>, past the end of the pair. The result is the table that is left.
\<close>

definition kv_db_destroy :: "('s, 'c, 'm) kv_db_t option \<Rightarrow> ('s, 'c, 'm) kv_db_t option res" where
  "kv_db_destroy db =
     (case db of
        None \<Rightarrow> Inr None
      | Some d \<Rightarrow>
          let (slots, ctx) = dict_deinit (kd_schema_ctx d) in
          if slots \<noteq> [] then Inl OutOfBounds else Inr (Some (d\<lparr>kd_schema_ctx := ctx\<rparr>)))"

definition kv_db_fetch_schema :: "('s, 'c, 'm) kv_db_t option \<Rightarrow> bytes option \<Rightarrow> ('s, 'c) kv_schema_t option res" where
  "kv_db_fetch_schema db schema_name =
     (case (db, schema_name) of
        (Some d, Some name) \<Rightarrow> dict_get (kd_schema_ctx d) name
      | _ \<Rightarrow> Inr None)"

text \<open>
  The loop of \<^verbatim>\<open>kv_schmea_search\<close>. The callback gets its context, the key with the terminator stored
  behind it, and the value; \<open>'x\<close> is the state that it changes. \<open>key_differs\<close> is the condition of
  line 220; one round ends the search, with a result, or goes on. Not returning is \<open>None\<close>.
\<close>

definition key_differs :: "bytes option \<Rightarrow> u64 \<Rightarrow> bytes \<Rightarrow> bool res" where
  "key_differs dst_key dst_key_sz key_str =
     (case dst_key of
        None \<Rightarrow> Inr False
      | Some dst \<Rightarrow>
          if dst_key_sz > 0
          then if unat dst_key_sz \<le> length key_str \<and> unat dst_key_sz \<le> length dst
               then Inr (take (unat dst_key_sz) key_str \<noteq> take (unat dst_key_sz) dst)
               else Inl OutOfBounds
          else Inr False)"

definition schema_search_round :: "('w, 's, 'c) wiredtiger \<Rightarrow>
    (bytes \<Rightarrow> bytes \<Rightarrow> 'x \<times> 'w \<Rightarrow> (int \<times> 'x \<times> 'w) res) \<Rightarrow> bytes option \<Rightarrow> u64 \<Rightarrow> 'c \<Rightarrow> 'x \<times> 'w \<Rightarrow>
    (int \<times> 'x \<times> 'w) res + 'x \<times> 'w" where
  "schema_search_round wt cb dst_key dst_key_sz cursor xw =
     (let (x, w) = xw; (r, w) = wt_next wt cursor w in
      if r = 0
      then let (r, key, w) = wt_get_key wt cursor w in
           if r \<noteq> 0 then Inl (Inr (- 1, x, w))
           else let (r, val, w) = wt_get_value wt cursor w; key_str = key @ [0] in
                case key_differs dst_key dst_key_sz key_str of
                  Inl e \<Rightarrow> Inl (Inl e)
                | Inr stop \<Rightarrow>
                    if stop then Inl (cb key_str val (x, wt_cursor_close wt cursor w))
                    else (case cb key_str val (x, w) of Inl e \<Rightarrow> Inl (Inl e) | Inr (r, xw) \<Rightarrow> Inr xw)
      else Inl (Inr (- 1, x, wt_cursor_close wt cursor w)))"

partial_function (option) schema_search_loop :: "('w, 's, 'c) wiredtiger \<Rightarrow>
    (bytes \<Rightarrow> bytes \<Rightarrow> 'x \<times> 'w \<Rightarrow> (int \<times> 'x \<times> 'w) res) \<Rightarrow> bytes option \<Rightarrow> u64 \<Rightarrow> 'c \<Rightarrow> 'x \<times> 'w \<Rightarrow>
    (int \<times> 'x \<times> 'w) res option" where
  "schema_search_loop wt cb dst_key dst_key_sz cursor xw =
     (let out = schema_search_round wt cb dst_key dst_key_sz cursor xw in
      if isl out then Some (projl out) else schema_search_loop wt cb dst_key dst_key_sz cursor (projr out))"

definition kv_schmea_search :: "('w, 's, 'c) wiredtiger \<Rightarrow> ('s, 'c) kv_schema_t \<Rightarrow>
    (bytes \<Rightarrow> bytes \<Rightarrow> 'x \<times> 'w \<Rightarrow> (int \<times> 'x \<times> 'w) res) \<Rightarrow> 'x \<Rightarrow> bytes option \<Rightarrow> u64 \<Rightarrow> 'w \<Rightarrow>
    (int \<times> 'x \<times> 'w) res option" where
  "kv_schmea_search wt schema cb x dst_key dst_key_sz w =
     (let (r, cursor, w) = wt_open_cursor wt (ks_session schema) (ks_uri schema) w in
      schema_search_loop wt cb dst_key dst_key_sz cursor (x, w))"

section \<open>What the code relies on\<close>

text \<open>
  The documented behaviour of cursors on tables of raw keys and values: \<open>tbl w u\<close> is the content of the table
  \<open>u\<close>, and \<open>uri c\<close> is the table of the cursor \<open>c\<close>. An insertion or a removal may fail; when it
  gives 0 it has changed the table. A search gives 0 for a key of the table only, after which the value can be read.
\<close>

definition wt_tables :: "('w, 's, 'c) wiredtiger \<Rightarrow> ('w \<Rightarrow> bytes \<Rightarrow> bytes \<rightharpoonup> bytes) \<Rightarrow> ('c \<Rightarrow> bytes) \<Rightarrow> bool" where
  "wt_tables wt tbl uri \<longleftrightarrow>
     (\<forall>c k v w w'. wt_insert wt c (wt_set_value wt c v (wt_set_key wt c k w)) = (0, w') \<longrightarrow>
        tbl w' = (tbl w)(uri c := (tbl w (uri c))(k \<mapsto> v))) \<and>
     (\<forall>c k w. \<exists>r w'. wt_search wt c (wt_set_key wt c k w) = (r, w') \<and> tbl w' = tbl w \<and>
        (r = 0 \<longleftrightarrow> tbl w (uri c) k \<noteq> None) \<and>
        (\<forall>v. tbl w (uri c) k = Some v \<longrightarrow> (\<exists>w''. wt_get_value wt c w' = (0, v, w'') \<and> tbl w'' = tbl w))) \<and>
     (\<forall>c k w w'. wt_remove wt c (wt_set_key wt c k w) = (0, w') \<longrightarrow>
        tbl w' = (tbl w)(uri c := (tbl w (uri c))(k := None)))"

lemma wt_tables_insert:
  "wt_tables wt tbl uri \<Longrightarrow> wt_insert wt c (wt_set_value wt c v (wt_set_key wt c k w)) = (0, w') \<Longrightarrow>
   tbl w' = (tbl w)(uri c := (tbl w (uri c))(k \<mapsto> v))"
  unfolding wt_tables_def by (elim conjE) metis

lemma wt_tables_remove:
  "wt_tables wt tbl uri \<Longrightarrow> wt_remove wt c (wt_set_key wt c k w) = (0, w') \<Longrightarrow>
   tbl w' = (tbl w)(uri c := (tbl w (uri c))(k := None))"
  unfolding wt_tables_def by (elim conjE) metis

lemma wt_tables_search:
  assumes "wt_tables wt tbl uri"
  obtains r w' where "wt_search wt c (wt_set_key wt c k w) = (r, w')" "tbl w' = tbl w"
    "r = 0 \<longleftrightarrow> tbl w (uri c) k \<noteq> None"
    "\<And>v. tbl w (uri c) k = Some v \<Longrightarrow> \<exists>w''. wt_get_value wt c w' = (0, v, w'') \<and> tbl w'' = tbl w"
  using assms unfolding wt_tables_def by (elim conjE) metis

lemma wt_item_init_in [simp]: "unat sz \<le> length dat \<Longrightarrow> wt_item_init dat sz = Inr (take (unat sz) dat)"
  by (simp add: wt_item_init_def)

text \<open>A lookup gives what the table of the schema holds, and leaves the tables as they are.\<close>

lemma kv_db_get_table:
  assumes wt: "wt_tables wt tbl uri" and s: "dict_get (kd_schema_ctx db) name = Inr (Some s)"
    and "unat key_sz \<le> length key"
  shows "\<exists>w'. kv_db_get wt db name key key_sz w = Inr (tbl w (uri (ks_cursor s)) (take (unat key_sz) key), w') \<and>
    tbl w' = tbl w"
proof (rule wt_tables_search [OF wt, of "ks_cursor s" "take (unat key_sz) key" w])
  fix r w'
  assume r: "wt_search wt (ks_cursor s) (wt_set_key wt (ks_cursor s) (take (unat key_sz) key) w) = (r, w')"
    "tbl w' = tbl w" "r = 0 \<longleftrightarrow> tbl w (uri (ks_cursor s)) (take (unat key_sz) key) \<noteq> None"
    "\<And>v. tbl w (uri (ks_cursor s)) (take (unat key_sz) key) = Some v \<Longrightarrow>
       \<exists>w''. wt_get_value wt (ks_cursor s) w' = (0, v, w'') \<and> tbl w'' = tbl w"
  show ?thesis
  proof (cases "tbl w (uri (ks_cursor s)) (take (unat key_sz) key)")
    case None
    then show ?thesis using r assms(3) by (simp add: kv_db_get_def s)
  next
    case (Some v)
    with r(4) obtain w'' where "wt_get_value wt (ks_cursor s) w' = (0, v, w'')" "tbl w'' = tbl w" by blast
    then show ?thesis using r Some assms(3) by (simp add: kv_db_get_def s)
  qed
qed

lemma kv_db_set_table:
  assumes "wt_tables wt tbl uri" "dict_get (kd_schema_ctx db) name = Inr (Some s)"
    and "unat key_sz \<le> length key" "unat val_sz \<le> length val"
    and "kv_db_set wt db name key key_sz val val_sz w = Inr (0, w')"
  shows "tbl w' = (tbl w)(uri (ks_cursor s) :=
    (tbl w (uri (ks_cursor s)))(take (unat key_sz) key \<mapsto> take (unat val_sz) val))"
  using assms(2-5) by (intro wt_tables_insert [OF assms(1)]) (simp add: kv_db_set_def)

section \<open>Properties\<close>

text \<open>
  After a successful \<^verbatim>\<open>kv_db_set\<close>, \<^verbatim>\<open>kv_db_get\<close> of the same schema and key gives the value stored, byte
  for byte, and of every other key, in the tables of all the schemas, what the table held before.
\<close>

theorem kv_db_set_get:
  assumes "wt_tables wt tbl uri"
    and "dict_get (kd_schema_ctx db) name = Inr (Some s)" "unat key_sz \<le> length key" "unat val_sz \<le> length val"
    and "kv_db_set wt db name key key_sz val val_sz w = Inr (0, w')"
    and "dict_get (kd_schema_ctx db) name2 = Inr (Some s2)" "unat key_sz2 \<le> length key2"
  shows "\<exists>w''. kv_db_get wt db name2 key2 key_sz2 w' =
    Inr (if uri (ks_cursor s2) = uri (ks_cursor s) \<and> take (unat key_sz2) key2 = take (unat key_sz) key
         then Some (take (unat val_sz) val)
         else tbl w (uri (ks_cursor s2)) (take (unat key_sz2) key2), w'')"
  using kv_db_set_table [OF assms(1-5)] kv_db_get_table [OF assms(1,6,7), of w'] by auto

text \<open>
  After a successful \<^verbatim>\<open>kv_db_del\<close> the key is gone. With the name of a schema that is not registered the
  other operations return an error value, and \<^verbatim>\<open>kv_db_del\<close> reads through the null pointer.
\<close>

theorem kv_db_del_get:
  assumes "wt_tables wt tbl uri" "unat key_sz \<le> length key"
  shows "(case dict_get (kd_schema_ctx db) name of
      Inr (Some s) \<Rightarrow> \<forall>w'. kv_db_del wt db name key key_sz w = Inr (0, w') \<longrightarrow>
        (\<exists>w''. kv_db_get wt db name key key_sz w' = Inr (None, w''))
    | Inr None \<Rightarrow> kv_db_del wt db name key key_sz w = Inl OutOfBounds \<and>
        kv_db_get wt db name key key_sz w = Inr (None, w) \<and> kv_db_search wt db name key key_sz w = Inr (- 1, w) \<and>
        kv_db_set wt db name key key_sz val val_sz w = Inr (- 1, w)
    | Inl e \<Rightarrow> kv_db_del wt db name key key_sz w = Inl e)"
proof (cases "dict_get (kd_schema_ctx db) name")
  case (Inr found)
  show ?thesis
  proof (cases found)
    case (Some s)
    have "\<exists>w''. kv_db_get wt db name key key_sz w' = Inr (None, w'')"
      if "kv_db_del wt db name key key_sz w = Inr (0, w')" for w'
    proof -
      let ?c = "ks_cursor s" and ?k = "take (unat key_sz) key"
      have "wt_remove wt ?c (wt_set_key wt ?c ?k w) = (0, w')"
        using that Inr Some assms(2) by (simp add: kv_db_del_def)
      then have "tbl w' (uri ?c) ?k = None" using wt_tables_remove [OF assms(1)] by fastforce
      then show ?thesis using kv_db_get_table [OF assms(1) _ assms(2), of db name s w'] Inr Some by auto
    qed
    then show ?thesis using Inr Some by simp
  qed (simp_all add: Inr kv_db_del_def kv_db_get_def kv_db_search_def kv_db_set_def)
qed (simp add: kv_db_del_def)

text \<open>The rows that a cursor visits, from its state on, when nothing else is done with WiredTiger.\<close>

fun wt_scan :: "('w, 's, 'c) wiredtiger \<Rightarrow> 'c \<Rightarrow> (bytes \<times> bytes) list \<Rightarrow> 'w \<Rightarrow> bool" where
  "wt_scan wt c [] w \<longleftrightarrow> fst (wt_next wt c w) \<noteq> 0"
| "wt_scan wt c ((k, v) # rows) w \<longleftrightarrow>
     (let (r, w) = wt_next wt c w; (r', k', w) = wt_get_key wt c w; (r'', v', w) = wt_get_value wt c w in
      r = 0 \<and> r' = 0 \<and> k' = k \<and> v' = v \<and> wt_scan wt c rows w)"

text \<open>A callback that leaves WiredTiger alone.\<close>

definition plain_cb :: "(bytes \<Rightarrow> bytes \<Rightarrow> 'x \<Rightarrow> int \<times> 'x) \<Rightarrow> bytes \<Rightarrow> bytes \<Rightarrow> 'x \<times> 'w \<Rightarrow> (int \<times> 'x \<times> 'w) res" where
  "plain_cb f k v xw = (let (r, x) = f k v (fst xw) in Inr (r, x, snd xw))"

text \<open>What the search computes: the callback on every row up to the first whose key differs.\<close>

fun search_rows :: "(bytes \<Rightarrow> bool) \<Rightarrow> (bytes \<Rightarrow> bytes \<Rightarrow> 'x \<Rightarrow> int \<times> 'x) \<Rightarrow> (bytes \<times> bytes) list \<Rightarrow> 'x \<Rightarrow> int \<times> 'x" where
  "search_rows d f [] x = (- 1, x)"
| "search_rows d f ((k, v) # rows) x =
     (if d k then f (k @ [0]) v x else search_rows d f rows (snd (f (k @ [0]) v x)))"

lemma schema_search_loop_rows:
  assumes "wt_scan wt c rows w" "\<forall>(k, v) \<in> set rows. key_differs dst sz (k @ [0]) = Inr (d k)"
  shows "\<exists>w'. schema_search_loop wt (plain_cb f) dst sz c (x, w) =
    Some (Inr (fst (search_rows d f rows x), snd (search_rows d f rows x), w'))"
  using assms
proof (induction rows arbitrary: w x)
  case Nil
  then obtain r w1 where "wt_next wt c w = (r, w1)" "r \<noteq> 0" by (cases "wt_next wt c w") auto
  then have "schema_search_round wt (plain_cb f) dst sz c (x, w) = Inl (Inr (- 1, x, wt_cursor_close wt c w1))"
    by (simp add: schema_search_round_def)
  then show ?case by (subst schema_search_loop.simps) simp
next
  case (Cons row rows)
  obtain k v where row: "row = (k, v)" by (cases row)
  from Cons.prems(1) obtain w1 w2 w3 r where n: "wt_next wt c w = (0, w1)" "wt_get_key wt c w1 = (0, k, w2)"
      "wt_get_value wt c w2 = (r, v, w3)" "wt_scan wt c rows w3"
    by (auto simp: row Let_def split: prod.splits)
  have d: "key_differs dst sz (k @ [0]) = Inr (d k)" using Cons.prems(2) by (auto simp: row)
  have step: "schema_search_round wt (plain_cb f) dst sz c (x, w) =
      (if d k then Inl (Inr (fst (f (k @ [0]) v x), snd (f (k @ [0]) v x), wt_cursor_close wt c w3))
       else Inr (snd (f (k @ [0]) v x), w3))"
    using n d by (simp add: schema_search_round_def plain_cb_def split: prod.splits)
  show ?case
  proof (cases "d k")
    case True
    then show ?thesis using step by (subst schema_search_loop.simps) (simp add: row Let_def)
  next
    case False
    then have "schema_search_loop wt (plain_cb f) dst sz c (x, w) =
        schema_search_loop wt (plain_cb f) dst sz c (snd (f (k @ [0]) v x), w3)"
      using step by (subst schema_search_loop.simps) (simp add: Let_def)
    then show ?thesis using Cons.IH [OF n(4)] Cons.prems(2) False by (auto simp: row)
  qed
qed

text \<open>
  \<^verbatim>\<open>kv_schmea_search\<close> ends after the rows of the table. Without a key it calls the callback on every row and
  returns -1. With a key it calls it on every row up to the first one whose key \<^emph>\<open>differs\<close> from
  the key, and returns the result of that call; when all the keys are equal it returns -1.
\<close>

theorem kv_schmea_search_rows:
  assumes "wt_open_cursor wt (ks_session schema) (ks_uri schema) w = (r, c, w0)" "wt_scan wt c rows w0"
    and "\<forall>(k, v) \<in> set rows. key_differs dst_key dst_key_sz (k @ [0]) = Inr (d k)"
  shows "\<exists>w'. kv_schmea_search wt schema (plain_cb f) x dst_key dst_key_sz w =
    Some (Inr (fst (search_rows d f rows x), snd (search_rows d f rows x), w'))"
  using schema_search_loop_rows [OF assms(2,3)] by (simp add: kv_schmea_search_def assms(1))

section \<open>Schemas\<close>

text \<open>WiredTiger's calls for a new schema do not give -1, so that the asserts hold.\<close>

definition wt_opens :: "('w, 's, 'c) wiredtiger \<Rightarrow> bool" where
  "wt_opens wt \<longleftrightarrow> (\<forall>w. fst (wt_open_session wt w) \<noteq> - 1) \<and> (\<forall>s u f w. fst (wt_drop wt s u f w) \<noteq> - 1) \<and>
     (\<forall>s u f w. fst (wt_create wt s u f w) \<noteq> - 1) \<and> (\<forall>s u w. fst (wt_open_cursor wt s u w) \<noteq> - 1)"

lemma kv_schema_alloc_registers:
  assumes "wt_opens wt"
  obtains s w' where "ks_name s = name" "ks_uri s = schema_uri name"
    "\<And>db. kv_schema_alloc wt name (Some db) force w =
       rbind (kv_db_register_schema (Some db) (Some s)) (\<lambda>(r, db). Inr (s, db, w'))"
proof -
  let ?u = "schema_uri name"
  obtain r1 session w1 where 1: "wt_open_session wt w = (r1, session, w1)" by (cases "wt_open_session wt w")
  obtain r0 w0 where 0: "wt_drop wt session ?u schema_format w1 = (r0, w0)"
    by (cases "wt_drop wt session ?u schema_format w1")
  obtain r2 w2 where 2: "wt_create wt session ?u schema_format (if force then w0 else w1) = (r2, w2)"
    by (cases "wt_create wt session ?u schema_format (if force then w0 else w1)")
  obtain r3 c w3 where 3: "wt_open_cursor wt session ?u w2 = (r3, c, w3)"
    by (cases "wt_open_cursor wt session ?u w2")
  have r: "r0 \<noteq> - 1" "r1 \<noteq> - 1" "r2 \<noteq> - 1" "r3 \<noteq> - 1"
    using assms [unfolded wt_opens_def] 0 1 2 3 by (metis fst_conv)+
  let ?s = "\<lparr>ks_session = session, ks_cursor = c, ks_uri = ?u, ks_name = name\<rparr>"
  have "kv_schema_alloc wt name (Some db) force w =
      rbind (kv_db_register_schema (Some db) (Some ?s)) (\<lambda>(r, db). Inr (?s, db, w3))" for db :: "('b, 'c, 'd) kv_db_t"
    using r 0 1 2 3 by (cases force) (simp_all add: kv_schema_alloc_def Let_def)
  then show thesis by (intro that [of ?s w3]) simp_all
qed

lemma kv_schema_alloc_new:
  fixes db :: "('s, 'c, 'm) kv_db_t"
  assumes "wt_opens wt" "prefix_free K" "name \<in> K" "dict_over K n (kd_schema_ctx db)" "n < 4294967295"
    and "dict_lookup (kd_schema_ctx db) name = None"
  shows "\<exists>s d w'. kv_schema_alloc wt name (Some db) force w = Inr (s, Some (db\<lparr>kd_schema_ctx := d\<rparr>), w') \<and>
    ks_uri s = schema_uri name \<and> dict_over K (Suc n) d \<and> dict_lookup d = (dict_lookup (kd_schema_ctx db))(name \<mapsto> s)"
proof (rule kv_schema_alloc_registers [OF assms(1), of name force w])
  fix s w'
  assume s: "ks_name s = name" "ks_uri s = schema_uri name"
    "\<And>db :: ('s, 'c, 'm) kv_db_t. kv_schema_alloc wt name (Some db) force w =
       rbind (kv_db_register_schema (Some db) (Some s)) (\<lambda>(r, db). Inr (s, db, w'))"
  obtain d where d: "dict_put (kd_schema_ctx db) name s = Inr (True, d)" "dict_over K (Suc n) d"
      "dict_lookup d = (dict_lookup (kd_schema_ctx db))(name \<mapsto> s)"
    using dict_put_new [OF assms(2-6)] by blast
  then have "kv_schema_alloc wt name (Some db) force w = Inr (s, Some (db\<lparr>kd_schema_ctx := d\<rparr>), w')"
    using s(1,3) by (simp add: kv_db_register_schema_def)
  with d s(2) show ?thesis by blast
qed

text \<open>
  A new schema is registered under its name and can be fetched; the schemas registered before stay. The
  names are ones of which none is a prefix of another.
\<close>

theorem kv_schema_alloc_fetch:
  fixes db :: "('s, 'c, 'm) kv_db_t"
  assumes "wt_opens wt" "prefix_free K" "name \<in> K" "dict_over K n (kd_schema_ctx db)" "n < 4294967295"
    and "dict_lookup (kd_schema_ctx db) name = None"
  shows "\<exists>s db' w'. kv_schema_alloc wt name (Some db) force w = Inr (s, Some db', w') \<and> ks_uri s = schema_uri name \<and>
    dict_over K (Suc n) (kd_schema_ctx db') \<and>
    (\<forall>name' \<in> K. kv_db_fetch_schema (Some db') (Some name') =
       (if name' = name then Inr (Some s) else kv_db_fetch_schema (Some db) (Some name')))"
proof -
  obtain s d w' where d: "kv_schema_alloc wt name (Some db) force w = Inr (s, Some (db\<lparr>kd_schema_ctx := d\<rparr>), w')"
      "ks_uri s = schema_uri name" "dict_over K (Suc n) d" "dict_lookup d = (dict_lookup (kd_schema_ctx db))(name \<mapsto> s)"
    using kv_schema_alloc_new [OF assms] by blast
  have "dict_get d k = Inr (dict_lookup d k)" "dict_get (kd_schema_ctx db) k = Inr (dict_lookup (kd_schema_ctx db) k)"
    if "k \<in> K" for k
    using dict_get_over [OF assms(2) that] d(3) assms(4) by blast+
  then have "\<forall>name' \<in> K. kv_db_fetch_schema (Some (db\<lparr>kd_schema_ctx := d\<rparr>)) (Some name') =
      (if name' = name then Inr (Some s) else kv_db_fetch_schema (Some db) (Some name'))"
    using d(4) by (simp add: kv_db_fetch_schema_def)
  with d(1-3) show ?thesis by (intro exI [of _ s] exI [of _ "db\<lparr>kd_schema_ctx := d\<rparr>"] exI [of _ w']) simp
qed

text \<open>
  A schema whose name is a prefix of that of a registered schema in its bucket is created, but not
  registered: the database stays as it is, and what is stored and searched under the new name goes to the
  table of the other schema.
\<close>

theorem kv_schema_prefix_confused:
  fixes db :: "('s, 'c, 'm) kv_db_t"
  assumes "wt_opens wt" "dict_inv (kd_schema_ctx db)" "0 \<notin> set long" "starts name long"
    and "d_members (kd_schema_ctx db) ! bucket (kd_schema_ctx db) name = [(long, s0)]"
    and "bucket (kd_schema_ctx db) long = bucket (kd_schema_ctx db) name"
  shows "\<exists>s w'. kv_schema_alloc wt name (Some db) force w = Inr (s, Some db, w') \<and> ks_uri s = schema_uri name \<and>
    kv_db_fetch_schema (Some db) (Some name) = Inr (Some s0) \<and>
    kv_db_set wt db name key key_sz val val_sz w' = kv_db_set wt db long key key_sz val val_sz w' \<and>
    kv_db_get wt db name key key_sz w' = kv_db_get wt db long key key_sz w'"
proof (rule kv_schema_alloc_registers [OF assms(1), of name force w])
  fix s w'
  assume s: "ks_name s = name" "ks_uri s = schema_uri name"
    "\<And>db :: ('s, 'c, 'm) kv_db_t. kv_schema_alloc wt name (Some db) force w =
       rbind (kv_db_register_schema (Some db) (Some s)) (\<lambda>(r, db). Inr (s, db, w'))"
  have name: "0 \<notin> set name" using assms(3,4) by (metis in_set_takeD starts_def)
  have "dict_put (kd_schema_ctx db) name s = Inr (False, kd_schema_ctx db)"
    using assms(4,5) by (simp add: dict_put_eq [OF assms(2) name])
  then have "kv_schema_alloc wt name (Some db) force w = Inr (s, Some db, w')"
    using s(1,3) by (simp add: kv_db_register_schema_def)
  moreover have "dict_get (kd_schema_ctx db) name = Inr (Some s0)"
    using assms(4,5) by (simp add: dict_get_def dict_find_eq [OF assms(2) name])
  moreover have "dict_get (kd_schema_ctx db) long = Inr (Some s0)"
    using assms(5,6) by (simp add: dict_get_def dict_find_eq [OF assms(2,3)] starts_def)
  ultimately show ?thesis using s(2) by (auto simp: kv_db_fetch_schema_def kv_db_set_def kv_db_get_def)
qed

section \<open>Tables in memory\<close>

text \<open>An instance of the interface: a cursor is the name of its table, and the state holds the rows.\<close>

record mem_db =
  m_rows :: "bytes \<Rightarrow> (bytes \<times> bytes) list"
  m_key :: bytes
  m_val :: bytes
  m_pos :: nat

definition mem_wt :: "(mem_db, unit, bytes) wiredtiger" where
  "mem_wt = \<lparr>wt_open = (\<lambda>_ _ w. (0, w)), wt_open_session = (\<lambda>w. (0, (), w)),
     wt_drop = (\<lambda>_ u _ w. (0, w\<lparr>m_rows := (m_rows w)(u := [])\<rparr>)), wt_create = (\<lambda>_ _ _ w. (0, w)),
     wt_open_cursor = (\<lambda>_ u w. (0, u, w\<lparr>m_pos := 0\<rparr>)), wt_session_close = (\<lambda>_ w. w), wt_cursor_close = (\<lambda>_ w. w),
     wt_set_key = (\<lambda>_ k w. w\<lparr>m_key := k\<rparr>), wt_set_value = (\<lambda>_ v w. w\<lparr>m_val := v\<rparr>),
     wt_insert = (\<lambda>c w. (0, w\<lparr>m_rows := (m_rows w)(c := AList.update (m_key w) (m_val w) (m_rows w c))\<rparr>)),
     wt_search = (\<lambda>c w. case map_of (m_rows w c) (m_key w) of None \<Rightarrow> (- 31803, w) | Some v \<Rightarrow> (0, w\<lparr>m_val := v\<rparr>)),
     wt_remove = (\<lambda>c w. (0, w\<lparr>m_rows := (m_rows w)(c := AList.delete (m_key w) (m_rows w c))\<rparr>)),
     wt_next = (\<lambda>c w. if m_pos w < length (m_rows w c)
        then (0, w\<lparr>m_key := fst (m_rows w c ! m_pos w), m_val := snd (m_rows w c ! m_pos w), m_pos := Suc (m_pos w)\<rparr>)
        else (- 31803, w)),
     wt_get_key = (\<lambda>_ w. (0, m_key w, w)), wt_get_value = (\<lambda>_ w. (0, m_val w, w))\<rparr>"

definition mem_tbl :: "mem_db \<Rightarrow> bytes \<Rightarrow> bytes \<rightharpoonup> bytes" where
  "mem_tbl w u = map_of (m_rows w u)"

lemma mem_wt_tables: "wt_tables mem_wt mem_tbl (\<lambda>c. c)"
  by (auto simp: wt_tables_def mem_wt_def mem_tbl_def fun_eq_iff update_conv' delete_conv' split: option.splits)

lemma mem_wt_opens: "wt_opens mem_wt"
  by (simp add: wt_opens_def mem_wt_def)

text \<open>A database with one schema, named \<^verbatim>\<open>docs\<close>, in a table of one bucket.\<close>

definition docs_schema :: "(unit, bytes) kv_schema_t" where
  "docs_schema = \<lparr>ks_session = (), ks_cursor = schema_uri [100, 111, 99, 115],
     ks_uri = schema_uri [100, 111, 99, 115], ks_name = [100, 111, 99, 115]\<rparr>"

definition empty_db :: "(unit, bytes, unit) kv_db_t" where
  "empty_db = \<lparr>kd_database_name = [100], kd_database_dir = [47], kd_schema_ctx = dict_create 1 None,
     kd_schmea_meta_cache = None\<rparr>"

definition docs_db :: "(unit, bytes, unit) kv_db_t" where
  "docs_db = empty_db\<lparr>kd_schema_ctx := set_chain (dict_create 1 None) 0 [([100, 111, 99, 115], docs_schema)] 1\<rparr>"

definition mem0 :: mem_db where
  "mem0 = \<lparr>m_rows = (\<lambda>_. []), m_key = [], m_val = [], m_pos = 0\<rparr>"

lemma one_bucket: "bucket (dict_create 1 None :: 'v dict_t) k = 0"
  using bucket_create [of 1 None k] by simp

lemma docs_inv: "dict_inv (kd_schema_ctx docs_db)"
proof -
  have "dict_inv (dict_create 1 None :: (unit, bytes) kv_schema_t dict_t)" by (simp add: dict_inv_create)
  moreover have "d_count (dict_create 1 None :: (unit, bytes) kv_schema_t dict_t) = 0"
    by (simp add: dict_create_def dict_init_def)
  ultimately show ?thesis
    using dict_inv_put [of "dict_create 1 None" "[100, 111, 99, 115]" docs_schema]
    by (simp add: docs_db_def one_bucket)
qed

lemma docs_bucket [simp]: "bucket (kd_schema_ctx docs_db) k = 0"
  using one_bucket [of k, where ?'v = "(unit, bytes) kv_schema_t"] by (simp add: docs_db_def)

lemma docs_get: "dict_get (kd_schema_ctx docs_db) [100, 111, 99, 115] = Inr (Some docs_schema)"
  by (simp add: dict_get_def dict_find_eq [OF docs_inv]) (simp add: docs_db_def starts_def)

theorem kv_db_set_get_witness:
  "\<exists>w' w''. kv_db_set mem_wt docs_db [100, 111, 99, 115] [1, 2] 2 [7] 1 mem0 = Inr (0, w') \<and>
     kv_db_get mem_wt docs_db [100, 111, 99, 115] [1, 2] 2 w' = Inr (Some [7], w'')"
proof -
  obtain w' where w': "kv_db_set mem_wt docs_db [100, 111, 99, 115] [1, 2] 2 [7] 1 mem0 = Inr (0, w')"
    by (simp add: kv_db_set_def docs_get) (simp add: mem_wt_def)
  then show ?thesis
    using kv_db_set_get [OF mem_wt_tables docs_get _ _ w' docs_get, of 2 "[1, 2]"] by simp
qed

theorem kv_db_del_get_witness:
  "\<exists>w' w''. kv_db_del mem_wt docs_db [100, 111, 99, 115] [1, 2] 2 (mem0\<lparr>m_rows := (\<lambda>_. [([1, 2], [7])])\<rparr>) = Inr (0, w') \<and>
     kv_db_get mem_wt docs_db [100, 111, 99, 115] [1, 2] 2 w' = Inr (None, w'')"
proof -
  let ?w = "mem0\<lparr>m_rows := (\<lambda>_. [([1, 2], [7])])\<rparr>"
  obtain w' where w': "kv_db_del mem_wt docs_db [100, 111, 99, 115] [1, 2] 2 ?w = Inr (0, w')"
    by (simp add: kv_db_del_def docs_get) (simp add: mem_wt_def)
  then show ?thesis
    using kv_db_del_get [OF mem_wt_tables, of 2 "[1, 2]" docs_db "[100, 111, 99, 115]" ?w] by (simp add: docs_get)
qed

theorem kv_schmea_search_rows_witness:
  "\<exists>w'. kv_schmea_search mem_wt docs_schema (plain_cb (\<lambda>k v ks. (0, ks @ [k]))) [] (Some [1]) 1
      (mem0\<lparr>m_rows := (\<lambda>_. [([1], [5]), ([2], [6]), ([3], [7])])\<rparr>) =
    Some (Inr (0, [[1, 0], [2, 0]], w'))"
proof -
  let ?w = "mem0\<lparr>m_rows := (\<lambda>_. [([1], [5]), ([2], [6]), ([3], [7])])\<rparr>"
  let ?f = "\<lambda>k v ks :: bytes list. (0 :: int, ks @ [k])"
  have "wt_scan mem_wt (ks_uri docs_schema) [([1], [5]), ([2], [6]), ([3], [7])] ?w"
    by (simp add: mem_wt_def mem0_def)
  moreover have "wt_open_cursor mem_wt (ks_session docs_schema) (ks_uri docs_schema) ?w = (0, ks_uri docs_schema, ?w)"
    by (simp add: mem_wt_def mem0_def)
  moreover have "\<forall>(k, v) \<in> set [([1], [5 :: u8]), ([2], [6]), ([3], [7])].
      key_differs (Some [1]) 1 (k @ [0]) = Inr (k \<noteq> [1])"
    by (simp add: key_differs_def)
  ultimately show ?thesis
    using kv_schmea_search_rows [of mem_wt docs_schema ?w 0 "ks_uri docs_schema" ?w
      "[([1], [5]), ([2], [6]), ([3], [7])]" "Some [1]" 1 "\<lambda>k. k \<noteq> [1]" ?f "[]"]
    by simp
qed

theorem kv_schema_alloc_fetch_witness:
  "\<exists>s db' w'. kv_schema_alloc mem_wt [100, 111, 99, 115] (Some empty_db) False mem0 = Inr (s, Some db', w') \<and>
     kv_db_fetch_schema (Some db') (Some [100, 111, 99, 115]) = Inr (Some s)"
proof -
  have "prefix_free {[100, 111, 99, 115]}" by (simp add: prefix_free_def)
  moreover have "dict_over {[100, 111, 99, 115]} 0 (kd_schema_ctx empty_db)"
    "dict_lookup (kd_schema_ctx empty_db) [100, 111, 99, 115] = None"
    by (simp_all add: empty_db_def dict_over_create dict_lookup_create)
  ultimately show ?thesis
    using kv_schema_alloc_fetch [OF mem_wt_opens, of "{[100, 111, 99, 115]}" "[100, 111, 99, 115]" 0 empty_db False mem0]
    by auto
qed

theorem kv_schema_prefix_confused_witness:
  "\<exists>s w'. kv_schema_alloc mem_wt [100, 111] (Some docs_db) False mem0 = Inr (s, Some docs_db, w') \<and>
     kv_db_fetch_schema (Some docs_db) (Some [100, 111]) = Inr (Some docs_schema)"
proof -
  have "d_members (kd_schema_ctx docs_db) ! bucket (kd_schema_ctx docs_db) [100, 111] = [([100, 111, 99, 115], docs_schema)]"
    by (simp add: docs_bucket) (simp add: docs_db_def)
  from kv_schema_prefix_confused [OF mem_wt_opens docs_inv _ _ this, of False mem0 "[]" 0 "[]" 0]
  show ?thesis by (auto simp: starts_def)
qed

end
