(* ===== verification/Schema.thy ===== *)
theory Schema
  imports Kvdb OnDisk
begin

text \<open>
  Model of \<^verbatim>\<open>metaserver/schmea_meta.c\<close>: the records that describe schemas, kept in a table of the database
  and in a cache. The cache is a dictionary of pointers to records. \<^verbatim>\<open>bitmap_alloc\<close> and \<^verbatim>\<open>jansson\<close> are not in the
  repository.
\<close>

section \<open>schmea_meta.c\<close>

record schema_meta_rec_t =
  mr_kv_count :: u32
  mr_bytes :: u64
  mr_is_active :: bool
  mr_bitmap :: u64

type_synonym ('s, 'c) meta_db = "('s, 'c, schema_meta_rec_t) kv_db_t"

definition schema_meta_rec_fields :: "(string \<times> ctype) list" where
  "schema_meta_rec_fields = [(''kv_count'', CU32), (''bytes'', CU64), (''is_active'', CU8), (''bitmap'', CU64)]"

text \<open>
  A record in memory. It comes from \<^verbatim>\<open>calloc\<close> or \<^verbatim>\<open>memset\<close>, so the bytes between the fields are zeros.
\<close>

definition rec_bytes :: "schema_meta_rec_t \<Rightarrow> bytes" where
  "rec_bytes r = to_le 4 (unat (mr_kv_count r)) @ replicate 4 0 @ to_le 8 (unat (mr_bytes r)) @
     [if mr_is_active r then 1 else 0] @ replicate 7 0 @ to_le 8 (unat (mr_bitmap r))"

text \<open>The fields read through a pointer to a record.\<close>

definition rec_of :: "bytes \<Rightarrow> schema_meta_rec_t res" where
  "rec_of bs =
     (if sizeof schema_meta_rec_fields \<le> length bs
      then Inr \<lparr>mr_kv_count = le32 bs (offsetof schema_meta_rec_fields ''kv_count''),
                mr_bytes = le64 bs (offsetof schema_meta_rec_fields ''bytes''),
                mr_is_active = (bs ! offsetof schema_meta_rec_fields ''is_active'' \<noteq> 0),
                mr_bitmap = le64 bs (offsetof schema_meta_rec_fields ''bitmap'')\<rparr>
      else Inl OutOfBounds)"

definition SCHEMA_MAX_SIZE :: u32 where
  "SCHEMA_MAX_SIZE = 65535"

definition SYS_SCHEMA_META_TABLE_NAME :: bytes where
  "SYS_SCHEMA_META_TABLE_NAME = [115, 121, 115, 95, 115, 99, 104, 101, 109, 97, 95, 109, 101, 116, 97]"

text \<open>\<^verbatim>\<open>schmea_meta_rec_swap\<close>: the record \<^verbatim>\<open>src\<close> after the call; it returns no value.\<close>

definition schmea_meta_rec_swap :: "schema_meta_rec_t \<Rightarrow> schema_meta_rec_t \<Rightarrow> schema_meta_rec_t" where
  "schmea_meta_rec_swap src dst =
     src\<lparr>mr_bytes := mr_bytes dst, mr_kv_count := mr_kv_count dst, mr_is_active := mr_is_active dst\<rparr>"

text \<open>\<^verbatim>\<open>schmea_meta_rec_assign\<close> clears the record first, also its bitmap.\<close>

definition schmea_meta_rec_assign :: "schema_meta_rec_t \<Rightarrow> u32 \<Rightarrow> bool \<Rightarrow> u64 \<Rightarrow> int \<times> schema_meta_rec_t" where
  "schmea_meta_rec_assign meta key_count is_active byts =
     (let meta = \<lparr>mr_kv_count = 0, mr_bytes = 0, mr_is_active = False, mr_bitmap = 0\<rparr> in
      (0, meta\<lparr>mr_is_active := is_active, mr_kv_count := key_count, mr_bytes := byts\<rparr>))"

definition schmea_meta_rec_fetch :: "('w, 's, 'c) wiredtiger \<Rightarrow> bytes \<Rightarrow> bytes \<Rightarrow> ('s, 'c) meta_db \<Rightarrow> 'w \<Rightarrow>
    (bytes option \<times> 'w) res" where
  "schmea_meta_rec_fetch wt meta_schema_name key db w =
     kv_db_get wt db meta_schema_name key (of_nat (length key)) w"

definition schmea_meta_rec_save :: "('w, 's, 'c) wiredtiger \<Rightarrow> bytes \<Rightarrow> bytes \<Rightarrow> bytes \<Rightarrow> u64 \<Rightarrow> ('s, 'c) meta_db \<Rightarrow> 'w \<Rightarrow>
    (int \<times> 'w) res" where
  "schmea_meta_rec_save wt schema_name key val val_size db w =
     kv_db_set wt db schema_name key (of_nat (length key)) val val_size w"

text \<open>
  \<^verbatim>\<open>schema_cache_load_cb\<close>; \<open>bitmap\<close> is the pointer that \<^verbatim>\<open>bitmap_alloc\<close> gives. A missing record is read
  through a null pointer.
\<close>

definition schema_cache_load_cb :: "('w, 's, 'c) wiredtiger \<Rightarrow> u64 \<Rightarrow> bytes \<Rightarrow> bytes \<Rightarrow> ('s, 'c) meta_db \<times> 'w \<Rightarrow>
    (int \<times> ('s, 'c) meta_db \<times> 'w) res" where
  "schema_cache_load_cb wt bitmap key val dbw =
     (let name = takeWhile (\<lambda>c. c \<noteq> 0) key in
      rbind (kv_schema_alloc wt name (Some (fst dbw)) False (snd dbw)) (\<lambda>(schema, dbo, w).
      case dbo of
        None \<Rightarrow> Inl OutOfBounds
      | Some db \<Rightarrow>
          rbind (schmea_meta_rec_fetch wt SYS_SCHEMA_META_TABLE_NAME name db w) (\<lambda>(prev, w).
          case prev of
            None \<Rightarrow> Inl OutOfBounds
          | Some bs \<Rightarrow>
              rbind (rec_of bs) (\<lambda>prev_meta.
              let new_meta = \<lparr>mr_kv_count = 0, mr_bytes = 0, mr_is_active = False, mr_bitmap = 0\<rparr>;
                  new_meta = new_meta\<lparr>mr_bitmap := bitmap\<rparr>;
                  (r, new_meta) = schmea_meta_rec_assign new_meta (mr_kv_count prev_meta)
                                    (mr_is_active prev_meta) (mr_bytes prev_meta) in
              case kd_schmea_meta_cache db of
                None \<Rightarrow> Inl OutOfBounds
              | Some cache \<Rightarrow>
                  rbind (dict_put cache name new_meta) (\<lambda>(added, cache).
                  Inr (0, db\<lparr>kd_schmea_meta_cache := Some cache\<rparr>, w))))))"

text \<open>\<^verbatim>\<open>schmea_cache_add\<close>: its result, the cache and the state of WiredTiger.\<close>

definition schmea_cache_add :: "('w, 's, 'c) wiredtiger \<Rightarrow> schema_meta_rec_t dict_t \<Rightarrow> ('s, 'c) meta_db \<Rightarrow> bytes \<Rightarrow> bytes \<Rightarrow>
    schema_meta_rec_t \<Rightarrow> u64 \<Rightarrow> 'w \<Rightarrow> (int \<times> schema_meta_rec_t dict_t \<times> 'w) res" where
  "schmea_cache_add wt cache db schema_name key val val_sz w =
     rbind (kv_db_set wt db schema_name key (of_nat (length key)) (rec_bytes val) val_sz w) (\<lambda>(ret, w).
     if ret \<noteq> 0 then Inr (- 1, cache, w)
     else rbind (dict_put cache key val) (\<lambda>(added, cache). Inr (if added then 0 else - 1, cache, w)))"

text \<open>\<^verbatim>\<open>schmea_cache_del\<close>: its result, the record that is freed, the cache and the state of WiredTiger.\<close>

definition schmea_cache_del :: "('w, 's, 'c) wiredtiger \<Rightarrow> schema_meta_rec_t dict_t \<Rightarrow> ('s, 'c) meta_db \<Rightarrow> bytes \<Rightarrow> bytes \<Rightarrow> 'w \<Rightarrow>
    (int \<times> schema_meta_rec_t option \<times> schema_meta_rec_t dict_t \<times> 'w) res" where
  "schmea_cache_del wt cache db schema_name key w =
     rbind (kv_db_del wt db schema_name key (of_nat (length key)) w) (\<lambda>(ret, w).
     if ret \<noteq> 0 then Inr (ret, None, cache, w)
     else rbind (dict_del cache key) (\<lambda>(r, freed, cache). Inr (0, freed, cache, w)))"

definition schema_cache_load :: "('w, 's, 'c) wiredtiger \<Rightarrow> u64 \<Rightarrow> bytes \<Rightarrow> ('s, 'c) meta_db \<Rightarrow> 'w \<Rightarrow>
    (int \<times> ('s, 'c) meta_db \<times> 'w) res option" where
  "schema_cache_load wt bitmap meta_name db w =
     (case kv_db_fetch_schema (Some db) (Some meta_name) of
        Inl e \<Rightarrow> Some (Inl e)
      | Inr meta \<Rightarrow>
          let db = db\<lparr>kd_schmea_meta_cache := Some (dict_create SCHEMA_MAX_SIZE None)\<rparr> in
          case meta of
            None \<Rightarrow> Some (Inl OutOfBounds)
          | Some m \<Rightarrow>
              map_option (\<lambda>res. rbind res (\<lambda>(r, db, w). Inr (0, db, w)))
                (kv_schmea_search wt m (schema_cache_load_cb wt bitmap) db None 0 w))"

text \<open>
  \<^verbatim>\<open>schmea_meta_rec_dump\<close>: the members of the JSON object in the order they are set, given to \<^verbatim>\<open>json_dumps\<close>; an
  integer of JSON is a \<^verbatim>\<open>long long\<close>.
\<close>

definition schmea_meta_rec_dump :: "((string \<times> int) list \<Rightarrow> 'j) \<Rightarrow> schema_meta_rec_t \<Rightarrow> 'j" where
  "schmea_meta_rec_dump json_dumps rec =
     json_dumps [(''kv_count'', uint (mr_kv_count rec)), (''total_bytes'', sint (mr_bytes rec)),
                 (''is_active'', if mr_is_active rec then 1 else 0)]"

section \<open>Lemmas\<close>

lemma rec_layout:
  "sizeof schema_meta_rec_fields = 32" "offsetof schema_meta_rec_fields ''kv_count'' = 0"
  "offsetof schema_meta_rec_fields ''bytes'' = 8" "offsetof schema_meta_rec_fields ''is_active'' = 16"
  "offsetof schema_meta_rec_fields ''bitmap'' = 24"
  by (simp_all add: sizeof_def offsetof_def schema_meta_rec_fields_def align_up_def)

lemma length_rec_bytes [simp]: "length (rec_bytes r) = 32"
  by (simp add: rec_bytes_def)

lemma le64_written: "le64 (pre @ to_le 8 (unat (v :: u64)) @ post) (length pre) = v"
  using unsigned_less [of v, where ?'a = nat] by (simp add: le64_def le_nat_to_le)

text \<open>The record read back from its bytes.\<close>

lemma rec_of_bytes: "rec_of (rec_bytes r) = Inr r"
proof -
  let ?a = "to_le 4 (unat (mr_kv_count r))" and ?b = "to_le 8 (unat (mr_bytes r))"
    and ?c = "to_le 8 (unat (mr_bitmap r))"
  let ?p = "?a @ replicate 4 0" and ?q = "?a @ replicate 4 0 @ ?b"
  let ?f = "if mr_is_active r then 1 else 0 :: u8"
  have "le32 (rec_bytes r) 0 = mr_kv_count r"
    using le32_written [of "[]" "mr_kv_count r"] by (simp add: rec_bytes_def)
  moreover have "le64 (rec_bytes r) 8 = mr_bytes r"
    using le64_written [of ?p "mr_bytes r" "?f # replicate 7 0 @ ?c"] by (simp add: rec_bytes_def)
  moreover have "le64 (rec_bytes r) 24 = mr_bitmap r"
    using le64_written [of "?q @ ?f # replicate 7 0" "mr_bitmap r" "[]"] by (simp add: rec_bytes_def)
  moreover have "rec_bytes r ! 16 = ?f" by (simp add: rec_bytes_def nth_append)
  ultimately show ?thesis by (simp add: rec_of_def rec_layout)
qed

text \<open>Sessions, tables and cursors that are opened leave the content of the tables as it is.\<close>

definition wt_keeps :: "('w, 's, 'c) wiredtiger \<Rightarrow> ('w \<Rightarrow> bytes \<Rightarrow> bytes \<rightharpoonup> bytes) \<Rightarrow> bool" where
  "wt_keeps wt tbl \<longleftrightarrow> (\<forall>w. tbl (snd (snd (wt_open_session wt w))) = tbl w) \<and>
     (\<forall>s u f w. tbl (snd (wt_create wt s u f w)) = tbl w) \<and>
     (\<forall>s u w. tbl (snd (snd (wt_open_cursor wt s u w))) = tbl w)"

section \<open>Properties\<close>

text \<open>
  (C25) A record that \<^verbatim>\<open>schmea_cache_add\<close> has stored under a new key is read back by \<^verbatim>\<open>schmea_meta_rec_fetch\<close> with all its fields,
  and is in the cache.
\<close>

theorem schmea_cache_add_fetch:
  assumes "wt_tables wt tbl uri" "dict_get (kd_schema_ctx db) name = Inr (Some s)"
    and "prefix_free K" "key \<in> K" "dict_over K n cache" "n < 4294967295" "length key < 18446744073709551616"
    and "schmea_cache_add wt cache db name key val (of_nat (sizeof schema_meta_rec_fields)) w = Inr (0, cache', w')"
  shows "\<exists>bs w''. schmea_meta_rec_fetch wt name key db w' = Inr (Some bs, w'') \<and> rec_of bs = Inr val \<and>
    dict_get cache' key = Inr (Some val)"
proof -
  have sz: "unat (of_nat (length key) :: u64) = length key" "unat (of_nat (sizeof schema_meta_rec_fields) :: u64) = 32"
    using assms(7) by (simp_all add: unat_of_nat_in rec_layout)
  obtain r w1 where set: "kv_db_set wt db name key (of_nat (length key)) (rec_bytes val)
      (of_nat (sizeof schema_meta_rec_fields)) w = Inr (r, w1)" "r = 0" "w1 = w'"
      and put: "dict_put cache key val = Inr (True, cache')"
    using assms(8) by (auto simp: schmea_cache_add_def rbind_eq_Inr split: if_splits)
  have "tbl w' = (tbl w)(uri (ks_cursor s) := (tbl w (uri (ks_cursor s)))(key \<mapsto> rec_bytes val))"
    using kv_db_set_table [OF assms(1,2) _ _ set(1) [unfolded set(2,3)]] sz by simp
  then have "\<exists>w''. schmea_meta_rec_fetch wt name key db w' = Inr (Some (rec_bytes val), w'')"
    using kv_db_get_table [OF assms(1,2), of "of_nat (length key)" key w'] sz
    by (auto simp: schmea_meta_rec_fetch_def)
  moreover have "dict_get cache' key = Inr (Some val)"
    using dict_put_added [OF assms(3-6) put] dict_get_over [OF assms(3,4), of "Suc n" cache'] by simp
  ultimately show ?thesis using rec_of_bytes by blast
qed

lemma kv_schema_alloc_keeps:
  assumes "wt_keeps wt tbl" "kv_schema_alloc wt name db False w = Inr (s, db', w')"
  shows "tbl w' = tbl w"
  using assms
  by (auto simp: wt_keeps_def kv_schema_alloc_def ASSERT_def rbind_eq_Inr Let_def split: prod.splits if_splits)
    (metis snd_conv)

text \<open>
  The callback with which \<^verbatim>\<open>schema_cache_load\<close> rebuilds the cache registers the schema named by the key, finds the
  record of the schema in the table of records, and puts a record with the same counts under its name
  into the cache. The bitmap of that record is null, whatever \<^verbatim>\<open>bitmap_alloc\<close> gave.
\<close>

theorem cache_load_loses_bitmap:
  fixes db :: "('s, 'c) meta_db"
  assumes "wt_tables wt tbl uri" "wt_opens wt" "wt_keeps wt tbl"
    and "prefix_free K" "name \<in> K" "SYS_SCHEMA_META_TABLE_NAME \<in> K" "length name < 18446744073709551616"
    and "dict_over K n (kd_schema_ctx db)" "n < 4294967295" "dict_lookup (kd_schema_ctx db) name = None"
    and "dict_lookup (kd_schema_ctx db) SYS_SCHEMA_META_TABLE_NAME = Some m"
    and "tbl w (uri (ks_cursor m)) name = Some bs" "rec_of bs = Inr prev"
    and "kd_schmea_meta_cache db = Some cache" "dict_over K n' cache" "n' < 4294967295" "dict_lookup cache name = None"
  shows "\<exists>db' w' cache' s. schema_cache_load_cb wt bitmap (name @ [0]) val (db, w) = Inr (0, db', w') \<and>
    kd_schmea_meta_cache db' = Some cache' \<and> dict_get cache' name = Inr (Some (prev\<lparr>mr_bitmap := 0\<rparr>)) \<and>
    kv_db_fetch_schema (Some db') (Some name) = Inr (Some s) \<and> ks_uri s = schema_uri name"
proof -
  obtain s d w1 where alloc: "kv_schema_alloc wt name (Some db) False w = Inr (s, Some (db\<lparr>kd_schema_ctx := d\<rparr>), w1)"
      "ks_uri s = schema_uri name" "dict_over K (Suc n) d" "dict_lookup d = (dict_lookup (kd_schema_ctx db))(name \<mapsto> s)"
    using kv_schema_alloc_new [OF assms(2,4,5,8-10)] by blast
  let ?db = "db\<lparr>kd_schema_ctx := d\<rparr>"
  have get: "dict_get d k = Inr (dict_lookup d k)" if "k \<in> K" for k
    using dict_get_over [OF assms(4) that alloc(3)] .
  have "SYS_SCHEMA_META_TABLE_NAME \<noteq> name" using assms(10,11) by auto
  then have "dict_get (kd_schema_ctx ?db) SYS_SCHEMA_META_TABLE_NAME = Inr (Some m)"
    using get [OF assms(6)] alloc(4) assms(11) by simp
  moreover have "unat (of_nat (length name) :: u64) = length name" using assms(7) by (simp add: unat_of_nat_in)
  ultimately obtain w2 where fetch: "schmea_meta_rec_fetch wt SYS_SCHEMA_META_TABLE_NAME name ?db w1 = Inr (Some bs, w2)"
    using kv_db_get_table [OF assms(1), of ?db _ m "of_nat (length name)" name w1]
      kv_schema_alloc_keeps [OF assms(3) alloc(1)] assms(12) by (auto simp: schmea_meta_rec_fetch_def)
  obtain c where c: "dict_put cache name (prev\<lparr>mr_bitmap := 0\<rparr>) = Inr (True, c)"
      "dict_get c name = Inr (Some (prev\<lparr>mr_bitmap := 0\<rparr>))"
    using dict_put_new [OF assms(4,5,15-17)] dict_get_over [OF assms(4,5)] by (metis fun_upd_same)
  have str: "takeWhile (\<lambda>c. c \<noteq> 0) (name @ [0]) = name"
    using assms(4,5) by (auto simp: prefix_free_def takeWhile_tail takeWhile_append2)
  have new: "\<lparr>mr_kv_count = mr_kv_count prev, mr_bytes = mr_bytes prev, mr_is_active = mr_is_active prev, mr_bitmap = 0\<rparr> =
      prev\<lparr>mr_bitmap := 0\<rparr>" by simp
  have "schema_cache_load_cb wt bitmap (name @ [0]) val (db, w) = Inr (0, ?db\<lparr>kd_schmea_meta_cache := Some c\<rparr>, w2)"
    using alloc(1) fetch c(1) assms(13,14)
    by (simp add: schema_cache_load_cb_def str Let_def schmea_meta_rec_assign_def new)
  then show ?thesis using c(2) alloc(2,4) get [OF assms(5)] by (auto simp: kv_db_fetch_schema_def)
qed

section \<open>Instances\<close>

text \<open>A database in memory in which the table of records is registered.\<close>

lemma sys_ctx:
  obtains ctx :: "(unit, bytes) kv_schema_t dict_t"
    where "dict_over {SYS_SCHEMA_META_TABLE_NAME, [100]} 1 ctx" "dict_lookup ctx = [SYS_SCHEMA_META_TABLE_NAME \<mapsto> docs_schema]"
proof -
  have "dict_over {SYS_SCHEMA_META_TABLE_NAME, [100]} 0 (dict_create 1 None)" by (simp add: dict_over_create)
  from dict_put_new [OF _ _ this, of SYS_SCHEMA_META_TABLE_NAME docs_schema] that show thesis
    by (auto simp: prefix_free_def starts_def SYS_SCHEMA_META_TABLE_NAME_def dict_lookup_create)
qed

lemma sys_names: "prefix_free {SYS_SCHEMA_META_TABLE_NAME, [100]}"
  by (simp add: prefix_free_def starts_def SYS_SCHEMA_META_TABLE_NAME_def)

lemma mem_wt_keeps: "wt_keeps mem_wt mem_tbl"
  by (simp add: wt_keeps_def mem_wt_def mem_tbl_def fun_eq_iff)

definition some_rec :: schema_meta_rec_t where
  "some_rec = \<lparr>mr_kv_count = 3, mr_bytes = 4096, mr_is_active = True, mr_bitmap = 99\<rparr>"

theorem schmea_cache_add_fetch_witness:
  "\<exists>(db :: (unit, bytes) meta_db) cache' w' bs w''.
     schmea_cache_add mem_wt (dict_create 1 None) db SYS_SCHEMA_META_TABLE_NAME [100] some_rec 32 mem0 = Inr (0, cache', w') \<and>
     schmea_meta_rec_fetch mem_wt SYS_SCHEMA_META_TABLE_NAME [100] db w' = Inr (Some bs, w'') \<and> rec_of bs = Inr some_rec"
proof (rule sys_ctx)
  fix ctx :: "(unit, bytes) kv_schema_t dict_t"
  assume ctx: "dict_over {SYS_SCHEMA_META_TABLE_NAME, [100]} 1 ctx" "dict_lookup ctx = [SYS_SCHEMA_META_TABLE_NAME \<mapsto> docs_schema]"
  define db :: "(unit, bytes) meta_db"
    where "db = \<lparr>kd_database_name = [], kd_database_dir = [], kd_schema_ctx = ctx, kd_schmea_meta_cache = None\<rparr>"
  have get: "dict_get (kd_schema_ctx db) SYS_SCHEMA_META_TABLE_NAME = Inr (Some docs_schema)"
    using dict_get_over [OF sys_names _ ctx(1), of SYS_SCHEMA_META_TABLE_NAME] ctx(2) by (simp add: db_def)
  have over: "dict_over {SYS_SCHEMA_META_TABLE_NAME, [100]} 0 (dict_create 1 None :: schema_meta_rec_t dict_t)"
    by (simp add: dict_over_create)
  obtain c where "dict_put (dict_create 1 None) [100] some_rec = Inr (True, c)"
    using dict_put_new [OF sys_names _ over, of "[100]" some_rec] by (auto simp: dict_lookup_create)
  moreover obtain w' where "kv_db_set mem_wt db SYS_SCHEMA_META_TABLE_NAME [100] 1 (rec_bytes some_rec) 32 mem0 = Inr (0, w')"
    by (simp add: kv_db_set_def get) (simp add: mem_wt_def)
  ultimately have add: "schmea_cache_add mem_wt (dict_create 1 None) db SYS_SCHEMA_META_TABLE_NAME [100] some_rec
      (of_nat (sizeof schema_meta_rec_fields)) mem0 = Inr (0, c, w')"
    by (simp add: schmea_cache_add_def rec_layout)
  from schmea_cache_add_fetch [OF mem_wt_tables get sys_names _ over _ _ add] add
  show ?thesis by (intro exI [of _ db] exI [of _ c] exI [of _ w']) (auto simp: rec_layout)
qed

theorem cache_load_loses_bitmap_witness:
  "\<exists>(db :: (unit, bytes) meta_db) w db' w' cache'.
     schema_cache_load_cb mem_wt 77 [100, 0] [] (db, w) = Inr (0, db', w') \<and>
     kd_schmea_meta_cache db' = Some cache' \<and> dict_get cache' [100] = Inr (Some (some_rec\<lparr>mr_bitmap := 0\<rparr>))"
proof (rule sys_ctx)
  fix ctx :: "(unit, bytes) kv_schema_t dict_t"
  assume ctx: "dict_over {SYS_SCHEMA_META_TABLE_NAME, [100]} 1 ctx" "dict_lookup ctx = [SYS_SCHEMA_META_TABLE_NAME \<mapsto> docs_schema]"
  define db :: "(unit, bytes) meta_db"
    where "db = \<lparr>kd_database_name = [], kd_database_dir = [], kd_schema_ctx = ctx, kd_schmea_meta_cache = Some (dict_create 1 None)\<rparr>"
  let ?w = "mem0\<lparr>m_rows := (\<lambda>_. [([100], rec_bytes some_rec)])\<rparr>"
  have over: "dict_over {SYS_SCHEMA_META_TABLE_NAME, [100]} 0 (dict_create 1 None :: schema_meta_rec_t dict_t)"
    by (simp add: dict_over_create)
  show ?thesis
    using cache_load_loses_bitmap [OF mem_wt_tables mem_wt_opens mem_wt_keeps sys_names, of "[100]" 1 db docs_schema ?w
        "rec_bytes some_rec" some_rec "dict_create 1 None" 0 77 "[]"] ctx over
    by (auto simp: db_def mem_tbl_def rec_of_bytes dict_lookup_create SYS_SCHEMA_META_TABLE_NAME_def)
qed

end
