(* ===== verification/Kv_store.thy ===== *)
theory Kv_store
  imports Kvdb OnDisk
begin

text \<open>
  The key-value store as a whole: sequences of the calls of \<^verbatim>\<open>metaserver/kv_db.c\<close> refine tables of keys and values, one
  table per schema. The test program \<^verbatim>\<open>metaserver/kv_db_test.c\<close> is modelled and shown to read back what it stores.
\<close>

section \<open>The calls of kv_db.c and their specification\<close>

datatype kv_call = KvSchema bytes | KvSet bytes bytes bytes | KvSearch bytes bytes | KvGet bytes bytes | KvDel bytes bytes

datatype kv_reply = Result int | Present bool | Stored "bytes option"

text \<open>
  A call on a database and the state of WiredTiger; a key or a value is passed with its length. Of a search the test
  for 0 is kept, and a removal that finds no key counts as one that is done.
\<close>

definition WT_NOTFOUND :: int where
  "WT_NOTFOUND = - 31803"

fun kv_step :: "('w, 's, 'c) wiredtiger \<Rightarrow> ('s, 'c, 'm) kv_db_t \<times> 'w \<Rightarrow> kv_call \<Rightarrow>
    (kv_reply \<times> ('s, 'c, 'm) kv_db_t \<times> 'w) res" where
  "kv_step wt (db, w) (KvSchema name) =
     rbind (kv_schema_alloc wt name (Some db) False w) (\<lambda>(schema, db', w').
     case db' of None \<Rightarrow> Inl OutOfBounds | Some d \<Rightarrow> Inr (Result 0, d, w'))"
| "kv_step wt (db, w) (KvSet name k v) =
     rbind (kv_db_set wt db name k (of_nat (length k)) v (of_nat (length v)) w) (\<lambda>(r, w'). Inr (Result r, db, w'))"
| "kv_step wt (db, w) (KvSearch name k) =
     rbind (kv_db_search wt db name k (of_nat (length k)) w) (\<lambda>(r, w'). Inr (Present (r = 0), db, w'))"
| "kv_step wt (db, w) (KvGet name k) =
     rbind (kv_db_get wt db name k (of_nat (length k)) w) (\<lambda>(v, w'). Inr (Stored v, db, w'))"
| "kv_step wt (db, w) (KvDel name k) =
     rbind (kv_db_del wt db name k (of_nat (length k)) w) (\<lambda>(r, w'). Inr (Result (if r = WT_NOTFOUND then 0 else r), db, w'))"

text \<open>
  The specification: the names of the schemas, and the tables by their URI. A call on a schema that there is not
  returns an error, and \<^verbatim>\<open>kv_db_del\<close> faults.
\<close>

type_synonym kv_tables = "bytes \<Rightarrow> bytes \<rightharpoonup> bytes"

fun kv_spec :: "bytes set \<times> kv_tables \<Rightarrow> kv_call \<Rightarrow> (kv_reply \<times> bytes set \<times> kv_tables) res" where
  "kv_spec (R, T) (KvSchema n) = Inr (Result 0, insert n R, T)"
| "kv_spec (R, T) (KvSet n k v) =
     Inr (if n \<in> R then (Result 0, R, T(schema_uri n := (T (schema_uri n))(k \<mapsto> v))) else (Result (- 1), R, T))"
| "kv_spec (R, T) (KvSearch n k) = Inr (Present (n \<in> R \<and> T (schema_uri n) k \<noteq> None), R, T)"
| "kv_spec (R, T) (KvGet n k) = Inr (Stored (if n \<in> R then T (schema_uri n) k else None), R, T)"
| "kv_spec (R, T) (KvDel n k) =
     (if n \<in> R then Inr (Result 0, R, T(schema_uri n := (T (schema_uri n))(k := None))) else Inl OutOfBounds)"

text \<open>The names that the calls use are in \<open>K\<close>, and the lengths fit a \<^verbatim>\<open>size_t\<close>.\<close>

fun kv_call_ok :: "bytes set \<Rightarrow> kv_call \<Rightarrow> bool" where
  "kv_call_ok K (KvSchema n) \<longleftrightarrow> n \<in> K"
| "kv_call_ok K (KvSet n k v) \<longleftrightarrow> n \<in> K \<and> length k < 2 ^ 64 \<and> length v < 2 ^ 64"
| "kv_call_ok K (KvSearch n k) \<longleftrightarrow> n \<in> K \<and> length k < 2 ^ 64"
| "kv_call_ok K (KvGet n k) \<longleftrightarrow> n \<in> K \<and> length k < 2 ^ 64"
| "kv_call_ok K (KvDel n k) \<longleftrightarrow> n \<in> K \<and> length k < 2 ^ 64"

text \<open>
  What is documented of WiredTiger, while its calls succeed: a new session, a table that is created (which does nothing
  for one that is there) and a new cursor leave the content of the tables alone, and the cursor is one on the table named.
  An insertion with a cursor whose key and value have been set gives 0. A removal with a cursor whose key has been set gives
  0, or \<^verbatim>\<open>WT_NOTFOUND\<close> when the table does not have the key. Of a cursor without a key nothing is said.
\<close>

definition wt_reliable :: "('w, 's, 'c) wiredtiger \<Rightarrow> ('w \<Rightarrow> kv_tables) \<Rightarrow> ('c \<Rightarrow> bytes) \<Rightarrow> bool" where
  "wt_reliable wt tbl uri \<longleftrightarrow> wt_tables wt tbl uri \<and> wt_opens wt \<and>
     (\<forall>w. tbl (snd (snd (wt_open_session wt w))) = tbl w) \<and>
     (\<forall>s u f w. tbl (snd (wt_create wt s u f w)) = tbl w) \<and>
     (\<forall>s u w. case wt_open_cursor wt s u w of (r, c, w') \<Rightarrow> uri c = u \<and> tbl w' = tbl w) \<and>
     (\<forall>c k v w. fst (wt_insert wt c (wt_set_value wt c v (wt_set_key wt c k w))) = 0) \<and>
     (\<forall>c k w. case wt_remove wt c (wt_set_key wt c k w) of (r, w') \<Rightarrow>
        r = 0 \<or> r = WT_NOTFOUND \<and> tbl w (uri c) k = None \<and> tbl w' = tbl w)"

lemma wt_reliableD:
  assumes "wt_reliable wt tbl uri"
  shows "wt_tables wt tbl uri" "wt_opens wt" "wt_open_session wt w = (r, s, w') \<Longrightarrow> tbl w' = tbl w"
    "wt_create wt s u f w = (r, w') \<Longrightarrow> tbl w' = tbl w"
    "wt_open_cursor wt s u w = (r, c, w') \<Longrightarrow> uri c = u \<and> tbl w' = tbl w"
    "\<exists>w'. wt_insert wt c (wt_set_value wt c v (wt_set_key wt c k w)) = (0, w')"
    "\<exists>r w'. wt_remove wt c (wt_set_key wt c k w) = (r, w') \<and> (r = 0 \<or> r = WT_NOTFOUND) \<and>
       tbl w' = (tbl w)(uri c := (tbl w (uri c))(k := None))"
proof -
  show "wt_tables wt tbl uri" "wt_opens wt" using assms by (simp_all add: wt_reliable_def)
  have "tbl (snd (snd (wt_open_session wt w))) = tbl w" "tbl (snd (wt_create wt s u f w)) = tbl w"
    "case wt_open_cursor wt s u w of (r, c, w') \<Rightarrow> uri c = u \<and> tbl w' = tbl w"
    using assms by (simp_all only: wt_reliable_def)
  then show "wt_open_session wt w = (r, s, w') \<Longrightarrow> tbl w' = tbl w" "wt_create wt s u f w = (r, w') \<Longrightarrow> tbl w' = tbl w"
    "wt_open_cursor wt s u w = (r, c, w') \<Longrightarrow> uri c = u \<and> tbl w' = tbl w"
    by simp_all
  have "fst (wt_insert wt c (wt_set_value wt c v (wt_set_key wt c k w))) = 0" using assms by (simp add: wt_reliable_def)
  then show "\<exists>w'. wt_insert wt c (wt_set_value wt c v (wt_set_key wt c k w)) = (0, w')" by (metis prod.collapse)
  obtain q w1 where rem: "wt_remove wt c (wt_set_key wt c k w) = (q, w1)" by (cases "wt_remove wt c (wt_set_key wt c k w)")
  have "case wt_remove wt c (wt_set_key wt c k w) of (r, w') \<Rightarrow>
      r = 0 \<or> r = WT_NOTFOUND \<and> tbl w (uri c) k = None \<and> tbl w' = tbl w" using assms by (simp only: wt_reliable_def)
  then consider "q = 0" | "q = WT_NOTFOUND" "tbl w (uri c) k = None" "tbl w1 = tbl w" by (auto simp: rem)
  then show "\<exists>r w'. wt_remove wt c (wt_set_key wt c k w) = (r, w') \<and> (r = 0 \<or> r = WT_NOTFOUND) \<and>
       tbl w' = (tbl w)(uri c := (tbl w (uri c))(k := None))"
  proof cases
    case 1
    then show ?thesis using rem wt_tables_remove [of wt tbl uri c k w w1] assms by (simp add: wt_reliable_def)
  next
    case 2
    then show ?thesis using rem by (simp add: fun_upd_idem)
  qed
qed

section \<open>The refinement\<close>

text \<open>A database with its tables: the dictionary of the schemas holds the names \<open>R\<close>, each with a cursor on its table.\<close>

definition kv_rel :: "('w \<Rightarrow> kv_tables) \<Rightarrow> ('c \<Rightarrow> bytes) \<Rightarrow> bytes set \<Rightarrow> ('s, 'c, 'm) kv_db_t \<times> 'w \<Rightarrow> bytes set \<times> kv_tables \<Rightarrow> bool" where
  "kv_rel tbl uri K s a \<longleftrightarrow> dict_over K (card K) (kd_schema_ctx (fst s)) \<and> snd a = tbl (snd s) \<and>
     (\<forall>n \<in> K. n \<in> fst a \<longleftrightarrow> dict_lookup (kd_schema_ctx (fst s)) n \<noteq> None) \<and>
     (\<forall>n \<in> K. \<forall>x. dict_lookup (kd_schema_ctx (fst s)) n = Some x \<longrightarrow> uri (ks_cursor x) = schema_uri n)"

text \<open>The names a client can use.\<close>

definition kv_names :: "bytes set \<Rightarrow> bool" where
  "kv_names K \<longleftrightarrow> prefix_free K \<and> finite K \<and> card K < 4294967295"

lemma dict_over_card:
  assumes "dict_over K n d" "finite K"
  shows "dict_over K (card K) d"
proof -
  have "length (d_members d ! i) \<le> card K" if "i < length (d_members d)" for i
  proof -
    have "distinct (map fst (d_members d ! i))" "set (map fst (d_members d ! i)) \<subseteq> K"
      using assms(1) that by (auto simp: dict_over_def)
    then show ?thesis using card_mono [OF assms(2)] distinct_card by (metis length_map)
  qed
  then show ?thesis using assms(1) by (simp add: dict_over_def)
qed

lemma kv_rel_get:
  assumes "kv_names K" "kv_rel tbl uri K (db, w) (R, T)" "n \<in> K"
  shows "if n \<in> R then \<exists>x. dict_get (kd_schema_ctx db) n = Inr (Some x) \<and> uri (ks_cursor x) = schema_uri n
    else dict_get (kd_schema_ctx db) n = Inr None"
  using assms dict_get_over [of K n "card K" "kd_schema_ctx db"] by (auto simp: kv_rel_def kv_names_def)

lemma kv_rel_tables: "kv_rel tbl uri K (db, w) (R, T) \<Longrightarrow> tbl w' = T' \<Longrightarrow> kv_rel tbl uri K (db, w') (R, T')"
  by (simp add: kv_rel_def)

lemma kv_step_schema:
  fixes db :: "('s, 'c, 'm) kv_db_t"
  assumes wt: "wt_reliable wt tbl uri" and K: "kv_names K" "n \<in> K" and rel: "kv_rel tbl uri K (db, w) (R, T)"
  shows "\<exists>s. kv_step wt (db, w) (KvSchema n) = Inr (Result 0, s) \<and> kv_rel tbl uri K s (insert n R, T)"
proof -
  obtain r1 session w1 where 1: "wt_open_session wt w = (r1, session, w1)" by (cases "wt_open_session wt w")
  obtain r2 w2 where 2: "wt_create wt session (schema_uri n) schema_format w1 = (r2, w2)"
    by (cases "wt_create wt session (schema_uri n) schema_format w1")
  obtain r3 c w3 where 3: "wt_open_cursor wt session (schema_uri n) w2 = (r3, c, w3)"
    by (cases "wt_open_cursor wt session (schema_uri n) w2")
  let ?x = "\<lparr>ks_session = session, ks_cursor = c, ks_uri = schema_uri n, ks_name = n\<rparr>"
  have tbl: "tbl w3 = tbl w" "uri c = schema_uri n"
    using wt_reliableD(3) [OF wt 1] wt_reliableD(4) [OF wt 2] wt_reliableD(5) [OF wt 3] by simp_all
  have "r1 \<noteq> - 1" "r2 \<noteq> - 1" "r3 \<noteq> - 1"
    using wt_reliableD(2) [OF wt, unfolded wt_opens_def] 1 2 3 by (metis fst_conv)+
  then have alloc: "kv_schema_alloc wt n (Some db) False w =
      rbind (dict_put (kd_schema_ctx db) n ?x) (\<lambda>(_, ctx). Inr (?x, Some (db\<lparr>kd_schema_ctx := ctx\<rparr>), w3))"
    using 1 2 3 by (auto simp: kv_schema_alloc_def kv_db_register_schema_def Let_def rbind_assoc intro!: rbind_cong)
  obtain b ctx where put: "dict_put (kd_schema_ctx db) n ?x = Inr (b, ctx)" "dict_over K (Suc (card K)) ctx"
      "map_spec (dict_lookup (kd_schema_ctx db)) (Put n ?x) = (Added b, dict_lookup ctx)"
    using dict_step_put [of K n "card K" "kd_schema_ctx db" ?x] K rel
    by (auto simp: kv_names_def kv_rel_def rbind_eq_Inr)
  have "dict_lookup ctx = (if dict_lookup (kd_schema_ctx db) n = None then (dict_lookup (kd_schema_ctx db))(n \<mapsto> ?x)
      else dict_lookup (kd_schema_ctx db))"
    using put(3) by (auto split: if_splits)
  moreover have "dict_over K (card K) ctx" using dict_over_card [OF put(2)] K by (simp add: kv_names_def)
  ultimately have "kv_rel tbl uri K (db\<lparr>kd_schema_ctx := ctx\<rparr>, w3) (insert n R, T)"
    using rel tbl K(2) by (auto simp: kv_rel_def split: if_splits)
  then show ?thesis using alloc put(1) by simp
qed

lemma kv_search_table:
  assumes wt: "wt_tables wt tbl uri" and s: "dict_get (kd_schema_ctx db) name = Inr (Some s)"
    and "unat key_sz \<le> length key"
  shows "\<exists>r w'. kv_db_search wt db name key key_sz w = Inr (r, w') \<and> tbl w' = tbl w \<and>
    (r = 0 \<longleftrightarrow> tbl w (uri (ks_cursor s)) (take (unat key_sz) key) \<noteq> None)"
  by (rule wt_tables_search [OF wt, of "ks_cursor s" "take (unat key_sz) key" w])
    (use assms(3) in \<open>simp add: kv_db_search_def s\<close>)

text \<open>The calls on a schema that is registered, and on one that is not.\<close>

lemma kv_step_registered:
  assumes wt: "wt_reliable wt tbl uri" and x: "dict_get (kd_schema_ctx db) n = Inr (Some x)" and k: "length k < 2 ^ 64"
  shows "length v < 2 ^ 64 \<Longrightarrow> \<exists>w'. kv_step wt (db, w) (KvSet n k v) = Inr (Result 0, db, w') \<and>
      tbl w' = (tbl w)(uri (ks_cursor x) := (tbl w (uri (ks_cursor x)))(k \<mapsto> v))"
    and "\<exists>w'. kv_step wt (db, w) (KvSearch n k) = Inr (Present (tbl w (uri (ks_cursor x)) k \<noteq> None), db, w') \<and> tbl w' = tbl w"
    and "\<exists>w'. kv_step wt (db, w) (KvGet n k) = Inr (Stored (tbl w (uri (ks_cursor x)) k), db, w') \<and> tbl w' = tbl w"
    and "\<exists>w'. kv_step wt (db, w) (KvDel n k) = Inr (Result 0, db, w') \<and>
      tbl w' = (tbl w)(uri (ks_cursor x) := (tbl w (uri (ks_cursor x)))(k := None))"
proof -
  let ?c = "ks_cursor x"
  note tables = wt_reliableD(1) [OF wt]
  have len: "unat (of_nat (length k) :: u64) = length k" using k by (simp add: unat_of_nat_in)
  show "\<exists>w'. kv_step wt (db, w) (KvSet n k v) = Inr (Result 0, db, w') \<and> tbl w' = (tbl w)(uri ?c := (tbl w (uri ?c))(k \<mapsto> v))"
    if "length v < 2 ^ 64"
  proof -
    obtain w' where w': "wt_insert wt ?c (wt_set_value wt ?c v (wt_set_key wt ?c k w)) = (0, w')"
      using wt_reliableD(6) [OF wt] by blast
    then show ?thesis using x len that wt_tables_insert [OF tables w'] by (simp add: kv_db_set_def unat_of_nat_in)
  qed
  show "\<exists>w'. kv_step wt (db, w) (KvSearch n k) = Inr (Present (tbl w (uri ?c) k \<noteq> None), db, w') \<and> tbl w' = tbl w"
    using kv_search_table [OF tables x, of "of_nat (length k)" k w] len by auto
  show "\<exists>w'. kv_step wt (db, w) (KvGet n k) = Inr (Stored (tbl w (uri ?c) k), db, w') \<and> tbl w' = tbl w"
    using kv_db_get_table [OF tables x, of "of_nat (length k)" k w] len by auto
  obtain r w' where w': "wt_remove wt ?c (wt_set_key wt ?c k w) = (r, w')" "r = 0 \<or> r = WT_NOTFOUND"
      "tbl w' = (tbl w)(uri ?c := (tbl w (uri ?c))(k := None))"
    using wt_reliableD(7) [OF wt] by blast
  then show "\<exists>w'. kv_step wt (db, w) (KvDel n k) = Inr (Result 0, db, w') \<and>
      tbl w' = (tbl w)(uri ?c := (tbl w (uri ?c))(k := None))"
    using x len by (auto simp: kv_db_del_def)
qed

lemma kv_step_unregistered:
  assumes "dict_get (kd_schema_ctx db) n = Inr None"
  shows "kv_step wt (db, w) (KvSet n k v) = Inr (Result (- 1), db, w)"
    "kv_step wt (db, w) (KvSearch n k) = Inr (Present False, db, w)"
    "kv_step wt (db, w) (KvGet n k) = Inr (Stored None, db, w)" "kv_step wt (db, w) (KvDel n k) = Inl OutOfBounds"
  using assms by (simp_all add: kv_db_set_def kv_db_search_def kv_db_get_def kv_db_del_def)

fun call_name :: "kv_call \<Rightarrow> bytes" where
  "call_name (KvSchema n) = n"
| "call_name (KvSet n k v) = n"
| "call_name (KvSearch n k) = n"
| "call_name (KvGet n k) = n"
| "call_name (KvDel n k) = n"

lemma kv_step_refines:
  assumes wt: "wt_reliable wt tbl uri" and K: "kv_names K" and rel: "kv_rel tbl uri K (db, w) (R, T)"
    and ok: "kv_call_ok K q"
  shows "simulates (kv_rel tbl uri K) (kv_spec (R, T) q) (kv_step wt (db, w) q)"
proof -
  have T: "T = tbl w" using rel by (simp add: kv_rel_def)
  have n: "call_name q \<in> K" using ok by (cases q) simp_all
  note rel' = kv_rel_tables [OF rel, OF refl]
  show ?thesis
  proof (cases "call_name q \<in> R")
    case True
    then obtain x where x: "dict_get (kd_schema_ctx db) (call_name q) = Inr (Some x)"
        "uri (ks_cursor x) = schema_uri (call_name q)"
      using kv_rel_get [OF K rel n] by auto
    note reg = kv_step_registered [OF wt x(1), unfolded x(2)]
    show ?thesis
    proof (cases q)
      case (KvSchema name)
      then show ?thesis using kv_step_schema [OF wt K _ rel] ok by simp
    next
      case (KvSet name k v)
      then obtain w' where "kv_step wt (db, w) q = Inr (Result 0, db, w') \<and> tbl w' = T(schema_uri name := (T (schema_uri name))(k \<mapsto> v))"
        using reg(1) [of k v w] ok T by (auto simp del: kv_step.simps)
      then show ?thesis using rel' [of w'] True KvSet by simp
    next
      case (KvSearch name k)
      then obtain w' where "kv_step wt (db, w) q = Inr (Present (T (schema_uri name) k \<noteq> None), db, w') \<and> tbl w' = T"
        using reg(2) [of k w] ok T by (auto simp del: kv_step.simps)
      then show ?thesis using rel' [of w'] True KvSearch by simp
    next
      case (KvGet name k)
      then obtain w' where "kv_step wt (db, w) q = Inr (Stored (T (schema_uri name) k), db, w') \<and> tbl w' = T"
        using reg(3) [of k w] ok T by (auto simp del: kv_step.simps)
      then show ?thesis using rel' [of w'] True KvGet by simp
    next
      case (KvDel name k)
      then obtain w' where "kv_step wt (db, w) q = Inr (Result 0, db, w') \<and> tbl w' = T(schema_uri name := (T (schema_uri name))(k := None))"
        using reg(4) [of k w] ok T by (auto simp del: kv_step.simps)
      then show ?thesis using rel' [of w'] True KvDel by simp
    qed
  next
    case False
    then have "dict_get (kd_schema_ctx db) (call_name q) = Inr None" using kv_rel_get [OF K rel n] by simp
    then show ?thesis using False ok rel kv_step_schema [OF wt K _ rel]
      by (cases q) (simp_all add: kv_step_unregistered del: kv_step.simps)
  qed
qed

interpretation kv: refinement "kv_step wt" kv_spec
    "\<lambda>s a. wt_reliable wt tbl uri \<and> kv_names K \<and> kv_rel tbl uri K s a" "kv_call_ok K"
  for wt :: "('w, 's, 'c) wiredtiger" and tbl uri K
proof
  fix s :: "('s, 'c, 'm) kv_db_t \<times> 'w" and a :: "bytes set \<times> kv_tables" and q :: kv_call
  assume a: "wt_reliable wt tbl uri \<and> kv_names K \<and> kv_rel tbl uri K s a" "kv_call_ok K q"
  then have "simulates (kv_rel tbl uri K) (kv_spec (fst a, snd a) q) (kv_step wt (fst s, snd s) q)"
    by (intro kv_step_refines) simp_all
  then show "simulates (\<lambda>s a. wt_reliable wt tbl uri \<and> kv_names K \<and> kv_rel tbl uri K s a) (kv_spec a q) (kv_step wt s q)"
    using a(1) by (simp add: simulates_def split: sum.splits prod.splits)
qed

section \<open>A new database\<close>

lemma kv_rel_new:
  assumes "kv_names K"
  shows "kv_rel tbl uri K (\<lparr>kd_database_name = a, kd_database_dir = b, kd_schema_ctx = dict_create SCHEMA_LIMIT h,
    kd_schmea_meta_cache = m\<rparr>, w) ({}, tbl w)"
proof -
  have "0 < SCHEMA_LIMIT" by (simp add: SCHEMA_LIMIT_def)
  then show ?thesis using dict_over_card [OF dict_over_create] assms
    by (auto simp: kv_rel_def kv_names_def dict_lookup_create)
qed

text \<open>
  (C18) A new database refines tables of keys and values while the calls of WiredTiger succeed, as long as none of the names of
  schemas that the calls use is a prefix of another (with such names it does not, theorem \<open>kv_schema_prefix_confused\<close>): any
  sequence of \<^verbatim>\<open>kv_schema_alloc\<close>, \<^verbatim>\<open>kv_db_set\<close>, \<^verbatim>\<open>kv_db_search\<close>, \<^verbatim>\<open>kv_db_get\<close> and \<^verbatim>\<open>kv_db_del\<close> answers
  as the same sequence on a set of names and a map of tables, whatever the tables held before, and faults where that
  faults, at a deletion from a schema that was not created.
\<close>

theorem kv_db_refines_tables:
  assumes "wt_reliable wt tbl uri" "kv_names K" "list_all (kv_call_ok K) qs"
    and "kv_db_alloc wt sys_access sys_mkdir hash_fn (Some name) (Some dir) w = Inr (Some db, w0)"
  shows "case run_steps kv_spec ({}, tbl w0) qs of
      Inl f \<Rightarrow> run_steps (kv_step wt) (db, w0) qs = Inl f
    | Inr (rs, R, T) \<Rightarrow> \<exists>db' w'. run_steps (kv_step wt) (db, w0) qs = Inr (rs, db', w') \<and> tbl w' = T"
proof -
  have db: "db = \<lparr>kd_database_name = name, kd_database_dir = dir, kd_schema_ctx = dict_create SCHEMA_LIMIT (Some hash_fn),
      kd_schmea_meta_cache = None\<rparr>"
    using assms(4) by (simp add: kv_db_alloc_def Let_def ASSERT_eq_Inr split: if_splits prod.splits)
  have "kv_rel tbl uri K (db, w0) ({}, tbl w0)" unfolding db by (rule kv_rel_new [OF assms(2)])
  then have "simulates (\<lambda>s a. wt_reliable wt tbl uri \<and> kv_names K \<and> kv_rel tbl uri K s a)
      (run_steps kv_spec ({}, tbl w0) qs) (run_steps (kv_step wt) (db, w0) qs)"
    using assms(1-3) by (intro kv.run_ok) simp_all
  then show ?thesis by (auto simp: simulates_def kv_rel_def split: sum.splits prod.splits)
qed

lemma mem_wt_reliable: "wt_reliable mem_wt mem_tbl (\<lambda>c. c)"
  using mem_wt_tables mem_wt_opens by (simp add: wt_reliable_def mem_tbl_def fun_eq_iff) (simp add: mem_wt_def)

theorem kv_db_refines_tables_witness:
  "\<exists>db w'. kv_db_alloc mem_wt (\<lambda>_. 0) (\<lambda>_. 0) (\<lambda>_. 5) (Some [100]) (Some [47]) mem0 = Inr (Some db, mem0) \<and>
     run_steps (kv_step mem_wt) (db :: (unit, bytes, unit) kv_db_t, mem0) [KvSchema [97], KvSet [97] [1] [7, 8], KvGet [97] [1], KvGet [98] [1],
       KvDel [97] [1], KvSearch [97] [1]] =
     Inr ([Result 0, Result 0, Stored (Some [7, 8]), Stored None, Result 0, Present False], w')"
proof -
  have al: "kv_db_alloc mem_wt (\<lambda>_. 0) (\<lambda>_. 0) (\<lambda>_. 5) (Some [100]) (Some [47]) mem0 = Inr (Some
      (\<lparr>kd_database_name = [100], kd_database_dir = [47], kd_schema_ctx = dict_create SCHEMA_LIMIT (Some (\<lambda>_. 5)),
      kd_schmea_meta_cache = None\<rparr> :: (unit, bytes, unit) kv_db_t), mem0)"
    by (simp add: kv_db_alloc_def) (simp add: mem_wt_def)
  have "kv_names {[97], [98]}" by (simp add: kv_names_def prefix_free_def starts_def)
  from kv_db_refines_tables [OF mem_wt_reliable this _ al, of "[KvSchema [97], KvSet [97] [1] [7, 8], KvGet [97] [1],
      KvGet [98] [1], KvDel [97] [1], KvSearch [97] [1]]"]
  show ?thesis using al by (auto simp del: kv_step.simps)
qed

section \<open>kv_db_test.c\<close>

record demo_t =
  dm_id :: u32
  dm_name :: bytes
  dm_ver :: u32

definition demo_fields :: "(string \<times> ctype) list" where
  "demo_fields = [(''id'', CU32), (''name'', CArr 256 CU8), (''ver'', CU32)]"

text \<open>A structure in memory, and the fields read through a pointer to one.\<close>

definition demo_bytes :: "demo_t \<Rightarrow> bytes" where
  "demo_bytes d = to_le 4 (unat (dm_id d)) @ dm_name d @ to_le 4 (unat (dm_ver d))"

definition demo_of :: "bytes \<Rightarrow> demo_t res" where
  "demo_of bs =
     (if sizeof demo_fields \<le> length bs
      then Inr \<lparr>dm_id = le32 bs (offsetof demo_fields ''id''),
                dm_name = take 256 (drop (offsetof demo_fields ''name'') bs),
                dm_ver = le32 bs (offsetof demo_fields ''ver'')\<rparr>
      else Inl OutOfBounds)"

definition demo_line :: "string \<Rightarrow> demo_t \<Rightarrow> bytes" where
  "demo_line verb d =
     lit verb @ lit '' demo_t info :id='' @ dec_int (sint (dm_id d)) @ lit '',name='' @ takeWhile (\<lambda>c. c \<noteq> 0) (dm_name d) @
     lit '',ver='' @ dec_int (sint (dm_ver d)) @ [10]"

definition schemas_meta :: "bytes list" where
  "schemas_meta = [lit ''entries'', lit ''docs'', lit ''state'']"

definition demo_inst :: "nat \<Rightarrow> demo_t" where
  "demo_inst i = \<lparr>dm_id = of_nat i, dm_name = lit ''abcd'' @ replicate 252 0, dm_ver = of_nat i + 1\<rparr>"

definition demo_key :: "nat \<Rightarrow> bytes" where
  "demo_key i = snprintf 256 (lit ''test'' @ lit ''-'' @ dec i)"

text \<open>
  One turn of the loop: the lines that \<^verbatim>\<open>main\<close> prints itself, the database and the state of WiredTiger. Nothing that the
  calls return is tested; a null pointer from \<^verbatim>\<open>kv_db_get\<close> is read through.
\<close>

definition test_turn :: "('w, 's, 'c) wiredtiger \<Rightarrow> nat \<Rightarrow> bytes \<Rightarrow> ('s, 'c, 'm) kv_db_t option \<times> 'w \<Rightarrow>
    (bytes list \<times> ('s, 'c, 'm) kv_db_t option \<times> 'w) res" where
  "test_turn wt i schema_name s =
     rbind (kv_schema_alloc wt schema_name (fst s) False (snd s)) (\<lambda>(schema, dbo, w).
     let inst = demo_inst i; key = demo_key i in
     case dbo of
       None \<Rightarrow> Inl OutOfBounds
     | Some db \<Rightarrow>
         rbind (kv_db_set wt db schema_name key (of_nat (length key)) (demo_bytes inst) (of_nat (sizeof demo_fields)) w)
           (\<lambda>(r, w).
         rbind (kv_db_get wt db schema_name key (of_nat (length key)) w) (\<lambda>(inst2, w).
         case inst2 of
           None \<Rightarrow> Inl OutOfBounds
         | Some bs \<Rightarrow>
             rbind (demo_of bs) (\<lambda>inst2.
             rbind (kv_db_del wt db schema_name key (of_nat (length key)) w) (\<lambda>(r, w).
             Inr ([demo_line ''set'' inst, demo_line ''get'' inst2], dbo, w))))))"

fun test_loop :: "('w, 's, 'c) wiredtiger \<Rightarrow> nat \<Rightarrow> bytes list \<Rightarrow> ('s, 'c, 'm) kv_db_t option \<times> 'w \<Rightarrow>
    (bytes list \<times> ('s, 'c, 'm) kv_db_t option \<times> 'w) res" where
  "test_loop wt i [] s = Inr ([], s)"
| "test_loop wt i (name # names) s =
     rbind (test_turn wt i name s) (\<lambda>(out, s).
     rbind (test_loop wt (Suc i) names s) (\<lambda>(rest, s). Inr (out @ rest, s)))"

text \<open>\<^verbatim>\<open>main\<close>: the exit status, what it prints, and the state of WiredTiger.\<close>

definition kv_db_test_main :: "('w, 's, 'c) wiredtiger \<Rightarrow> (bytes \<Rightarrow> int) \<Rightarrow> (bytes \<Rightarrow> int) \<Rightarrow> (bytes \<Rightarrow> u32) \<Rightarrow>
    bytes list \<Rightarrow> 'w \<Rightarrow> (int \<times> bytes list \<times> ('s, 'c, 'm) kv_db_t option \<times> 'w) res" where
  "kv_db_test_main wt sys_access sys_mkdir hash_fn argv w =
     (if length argv \<noteq> 3 then Inr (- 1, [lit ''usage:'' @ argv ! 0 @ lit '' {db_name} {db_path}'' @ [10]], None, w)
      else rbind (kv_db_alloc wt sys_access sys_mkdir hash_fn (Some (argv ! 1)) (Some (argv ! 2)) w) (\<lambda>s.
           rbind (test_loop wt 0 schemas_meta s) (\<lambda>(out, s). Inr (0, out, s))))"

section \<open>The test program\<close>

lemma demo_layout [simp]: "sizeof demo_fields = 264" "offsetof demo_fields ''id'' = 0" "offsetof demo_fields ''name'' = 4"
  "offsetof demo_fields ''ver'' = 260"
  by (simp_all add: sizeof_def offsetof_def demo_fields_def struct_defs align_up_def)

lemma demo_of_bytes: "length (dm_name d) = 256 \<Longrightarrow> demo_of (demo_bytes d) = Inr d"
  using le32_written [of "[]" "dm_id d"] le32_written [of "to_le 4 (unat (dm_id d)) @ dm_name d" "dm_ver d" "[]"]
  by (simp add: demo_of_def demo_bytes_def)

text \<open>The calls by the steps of the machine.\<close>

lemma kv_step_calls:
  "kv_step wt (db, w) (KvSchema n) = Inr (r, db', w') \<Longrightarrow> \<exists>x. kv_schema_alloc wt n (Some db) False w = Inr (x, Some db', w')"
  "kv_step wt (db, w) (KvSet n k v) = Inr (Result i, db', w') \<Longrightarrow>
     kv_db_set wt db n k (of_nat (length k)) v (of_nat (length v)) w = Inr (i, w') \<and> db' = db"
  "kv_step wt (db, w) (KvGet n k) = Inr (Stored b, db', w') \<Longrightarrow> kv_db_get wt db n k (of_nat (length k)) w = Inr (b, w') \<and> db' = db"
  "kv_step wt (db, w) (KvDel n k) = Inr (Result i, db', w') \<Longrightarrow> (\<exists>r. kv_db_del wt db n k (of_nat (length k)) w = Inr (r, w')) \<and> db' = db"
  by (auto simp: rbind_eq_Inr split: option.splits)

lemma test_turn_ok:
  fixes db :: "('s, 'c, 'm) kv_db_t"
  assumes wt: "wt_reliable wt tbl uri" and K: "kv_names K" "n \<in> K" and rel: "kv_rel tbl uri K (db, w) (R, T)"
  shows "\<exists>db' w' R'. test_turn wt i n (Some db, w) =
      Inr ([demo_line ''set'' (demo_inst i), demo_line ''get'' (demo_inst i)], Some db', w') \<and>
    kv_rel tbl uri K (db', w') (R', T(schema_uri n := (T (schema_uri n))(demo_key i := None)))"
proof -
  let ?k = "demo_key i" and ?v = "demo_bytes (demo_inst i)" and ?u = "schema_uri n"
  have len: "length ?k < 2 ^ 64" "length ?v = 264" "length (dm_name (demo_inst i)) = 256"
    by (simp_all add: demo_key_def snprintf_def demo_bytes_def demo_inst_def lit_def)
  obtain db1 w1 where 1: "kv_step wt (db, w) (KvSchema n) = Inr (Result 0, db1, w1)" "kv_rel tbl uri K (db1, w1) (insert n R, T)"
    using kv_step_schema [OF wt K rel] by auto
  note step = kv_step_refines [OF wt K(1)]
  obtain w2 where 2: "kv_step wt (db1, w1) (KvSet n ?k ?v) = Inr (Result 0, db1, w2)"
      "kv_rel tbl uri K (db1, w2) (insert n R, T(?u := (T ?u)(?k \<mapsto> ?v)))"
    using step [OF 1(2), of "KvSet n ?k ?v"] K(2) len kv_step_calls(2) [of wt db1 w1 n ?k ?v] by (auto simp del: kv_step.simps)
  obtain w3 where 3: "kv_step wt (db1, w2) (KvGet n ?k) = Inr (Stored (Some ?v), db1, w3)"
      "kv_rel tbl uri K (db1, w3) (insert n R, T(?u := (T ?u)(?k \<mapsto> ?v)))"
    using step [OF 2(2), of "KvGet n ?k"] K(2) len kv_step_calls(3) [of wt db1 w2 n ?k] by (auto simp del: kv_step.simps)
  obtain w4 where 4: "kv_step wt (db1, w3) (KvDel n ?k) = Inr (Result 0, db1, w4)"
      "kv_rel tbl uri K (db1, w4) (insert n R, T(?u := (T ?u)(?k := None)))"
    using step [OF 3(2), of "KvDel n ?k"] K(2) len kv_step_calls(4) [of wt db1 w3 n ?k] by (auto simp del: kv_step.simps)
  obtain x where "kv_schema_alloc wt n (Some db) False w = Inr (x, Some db1, w1)" using kv_step_calls(1) [OF 1(1)] by blast
  then have "test_turn wt i n (Some db, w) =
      Inr ([demo_line ''set'' (demo_inst i), demo_line ''get'' (demo_inst i)], Some db1, w4)"
    using kv_step_calls(2) [OF 2(1)] kv_step_calls(3) [OF 3(1)] kv_step_calls(4) [OF 4(1)] len demo_of_bytes [of "demo_inst i"]
    by (auto simp: test_turn_def Let_def)
  then show ?thesis using 4(2) by blast
qed

text \<open>The lines of a run, and the keys that it leaves absent.\<close>

fun test_lines :: "nat \<Rightarrow> bytes list \<Rightarrow> bytes list" where
  "test_lines i [] = []"
| "test_lines i (n # ns) = [demo_line ''set'' (demo_inst i), demo_line ''get'' (demo_inst i)] @ test_lines (Suc i) ns"

fun test_tables :: "nat \<Rightarrow> bytes list \<Rightarrow> kv_tables \<Rightarrow> kv_tables" where
  "test_tables i [] T = T"
| "test_tables i (n # ns) T = test_tables (Suc i) ns (T(schema_uri n := (T (schema_uri n))(demo_key i := None)))"

lemma test_loop_ok:
  fixes db :: "('s, 'c, 'm) kv_db_t"
  assumes wt: "wt_reliable wt tbl uri" and K: "kv_names K" "set ns \<subseteq> K" and rel: "kv_rel tbl uri K (db, w) (R, T)"
  shows "\<exists>db' w' R'. test_loop wt i ns (Some db, w) = Inr (test_lines i ns, Some db', w') \<and>
    kv_rel tbl uri K (db', w') (R', test_tables i ns T)"
  using K(2) rel
proof (induction ns arbitrary: i db w R T)
  case (Cons n ns)
  let ?T = "T(schema_uri n := (T (schema_uri n))(demo_key i := None))"
  obtain db1 w1 R1 where 1: "test_turn wt i n (Some db, w) =
      Inr ([demo_line ''set'' (demo_inst i), demo_line ''get'' (demo_inst i)], Some db1, w1)"
      "kv_rel tbl uri K (db1, w1) (R1, ?T)"
    using test_turn_ok [OF wt K(1) _ Cons.prems(2), of n i] Cons.prems(1) by auto
  have "set ns \<subseteq> K" using Cons.prems(1) by simp
  from Cons.IH [OF this 1(2), of "Suc i"] obtain db2 w2 R2 where "test_loop wt (Suc i) ns (Some db1, w1) = Inr (test_lines (Suc i) ns, Some db2, w2)"
      "kv_rel tbl uri K (db2, w2) (R2, test_tables (Suc i) ns ?T)"
    by blast
  then show ?case using 1(1) by auto
qed auto

lemma schemas_meta_names: "kv_names (set schemas_meta)"
  by (simp add: kv_names_def prefix_free_def schemas_meta_def lit_def starts_def)

text \<open>
  (C19) The test program prints, for every schema, the structure it stores and then the same structure read back, and leaves
  the tables as they were but for its keys, which are absent. With another number of arguments it prints its usage; when
  the directory of the database cannot be made the assertion of \<^verbatim>\<open>kv_schema_alloc\<close> ends it.
\<close>

theorem kv_db_test_reads_back:
  fixes wt :: "('w, 's, 'c) wiredtiger"
  assumes "wt_reliable wt tbl uri" "length argv = 3" "\<And>p f w. fst (wt_open wt p f w) \<noteq> - 1"
    and "base = take 2047 (argv ! 2 @ [47] @ argv ! 1)" "w0 = snd (wt_open wt base conn_config w)"
  shows "if sys_access base \<noteq> 0 \<and> sys_mkdir base \<noteq> 0
    then (kv_db_test_main wt sys_access sys_mkdir hash_fn argv w :: (int \<times> bytes list \<times> ('s, 'c, 'm) kv_db_t option \<times> 'w) res) =
      Inl AssertFail
    else \<exists>db w'. (kv_db_test_main wt sys_access sys_mkdir hash_fn argv w :: (int \<times> bytes list \<times> ('s, 'c, 'm) kv_db_t option \<times> 'w) res) =
      Inr (0, test_lines 0 schemas_meta, Some db, w') \<and> tbl w' = test_tables 0 schemas_meta (tbl w0)"
proof (cases "sys_access base \<noteq> 0 \<and> sys_mkdir base \<noteq> 0")
  case True
  then have "(kv_db_alloc wt sys_access sys_mkdir hash_fn (Some (argv ! 1)) (Some (argv ! 2)) w ::
      (('s, 'c, 'm) kv_db_t option \<times> 'w) res) = Inr (None, w)"
    using assms(4) by (simp add: kv_db_alloc_def Let_def)
  then show ?thesis using True assms(2)
    by (simp add: kv_db_test_main_def schemas_meta_def test_turn_def kv_schema_alloc_def)
next
  case False
  let ?db = "\<lparr>kd_database_name = argv ! 1, kd_database_dir = argv ! 2, kd_schema_ctx = dict_create SCHEMA_LIMIT (Some hash_fn),
      kd_schmea_meta_cache = None\<rparr> :: ('s, 'c, 'm) kv_db_t"
  have "kv_db_alloc wt sys_access sys_mkdir hash_fn (Some (argv ! 1)) (Some (argv ! 2)) w = Inr (Some ?db, w0)"
    using False assms(3) [of base conn_config w] assms(4,5) by (auto simp: kv_db_alloc_def Let_def split: prod.splits)
  moreover obtain db w' R where "test_loop wt 0 schemas_meta (Some ?db, w0) = Inr (test_lines 0 schemas_meta, Some db, w')"
      "kv_rel tbl uri (set schemas_meta) (db, w') (R, test_tables 0 schemas_meta (tbl w0))"
    using test_loop_ok [OF assms(1) schemas_meta_names subset_refl kv_rel_new [OF schemas_meta_names]] by blast
  ultimately have "kv_db_test_main wt sys_access sys_mkdir hash_fn argv w = Inr (0, test_lines 0 schemas_meta, Some db, w') \<and>
      tbl w' = test_tables 0 schemas_meta (tbl w0)"
    using assms(2) by (simp add: kv_db_test_main_def kv_rel_def)
  then show ?thesis using False by auto
qed

theorem kv_db_test_reads_back_witness:
  "\<exists>w'. kv_db_test_main mem_wt (\<lambda>_. 0) (\<lambda>_. 0) (\<lambda>_. 5) [[116], [100], [47]] mem0 =
    Inr (0, test_lines 0 schemas_meta, w' :: (unit, bytes, unit) kv_db_t option \<times> mem_db)"
proof -
  have "fst (wt_open mem_wt p f w) \<noteq> - 1" for p f w by (simp add: mem_wt_def)
  from kv_db_test_reads_back [OF mem_wt_reliable _ this refl refl, of "[[116], [100], [47]]" "\<lambda>_. 0" "\<lambda>_. 0" "\<lambda>_. 5" mem0]
  show ?thesis by auto
qed

end
