(* ===== verification/Spec2Isabelle.thy ===== *)
theory Spec2Isabelle
  imports Session Dcache_threads Log_threads Hash Jenkins Mixers Dict Hashmap Utils Test_programs C_log Net Connection Chunk Conf Chunk_server Chunk_load Kvdb Schema Kv_store
begin

text \<open>
  \<^bold>\<open>A verification library for samplefs.\<close>

  The repository holds a read-only ext4 file system for FUSE (\<^verbatim>\<open>src/fuse\<close>), a library of hash
  functions and containers (\<^verbatim>\<open>src/base\<close>), and the beginnings of a metadata server
  (\<^verbatim>\<open>src/metaserver\<close>) and of a chunk server (\<^verbatim>\<open>src/chunkserver\<close>).

  \<^bold>\<open>Conventions.\<close> Machine integers are words of their width, so that wrap-around and the
  conversions between \<^verbatim>\<open>int\<close>, \<^verbatim>\<open>uint32_t\<close>, \<^verbatim>\<open>size_t\<close> and \<^verbatim>\<open>off_t\<close> are those of a 64-bit build. Every
  abort, trap and access outside of an object is a value of type \<open>fault\<close> in a result \<open>res\<close>: a
  failed \<^verbatim>\<open>ASSERT\<close> is \<open>AssertFail\<close>, a division by zero \<open>DivByZero\<close>, an access out of bounds or through a null pointer
  \<open>OutOfBounds\<close>, a loop that does not end \<open>NoReturn\<close>. Static variables are arguments and results of
  the functions that use them. The bytes that \<^verbatim>\<open>malloc\<close> and the stack leave in uninitialised objects are
  parameters, so that a theorem holds whatever they are.

  \<^bold>\<open>The theories.\<close>
  \<^item> \<open>Prelude\<close>: results and their laws, little-endian bytes, lemmas on words, C strings.
  \<^item> \<open>Refinement\<close>: components as machines; sequences of steps, and the contracts of a machine that refines
    another one (locale \<open>refinement\<close>) and of one whose state is only a cache (locale \<open>service\<close>, a special case).
  \<^item> \<open>Threads\<close>: threads over a shared state, the interleavings of their steps, rely-guarantee reasoning over them (locale
    \<open>rely_guarantee\<close>) and a criterion for the end of all runs (locale \<open>finite_runs\<close>, which extends it).
  \<^item> \<open>Disk\<close> (\<^verbatim>\<open>disk.c\<close>): the device, the two builds of \<^verbatim>\<open>pread_wrapper\<close> behind one interface (locale
    \<open>device_reader\<close>), \<^verbatim>\<open>__disk_read\<close>, read contexts.
  \<^item> \<open>OnDisk\<close> (\<^verbatim>\<open>types/*.h\<close>): the layout rules of C structures, the fields of the ext4 structures and
    their decoders.
  \<^item> \<open>Super\<close> (\<^verbatim>\<open>super.c\<close>, \<^verbatim>\<open>common.h\<close>): block arithmetic, super block, group descriptors.
  \<^item> \<open>Extents\<close> (\<^verbatim>\<open>extents.c\<close>): extent trees; \<open>extent_tree\<close> says what the blocks of a tree hold, by the bytes of
    the device.
  \<^item> \<open>Blockmap\<close> (\<^verbatim>\<open>inode.c\<close>): \<^verbatim>\<open>inode_get_data_pblock\<close> and the indirect blocks; \<open>ind_lookup\<close> is the
    specification of the index trees.
  \<^item> \<open>Inode\<close> (\<^verbatim>\<open>inode.c\<close>): directory buffers, directory entries, inodes by number; \<open>dir_list\<close> is the
    list of entries that a directory holds.
  \<^item> \<open>Dcache\<close> (\<^verbatim>\<open>dcache.c\<close>): the directory cache in a store of entries, its invariant \<open>dc_inv\<close>, the
    reachable states, and the contract of a name cache (locale \<open>name_cache\<close>).
  \<^item> \<open>Dcache_threads\<close> (\<^verbatim>\<open>dcache.c\<close>): look-ups and insertions of several threads, one access to a pointer of the tree per step; two
    interpretations of \<open>rely_guarantee\<close>, one for all jobs with the owner of every entry as ghost state, one for look-ups with the
    rings. \<open>Log_threads\<close> (\<^verbatim>\<open>logging.c\<close>): calls of \<^verbatim>\<open>__LOG\<close> of several threads, with the mutex.
  \<^item> \<open>Path\<close> (\<^verbatim>\<open>inode.c\<close>): lookup by path; \<open>resolve\<close> is the walk without a cache that it refines.
  \<^item> \<open>Read\<close> (\<^verbatim>\<open>op_read.c\<close>): reading; the proof rests on the contract of a block map (locale
    \<open>block_map\<close>), which extent trees and index trees both satisfy.
  \<^item> \<open>Ops\<close>: the other operations, \<^verbatim>\<open>op_getattr\<close>, \<^verbatim>\<open>op_open\<close>, \<^verbatim>\<open>op_readdir\<close>, \<^verbatim>\<open>op_readlink\<close>, \<^verbatim>\<open>op_init\<close>.
  \<^item> \<open>Image\<close>: a small file system image. \<open>Filesystem\<close>: the properties of the file system and their
    instances on the image.
  \<^item> \<open>Hash\<close>, \<open>Jenkins\<close>, \<open>Mixers\<close> (\<^verbatim>\<open>c_hash.c\<close>): CRC and FNV with their bit-wise and published references,
    the Jenkins hash for the three alignments, the Hsieh, Murmur and GFS mixers and jump consistent
    hashing.
  \<^item> \<open>Dict\<close> (\<^verbatim>\<open>dict.c\<close>): the dictionary of the metadata server; locale \<open>map_table\<close> is the contract of a map,
    which the dictionary satisfies for keys none of which is a prefix of another.
  \<^item> \<open>Fuse_main\<close> (\<^verbatim>\<open>fuse-main.c\<close>, \<^verbatim>\<open>logging.c\<close>): the main program, its options, the handler of \<^verbatim>\<open>SIGSEGV\<close>, and the log of the
    file system. \<open>Session\<close>: the table \<^verbatim>\<open>e4f_ops\<close> as one step per request; \<open>answer\<close> is the file system without a cache that
    sessions of requests refine.
  \<^item> \<open>Hashmap\<close> (\<^verbatim>\<open>c_hashmap.c\<close>), \<open>Utils\<close> (\<^verbatim>\<open>utils.c\<close>), \<open>C_log\<close> (\<^verbatim>\<open>c_log.c\<close>): the hash map, strings and the
    logger of the servers; \<open>hm_inv\<close> and \<open>log_inv\<close> are their invariants.
  \<^item> \<open>Net\<close> (\<^verbatim>\<open>net_sock.c\<close>): the callbacks of the socket server; \<open>net_reach\<close> is the server as a step
    relation, \<open>net_inv\<close> its invariant. \<open>Connection\<close>: the callbacks of one client, with the buffers they allocate and free.
  \<^item> \<open>Chunk\<close> (\<^verbatim>\<open>chunk.c\<close>, \<^verbatim>\<open>chunk_cache.c\<close>), \<open>Conf\<close> (both \<^verbatim>\<open>conf.c\<close>), \<open>Chunk_server\<close> (\<^verbatim>\<open>chunk_server.c\<close>): the
    chunks of the chunk server, the two readers of configurations, and the server put together. \<open>Chunk_load\<close>: the cache of
    chunks read from a directory, and the tear-down of the server.
  \<^item> \<open>Kvdb\<close> (\<^verbatim>\<open>kv_db.c\<close>), \<open>Schema\<close> (\<^verbatim>\<open>schmea_meta.c\<close>): the tables of the metadata server over WiredTiger, and the
    records that describe them. \<open>Kv_store\<close>: sequences of calls refine tables of keys and values (\<open>kv_spec\<close>), and the test
    program \<^verbatim>\<open>kv_db_test.c\<close>.
  \<^item> \<open>Test_programs\<close>: the test programs in \<^verbatim>\<open>utils.c\<close> and \<^verbatim>\<open>c_hash.c\<close>.

  \<^bold>\<open>Parameters.\<close> Code that is not in the repository is a parameter, and what a theorem needs of it a named
  hypothesis: \<open>append_file\<close> (a file opened with \<^verbatim>\<open>O_APPEND\<close>), \<open>wt_tables\<close>, \<open>wt_opens\<close>, \<open>wt_keeps\<close> and \<open>wt_reliable\<close>
  (WiredTiger), \<open>fuse_opt_documented\<close> (the option parser of libfuse). Each has an instance in memory on which the theorems are applied. The
  results of libuv, jansson, \<^verbatim>\<open>rand_r\<close> and the system calls are arguments. Reads of the device do not fail with I/O errors, reads and
  writes of a chunk's file do not fail, and \<^verbatim>\<open>uv_write2\<close> hands its client over.

  \<^bold>\<open>What is shown.\<close> Reads return the bytes of the file, for files without a hole before an extent or a missing index block and
  requests that are aligned or start in a mapped block below 4 GiB; the path lookup refines the walk over the directories and keeps
  its cache true, for components of fewer than 40 bytes; directory scans and listings are
  those of the entries; the mount reads the tables at their places; the cache keeps its rings
  closed; the hash functions are their references; jump hashing is consistent; the dictionary is a
  map, for keys none of which is a prefix of another. The program mounts ext4 devices only. From the mount on, any sequence of
  requests with short components is answered as by a file system without a cache, and opening and reading a file gives its bytes,
  whatever was asked before. The socket server hands its clients to its threads in turn, its counters are right, and a connection
  echoes what it reads and frees every buffer once, but for those of refused writes. The operations of the hash map do what they do to
  one bucket. A database is a map of tables for any sequence of calls on schemas whose names are not prefixes; what is stored in the cache of records is found again.
  Chunks are written to the end of their files, whatever the lengths of the single writes are. With several threads the tree of
  the cache stays safe and what it says stays true of the disk, look-ups return, a thread that is alone does what the
  sequential model says, and the lines of the log do not mix.

  Where the code does less than it means to, a theorem states what it does: holes before an
  extent, unaligned reads in a hole or above 4 GiB, missing index blocks, long names in the cache,
  components of 256 bytes, files that do not exist, keys and schema names that are prefixes, a hash map without room, reads
  at the end of a chunk, strings with two delimiters, a logger that is never initialised, uninitialised
  configurations, a cache of chunks that loads none, a server that is destroyed twice or before it ran, and insertions into the
  cache by two threads at the same time, after which look-ups may loop.

  \<^bold>\<open>Bounds and fuel.\<close> A block size of 1 KiB to 64 KiB (\<open>wf_super\<close>), one transfer of at most
  \<open>MAX_RW_COUNT\<close> bytes, as Linux limits it. \<open>EXTENT_FUEL\<close> exceeds the number of blocks of a device, so
  only a cyclic tree uses it up; \<open>DIR_FUEL\<close> exceeds the number of entries of a directory below
  4 GiB; both are proved to be enough for the well-formed structures. The fuel of the readdir loop is an
  argument, and more than the number of entries is enough. The loops over chunks, rows of a table and jump hashing
  have no fuel: not returning is a value of theirs, and that they return is proved, or that they do not. The
  socket server has fewer than \<open>2 ^ 64\<close> connections.

  \<^bold>\<open>Not modelled.\<close> Concurrency of whole operations: the steps of threads are those inside of \<^verbatim>\<open>dcache.c\<close> and of \<^verbatim>\<open>__LOG\<close>, in
  sequentially consistent memory; the read lock of \<^verbatim>\<open>disk.c\<close> makes reads atomic; the operations of a session run one after the
  other, as libfuse runs them with \<^verbatim>\<open>-s\<close>; the threads of the socket server interleave between callbacks. Failing allocations, and \<^verbatim>\<open>inode_dir_ctx_get\<close> and \<^verbatim>\<open>inode_dir_ctx_put\<close>, which only
  allocate and free. Of \<^verbatim>\<open>fuse_opt_parse\<close> the arguments \<^verbatim>\<open>--\<close> and \<^verbatim>\<open>-\<close> and escapes with a
  backslash. Log output is modelled in the loggers, not at their
  callers. The flags of the ext4 headers that no code uses.
\<close>

end
